(* ===== verification/Prelude.thy ===== *)
theory Prelude
  imports Complex_Main "HOL-Library.Word"
begin

text \<open>
  Shared vocabulary of the development: the C types the client SDK uses, the outcome of a
  C function, the allocator, the casts between \<open>double\<close> and the integer types, and lemmas
  on association lists and words that several components need.

  \<^item> \<open>double\<close> is \<open>rat\<close>: every finite C double is a rational number, and the SDK only stores,
    compares, truncates and increments doubles. NaN and the infinities are not represented,
    rounding is not modelled.
  \<^item> \<open>unsigned int\<close> is a 32 bit word, \<open>int\<close> is \<open>int\<close> with the range checked at the casts.
  \<^item> A pointer that may be \<open>NULL\<close> is an \<open>option\<close>.
  \<^item> \<open>LDAlloc\<close> and its kin (\<open>c-sdk-common/src/memory.c\<close>) call a function the application
    may replace. The model draws the answers from a list of booleans: \<open>False\<close> is an
    allocation that returns \<open>NULL\<close>, and after the end of the list every allocation succeeds,
    so \<open>[]\<close> is the allocator that never fails.
\<close>

named_theorems cmd_simps "unfolding rules for allocator commands"

section \<open>Types\<close>

type_synonym double = rat
type_synonym u32 = "32 word"
type_synonym cstring = "string option"
type_synonym mem = "bool list"

text \<open>
  The outcome of a C function: a value, the error return (\<open>NULL\<close> or false, nothing produced),
  or a fault: a failed \<open>LD_ASSERT\<close> (\<open>c-sdk-common/src/assertion.h\<close>, the shipped build defines
  \<open>LAUNCHDARKLY_USE_ASSERT\<close>, so it aborts) or undefined behaviour of C. \<open>OutOfFuel\<close> marks a
  loop of the model that has used up its bound; that no function ends in a fault therefore
  also says that its loops terminate.
\<close>

datatype fault = AssertFailed | Undefined | OutOfFuel

datatype 'a result = Val 'a | Null | Fault fault

type_synonym 'a cmd = "mem \<Rightarrow> 'a result \<times> mem"

section \<open>Commands that may allocate\<close>

definition cret :: "'a \<Rightarrow> 'a cmd" where
  [cmd_simps]: "cret a m = (Val a, m)"

definition cnull :: "'a cmd" where
  [cmd_simps]: "cnull m = (Null, m)"

definition cfault :: "fault \<Rightarrow> 'a cmd" where
  [cmd_simps]: "cfault e m = (Fault e, m)"

definition clift :: "'a result \<Rightarrow> 'a cmd" where
  [cmd_simps]: "clift r m = (r, m)"

definition cbind :: "'a cmd \<Rightarrow> ('a \<Rightarrow> 'b cmd) \<Rightarrow> 'b cmd" where
  [cmd_simps]: "cbind c f m =
     (case c m of
        (Val a, m') \<Rightarrow> f a m'
      | (Null, m') \<Rightarrow> (Null, m')
      | (Fault e, m') \<Rightarrow> (Fault e, m'))"

text \<open>\<open>if (!(x = c)) \<dots> else \<dots>\<close>: the error return of a call is inspected by the caller.\<close>

definition ctry :: "'a cmd \<Rightarrow> 'a option cmd" where
  [cmd_simps]: "ctry c m =
     (case c m of
        (Val a, m') \<Rightarrow> (Val (Some a), m')
      | (Null, m') \<Rightarrow> (Val None, m')
      | (Fault e, m') \<Rightarrow> (Fault e, m'))"

definition LD_ASSERT :: "bool \<Rightarrow> unit cmd" where
  [cmd_simps]: "LD_ASSERT b = (if b then cret () else cfault AssertFailed)"

fun LDAlloc :: "unit cmd" where
  "LDAlloc [] = (Val (), [])"
| "LDAlloc (True # m) = (Val (), m)"
| "LDAlloc (False # m) = (Null, m)"

definition LDStrDup :: "string \<Rightarrow> string cmd" where
  [cmd_simps]: "LDStrDup s = cbind LDAlloc (\<lambda>_. cret s)"

definition LDStrNDup :: "string \<Rightarrow> nat \<Rightarrow> string cmd" where
  [cmd_simps]: "LDStrNDup s n = cbind LDAlloc (\<lambda>_. cret (take n s))"

text \<open>A command that never faults, whatever the allocator answers.\<close>

definition no_fault :: "'a cmd \<Rightarrow> bool" where
  "no_fault c \<longleftrightarrow> (\<forall>m e. fst (c m) \<noteq> Fault e)"

lemma no_faultD: "no_fault c \<Longrightarrow> fst (c m) \<noteq> Fault e"
  by (simp add: no_fault_def)

lemma no_fault_cret [intro!, simp]: "no_fault (cret a)"
  by (simp add: no_fault_def cret_def)

lemma no_fault_cnull [intro!, simp]: "no_fault cnull"
  by (simp add: no_fault_def cnull_def)

lemma no_fault_clift [simp]: "no_fault (clift r) \<longleftrightarrow> (\<forall>e. r \<noteq> Fault e)"
  by (simp add: no_fault_def clift_def)

lemma no_fault_cbind [intro!]:
  assumes "no_fault c" and "\<And>a. no_fault (f a)"
  shows "no_fault (cbind c f)"
  unfolding no_fault_def
proof (intro allI)
  fix m e
  show "fst (cbind c f m) \<noteq> Fault e"
    using no_faultD[OF assms(1)] no_faultD[OF assms(2)]
    by (cases "c m") (auto simp: cbind_def split: result.splits, metis fst_conv)
qed

lemma no_fault_ctry [intro!]: "no_fault c \<Longrightarrow> no_fault (ctry c)"
  unfolding no_fault_def ctry_def by (auto split: result.splits prod.splits) (metis fst_conv)

lemma no_fault_LDAlloc [intro!, simp]: "no_fault LDAlloc"
  unfolding no_fault_def
proof (intro allI)
  fix m e
  show "fst (LDAlloc m) \<noteq> Fault e"
    by (cases m rule: LDAlloc.cases) auto
qed

lemma LDAlloc_split: "LDAlloc m = (Val (), tl m) \<or> LDAlloc m = (Null, tl m) \<and> m \<noteq> []"
  by (cases m rule: LDAlloc.cases) auto

lemma no_fault_LDStrDup [intro!, simp]: "no_fault (LDStrDup s)"
  by (auto simp: LDStrDup_def)

lemma no_fault_LDStrNDup [intro!, simp]: "no_fault (LDStrNDup s n)"
  by (auto simp: LDStrNDup_def)

lemma no_fault_if [intro!]: "no_fault c \<Longrightarrow> no_fault d \<Longrightarrow> no_fault (if b then c else d)"
  by simp

text \<open>
  A command that never faults and whose value, if there is one, satisfies a condition,
  whatever the allocator answers. The rules go through the structure of a command.
\<close>

definition ensures :: "'a cmd \<Rightarrow> ('a \<Rightarrow> bool) \<Rightarrow> bool" where
  "ensures c Q \<longleftrightarrow> (\<forall>m. case fst (c m) of Val a \<Rightarrow> Q a | Null \<Rightarrow> True | Fault e \<Rightarrow> False)"

lemma ensures_cret [simp]: "ensures (cret a) Q \<longleftrightarrow> Q a"
  by (simp add: ensures_def cret_def)

lemma ensures_cnull [simp]: "ensures cnull Q"
  by (simp add: ensures_def cnull_def)

lemma ensures_cfault [simp]: "\<not> ensures (cfault e) Q"
  by (simp add: ensures_def cfault_def)

lemma ensures_cbind:
  assumes "ensures c P" and "\<And>a. P a \<Longrightarrow> ensures (f a) Q"
  shows "ensures (cbind c f) Q"
  unfolding ensures_def
proof
  fix m
  obtain r m' where c: "c m = (r, m')" by fastforce
  with assms(1) have "case r of Val a \<Rightarrow> P a | Null \<Rightarrow> True | Fault e \<Rightarrow> False"
    unfolding ensures_def by (metis fst_conv)
  with c assms(2) show "case fst (cbind c f m) of Val a \<Rightarrow> Q a | Null \<Rightarrow> True | Fault e \<Rightarrow> False"
    by (cases r) (auto simp: cbind_def ensures_def)
qed

lemma ensures_LDAlloc [simp]: "ensures LDAlloc (\<lambda>_. True)"
  unfolding ensures_def
proof
  fix m
  show "case fst (LDAlloc m) of Val a \<Rightarrow> True | Null \<Rightarrow> True | Fault e \<Rightarrow> False"
    by (cases m rule: LDAlloc.cases) auto
qed

lemma ensures_alloc: "ensures (f ()) Q \<Longrightarrow> ensures (cbind LDAlloc f) Q"
  by (rule ensures_cbind[OF ensures_LDAlloc]) simp

lemma ensures_iff:
  "ensures c Q \<longleftrightarrow> (\<forall>m m' e. c m \<noteq> (Fault e, m')) \<and> (\<forall>m m' a. c m = (Val a, m') \<longrightarrow> Q a)"
proof -
  have "(case fst (c m) of Val a \<Rightarrow> Q a | Null \<Rightarrow> True | Fault e \<Rightarrow> False) \<longleftrightarrow>
      (\<forall>m' e. c m \<noteq> (Fault e, m')) \<and> (\<forall>m' a. c m = (Val a, m') \<longrightarrow> Q a)" for m
    by (cases "c m"; cases "fst (c m)") auto
  then show ?thesis unfolding ensures_def by blast
qed

lemma ensures_mono: "ensures c P \<Longrightarrow> (\<And>a. P a \<Longrightarrow> Q a) \<Longrightarrow> ensures c Q"
  unfolding ensures_iff by blast

lemma ensures_no_fault: "ensures c Q \<Longrightarrow> no_fault c"
  unfolding ensures_iff no_fault_def by (metis prod.collapse)

lemma ensures_Val: "ensures c Q \<Longrightarrow> c m = (Val a, m') \<Longrightarrow> Q a"
  unfolding ensures_iff by blast

lemma ensures_if:
  "(b \<Longrightarrow> ensures c Q) \<Longrightarrow> (\<not> b \<Longrightarrow> ensures d Q) \<Longrightarrow> ensures (if b then c else d) Q"
  by simp

text \<open>
  The same, and if \<open>b\<close> holds the command does return a value when the allocator never fails.
\<close>

definition outcome :: "bool \<Rightarrow> 'a cmd \<Rightarrow> ('a \<Rightarrow> bool) \<Rightarrow> bool" where
  "outcome b c Q \<longleftrightarrow> ensures c Q \<and> (b \<longrightarrow> (\<exists>a. c [] = (Val a, [])))"

lemma outcome_cret [simp]: "outcome b (cret a) Q \<longleftrightarrow> Q a"
  by (simp add: outcome_def cret_def[of _ "[]"])

lemma outcome_cnull [simp]: "outcome b cnull Q \<longleftrightarrow> \<not> b"
  by (simp add: outcome_def cnull_def[of "[]"])

lemma outcome_cbind:
  assumes "outcome b c P" and "\<And>a. P a \<Longrightarrow> outcome b (f a) Q"
  shows "outcome b (cbind c f) Q"
  unfolding outcome_def
proof
  show "ensures (cbind c f) Q"
    using assms unfolding outcome_def by (blast intro: ensures_cbind)
  show "b \<longrightarrow> (\<exists>a. cbind c f [] = (Val a, []))"
  proof
    assume b
    then obtain a where a: "c [] = (Val a, [])" using assms(1) by (auto simp: outcome_def)
    with assms(1) have "P a" by (auto simp: outcome_def intro: ensures_Val)
    with assms(2) \<open>b\<close> a show "\<exists>a. cbind c f [] = (Val a, [])" by (auto simp: outcome_def cbind_def)
  qed
qed

lemma outcome_alloc: "outcome b (f ()) Q \<Longrightarrow> outcome b (cbind LDAlloc f) Q"
  by (rule outcome_cbind[where P = "\<lambda>_. True"]) (simp_all add: outcome_def)

lemma outcome_mono: "outcome b c P \<Longrightarrow> (\<And>a. P a \<Longrightarrow> Q a) \<Longrightarrow> outcome b c Q"
  unfolding outcome_def by (blast intro: ensures_mono)

lemma outcome_ensures: "outcome b c Q \<Longrightarrow> ensures c Q"
  by (simp add: outcome_def)

lemma outcome_value: "outcome True c (\<lambda>r. r = a) \<Longrightarrow> c [] = (Val a, [])"
  by (auto simp: outcome_def dest: ensures_Val)

text \<open>A command whose value, if it returns one, satisfies a condition.\<close>

definition yields :: "'a cmd \<Rightarrow> ('a \<Rightarrow> bool) \<Rightarrow> bool" where
  "yields c Q \<longleftrightarrow> (\<forall>m a m'. c m = (Val a, m') \<longrightarrow> Q a)"

lemma yields_basic [simp]:
  "yields (cret a) Q \<longleftrightarrow> Q a" "yields cnull Q" "yields (cfault e) Q" "yields c (\<lambda>_. True)"
  by (auto simp: yields_def cret_def cnull_def cfault_def)

lemma yields_cbind: "yields c P \<Longrightarrow> (\<And>a. P a \<Longrightarrow> yields (f a) Q) \<Longrightarrow> yields (cbind c f) Q"
  unfolding yields_def cbind_def by (fastforce split: result.splits prod.splits)

lemma yields_any: "(\<And>a. yields (f a) Q) \<Longrightarrow> yields (cbind c f) Q"
  by (rule yields_cbind[where P = "\<lambda>_. True"]) simp_all

lemma yields_mono: "yields c P \<Longrightarrow> (\<And>a. P a \<Longrightarrow> Q a) \<Longrightarrow> yields c Q"
  unfolding yields_def by blast

lemma yields_no_fault: "no_fault c \<Longrightarrow> yields c Q \<Longrightarrow> ensures c Q"
  unfolding yields_def no_fault_def ensures_iff by (metis fst_conv)

text \<open>
  A command that always returns a value, and one that satisfies a condition: whatever the allocator
  answers, or (where \<open>b\<close> holds) as long as it never fails.
\<close>

definition settles :: "bool \<Rightarrow> 'a cmd \<Rightarrow> ('a \<Rightarrow> bool) \<Rightarrow> bool" where
  "settles b c Q \<longleftrightarrow> (\<forall>m. (b \<longrightarrow> m = []) \<longrightarrow> (\<exists>a m'. c m = (Val a, m') \<and> Q a \<and> (b \<longrightarrow> m' = [])))"

lemma settles_cret [simp]: "settles b (cret a) Q \<longleftrightarrow> Q a"
  by (auto simp: settles_def cret_def)

lemma settles_cbind:
  assumes "settles b c P" and "\<And>a. P a \<Longrightarrow> settles b (f a) Q"
  shows "settles b (cbind c f) Q"
  unfolding settles_def
proof (intro allI impI)
  fix m :: mem
  assume "b \<longrightarrow> m = []"
  then obtain a m' where "c m = (Val a, m')" "P a" "b \<longrightarrow> m' = []" using assms(1) unfolding settles_def by blast
  with assms(2) show "\<exists>a m'. cbind c f m = (Val a, m') \<and> Q a \<and> (b \<longrightarrow> m' = [])"
    unfolding settles_def by (auto simp: cbind_def)
qed

lemma settles_mono: "settles b c P \<Longrightarrow> (\<And>a. P a \<Longrightarrow> Q a) \<Longrightarrow> settles b c Q"
  unfolding settles_def by blast

lemma settles_if: "(x \<Longrightarrow> settles b c Q) \<Longrightarrow> (\<not> x \<Longrightarrow> settles b d Q) \<Longrightarrow> settles b (if x then c else d) Q"
  by simp

lemma settles_ctry_alloc: "settles b (ctry LDAlloc) (\<lambda>r. b \<longrightarrow> r \<noteq> None)"
  unfolding settles_def
proof (intro allI impI)
  fix m :: mem
  assume "b \<longrightarrow> m = []"
  then show "\<exists>r m'. ctry LDAlloc m = (Val r, m') \<and> (b \<longrightarrow> r \<noteq> None) \<and> (b \<longrightarrow> m' = [])"
    by (cases m rule: LDAlloc.cases) (auto simp: ctry_def)
qed

lemma settles_ctry_dup: "settles b (ctry (LDStrDup s)) (\<lambda>r. r = Some s \<or> r = None \<and> \<not> b)"
  unfolding settles_def
proof (intro allI impI)
  fix m :: mem
  assume "b \<longrightarrow> m = []"
  then show "\<exists>r m'. ctry (LDStrDup s) m = (Val r, m') \<and> (r = Some s \<or> r = None \<and> \<not> b) \<and> (b \<longrightarrow> m' = [])"
    by (cases m rule: LDAlloc.cases) (auto simp: ctry_def LDStrDup_def cbind_def cret_def)
qed

lemma settles_returns: "settles False c Q \<Longrightarrow> \<exists>a m'. c m = (Val a, m') \<and> Q a"
  unfolding settles_def by blast

lemma settles_Val: "settles False c Q \<Longrightarrow> c m = (Val a, m') \<Longrightarrow> Q a"
  unfolding settles_def by (metis Pair_inject result.inject(1))

lemma settles_plenty: "settles True c Q \<Longrightarrow> \<exists>a. c [] = (Val a, []) \<and> Q a"
  unfolding settles_def by blast

text \<open>A command that leaves the allocator that never fails as it is.\<close>

definition mem_ok :: "'a cmd \<Rightarrow> bool" where
  "mem_ok c \<longleftrightarrow> snd (c []) = []"

lemma mem_ok_basic [intro!, simp]:
  "mem_ok (cret a)" "mem_ok cnull" "mem_ok (cfault e)" "mem_ok (clift r)" "mem_ok (LD_ASSERT b)"
  "mem_ok LDAlloc" "mem_ok (LDStrDup s)" "mem_ok (LDStrNDup s n)"
  by (simp_all add: mem_ok_def cmd_simps)

lemma mem_ok_cbind [intro!]: "mem_ok c \<Longrightarrow> (\<And>a. mem_ok (f a)) \<Longrightarrow> mem_ok (cbind c f)"
  by (auto simp: mem_ok_def cbind_def split: result.splits prod.splits)

lemma mem_ok_ctry [intro!]: "mem_ok c \<Longrightarrow> mem_ok (ctry c)"
  by (auto simp: mem_ok_def ctry_def split: result.splits prod.splits)

lemma mem_ok_if [intro!]: "(b \<Longrightarrow> mem_ok c) \<Longrightarrow> (\<not> b \<Longrightarrow> mem_ok d) \<Longrightarrow> mem_ok (if b then c else d)"
  by simp

lemma mem_ok_option [intro!]:
  "mem_ok c \<Longrightarrow> (\<And>a. mem_ok (d a)) \<Longrightarrow> mem_ok (case x of None \<Rightarrow> c | Some a \<Rightarrow> d a)"
  by (cases x) simp_all

lemma mem_ok_prod [intro!]: "(\<And>a b. mem_ok (c a b)) \<Longrightarrow> mem_ok (case x of (a, b) \<Rightarrow> c a b)"
  by (cases x) simp

text \<open>A command whose value, if it returns one, does not depend on the allocator.\<close>

definition steady :: "'a cmd \<Rightarrow> bool" where
  "steady c \<longleftrightarrow> snd (c []) = [] \<and> (\<forall>m a m'. c m = (Val a, m') \<longrightarrow> fst (c []) = Val a)"

lemma steady_basic [intro!, simp]: "steady (cret a)" "steady cnull" "steady (cfault e)" "steady LDAlloc"
  by (auto simp: steady_def cret_def cnull_def cfault_def)

lemma steady_cbind [intro!]:
  assumes "steady c" and "\<And>a. steady (f a)"
  shows "steady (cbind c f)"
  unfolding steady_def
proof (intro conjI allI impI)
  show "snd (cbind c f []) = []"
    using assms by (auto simp: steady_def cbind_def split: result.splits prod.splits)
  fix m b m'
  assume "cbind c f m = (Val b, m')"
  then obtain a m1 where "c m = (Val a, m1)" and f: "f a m1 = (Val b, m')"
    by (auto simp: cbind_def split: result.splits prod.splits)
  then have "c [] = (Val a, [])" using assms(1) unfolding steady_def by (metis prod.collapse)
  with f assms(2)[of a] show "fst (cbind c f []) = Val b" unfolding steady_def by (auto simp: cbind_def)
qed

lemma steady_if [intro!]: "steady c \<Longrightarrow> steady d \<Longrightarrow> steady (if b then c else d)"
  by simp

lemma steady_option [intro!]:
  "steady c \<Longrightarrow> (\<And>a. steady (d a)) \<Longrightarrow> steady (case x of None \<Rightarrow> c | Some a \<Rightarrow> d a)"
  by (cases x) simp_all

lemma steady_prod [intro!]: "(\<And>a b. steady (c a b)) \<Longrightarrow> steady (case x of (a, b) \<Rightarrow> c a b)"
  by (cases x) simp

lemma steady_mem_ok: "steady c \<Longrightarrow> mem_ok c"
  by (simp add: steady_def mem_ok_def)

lemma steadyD: "steady c \<Longrightarrow> c m = (Val a, m') \<Longrightarrow> c [] = (Val a, [])"
  unfolding steady_def by (metis prod.collapse)

text \<open>Reading off the value of a command that returned one.\<close>

lemma cmd_Val_split:
  "cbind c f m = (Val b, m') \<longleftrightarrow> (\<exists>a m''. c m = (Val a, m'') \<and> f a m'' = (Val b, m'))"
  by (auto simp: cbind_def split: result.splits prod.splits)

lemma cret_Val_iff: "cret a m = (Val b, m') \<longleftrightarrow> b = a \<and> m' = m"
  by (auto simp: cret_def)

lemma cnull_not_Val: "cnull m \<noteq> (Val b, m')"
  by (simp add: cnull_def)

lemma clift_Val_iff: "clift r m = (Val b, m') \<longleftrightarrow> r = Val b \<and> m' = m"
  by (auto simp: clift_def)

lemma ctry_Val_iff:
  "ctry c m = (Val r, m') \<longleftrightarrow>
     (\<exists>a. r = Some a \<and> c m = (Val a, m')) \<or> r = None \<and> c m = (Null, m')"
  by (auto simp: ctry_def split: result.splits prod.splits)

lemma cfault_not_Val: "cfault e m \<noteq> (Val b, m')"
  by (simp add: cfault_def)

lemma LD_ASSERT_Val_iff: "LD_ASSERT b m = (Val u, m') \<longleftrightarrow> b \<and> m' = m"
  by (auto simp: LD_ASSERT_def cret_def cfault_def)

lemmas cmd_Val_iffs = cmd_Val_split cret_Val_iff cnull_not_Val clift_Val_iff

section \<open>C strings\<close>

abbreviation nul :: char where "nul \<equiv> CHR 0x00"

text \<open>The bytes from an address up to the terminator.\<close>

definition c_str :: "string \<Rightarrow> string" where
  "c_str s = takeWhile (\<lambda>c. c \<noteq> nul) s"

lemma c_str_id: "nul \<notin> set s \<Longrightarrow> c_str s = s"
  by (simp add: c_str_def takeWhile_eq_all_conv) metis

lemma c_str_nul [simp]: "nul \<notin> set (c_str s)"
  by (auto simp: c_str_def dest: set_takeWhileD)

section \<open>Casts\<close>

definition INT_MIN :: int where "INT_MIN = - 2147483648"
definition INT_MAX :: int where "INT_MAX = 2147483647"

text \<open>C truncates towards zero; out of the range of the target the cast is undefined.\<close>

definition c_trunc :: "double \<Rightarrow> int" where
  "c_trunc d = (if 0 \<le> d then \<lfloor>d\<rfloor> else \<lceil>d\<rceil>)"

definition double_to_int :: "double \<Rightarrow> int result" where
  "double_to_int d =
     (if INT_MIN \<le> c_trunc d \<and> c_trunc d \<le> INT_MAX then Val (c_trunc d) else Fault Undefined)"

definition double_to_uint :: "double \<Rightarrow> u32 result" where
  "double_to_uint d =
     (if 0 \<le> c_trunc d \<and> c_trunc d < 4294967296 then Val (word_of_int (c_trunc d))
      else Fault Undefined)"

definition is_int :: "int \<Rightarrow> bool" where
  "is_int i \<longleftrightarrow> INT_MIN \<le> i \<and> i \<le> INT_MAX"

lemma c_trunc_of_int [simp]: "c_trunc (of_int i) = i"
  by (simp add: c_trunc_def)

lemma double_to_int_of_int [simp]: "is_int i \<Longrightarrow> double_to_int (of_int i) = Val i"
  by (simp add: double_to_int_def is_int_def)

lemma double_to_int_range: "double_to_int d = Val i \<Longrightarrow> is_int i"
  by (auto simp: double_to_int_def is_int_def split: if_splits)

section \<open>Association lists\<close>

text \<open>First match, as the linear searches of the code find it.\<close>

fun delete_first :: "'k \<Rightarrow> ('k \<times> 'v) list \<Rightarrow> ('k \<times> 'v) list" where
  "delete_first k [] = []"
| "delete_first k ((k', v) # xs) = (if k' = k then xs else (k', v) # delete_first k xs)"

lemma delete_first_absent [simp]: "k \<notin> fst ` set xs \<Longrightarrow> delete_first k xs = xs"
  by (induction k xs rule: delete_first.induct) auto

lemma set_delete_first: "set (delete_first k xs) \<subseteq> set xs"
  by (induction k xs rule: delete_first.induct) auto

lemma distinct_delete_first: "distinct (map fst xs) \<Longrightarrow> distinct (map fst (delete_first k xs))"
  by (induction k xs rule: delete_first.induct) (use set_delete_first in fastforce)+

lemma map_of_delete_first_other [simp]: "k' \<noteq> k \<Longrightarrow> map_of (delete_first k xs) k' = map_of xs k'"
  by (induction k xs rule: delete_first.induct) auto

lemma map_of_delete_first_same:
  "distinct (map fst xs) \<Longrightarrow> map_of (delete_first k xs) k = None"
  by (induction k xs rule: delete_first.induct) (auto simp: map_of_eq_None_iff)

lemma fst_set_delete_first:
  "distinct (map fst xs) \<Longrightarrow> fst ` set (delete_first k xs) = fst ` set xs - {k}"
  by (induction k xs rule: delete_first.induct) auto

lemma length_delete_first_le: "length (delete_first k xs) \<le> length xs"
  by (induction k xs rule: delete_first.induct) auto

lemma delete_first_append_new [simp]:
  "k \<notin> fst ` set xs \<Longrightarrow> delete_first k (xs @ ys) = xs @ delete_first k ys"
  by (induction k xs rule: delete_first.induct) auto

lemma map_of_append_not_in [simp]: "k \<notin> fst ` set xs \<Longrightarrow> map_of (xs @ ys) k = map_of ys k"
  by (simp add: map_add_def map_of_eq_None_iff[THEN iffD2] split: option.splits)

text \<open>Replacing the value under the first matching key in place.\<close>

fun update_first :: "'k \<Rightarrow> ('v \<Rightarrow> 'v) \<Rightarrow> ('k \<times> 'v) list \<Rightarrow> ('k \<times> 'v) list" where
  "update_first k f [] = []"
| "update_first k f ((k', v) # xs) =
     (if k' = k then (k', f v) # xs else (k', v) # update_first k f xs)"

lemma map_fst_update_first [simp]: "map fst (update_first k f xs) = map fst xs"
  by (induction k f xs rule: update_first.induct) auto

lemma length_update_first [simp]: "length (update_first k f xs) = length xs"
  by (induction k f xs rule: update_first.induct) auto

lemma map_of_update_first:
  "map_of (update_first k f xs) k' =
     (if k' = k then map_option f (map_of xs k) else map_of xs k')"
  by (induction k f xs rule: update_first.induct) auto

lemma find_SomeD: "find P xs = Some x \<Longrightarrow> x \<in> set xs \<and> P x"
  by (induction xs) (auto split: if_splits)

lemma option_eqI: "(\<And>a. x = Some a \<longleftrightarrow> y = Some a) \<Longrightarrow> x = y"
  by (cases x; cases y) auto

section \<open>Words\<close>

lemma unat_of_nat_u32: "n < 4294967296 \<Longrightarrow> unat (of_nat n :: u32) = n"
  by (simp add: unat_of_nat)

lemma u32_le_of_nat: "n < 4294967296 \<Longrightarrow> (c \<le> (of_nat n :: u32)) = (unat c \<le> n)"
  by (simp add: word_le_nat_alt unat_of_nat_u32)

lemma sint_u32_small: "unat (w :: u32) < 2147483648 \<Longrightarrow> sint w = int (unat w)"
proof -
  assume small: "unat w < 2147483648"
  define n where "n = unat w"
  have "uint w = int n" by (simp add: n_def)
  moreover have "n < 2147483648" using small by (simp only: n_def)
  ultimately have "uint w < 2 ^ 31" by simp
  then have "signed_take_bit 31 (uint w) = uint w"
    by (intro signed_take_bit_int_eq_self) (auto intro: order.trans[of _ 0])
  then show ?thesis by (simp add: sint_uint)
qed

lemma sint_u32_large: "2147483648 \<le> unat (w :: u32) \<Longrightarrow> sint w < 0"
proof -
  assume large: "2147483648 \<le> unat w"
  define n where "n = unat w"
  have "uint w = int n" by (simp add: n_def)
  moreover have "2147483648 \<le> n" using large by (simp only: n_def)
  ultimately have "2 ^ 31 \<le> uint w" by simp
  then have "signed_take_bit 31 (uint w) \<le> uint w - 2 ^ Suc 31" by (rule signed_take_bit_int_less_eq)
  also have "\<dots> < 0" using unsigned_less[of w] by simp
  finally have "signed_take_bit 31 (uint w) < 0" .
  then show ?thesis unfolding sint_uint by simp
qed

end
