(* ===== verification/Json.thy ===== *)
theory Json
  imports Prelude
begin

text \<open>
  The JSON layer of \<open>c-sdk-common/src/json.c\<close> over the tree that \<open>cJSON\<close> keeps: every node
  is one of six kinds, an object is a list of named children in insertion order, a lookup
  finds the first child with the name. The shipped build defines \<open>LAUNCHDARKLY_DEFENSIVE\<close>
  and not \<open>LAUNCHDARKLY_OFFENSIVE\<close>: the \<open>NULL\<close> and type guards are live and
  \<open>LD_ASSERT_API\<close> is empty. An operation that changes a node in place returns the new node.
  One answer of the allocator decides whether a node constructor succeeds.

  The locale \<open>object_map\<close> is the contract the rest of the SDK relies on: what a lookup
  returns after a key was set, deleted or detached.
\<close>

section \<open>Nodes\<close>

datatype LDJSONType = LDNull | LDText | LDNumber | LDBool | LDObject | LDArray

datatype json =
    JNull
  | JBool bool
  | JNumber double
  | JText string
  | JArray "json list"
  | JObject "(string \<times> json) list"

type_synonym json_ptr = "json option"

text \<open>An iterator is the rest of the child list, each child with its name if it has one.\<close>

type_synonym json_iter = "(cstring \<times> json) list"

fun cJSON_IsBool :: "json \<Rightarrow> bool" where
  "cJSON_IsBool (JBool b) = True"
| "cJSON_IsBool _ = False"

fun cJSON_IsNumber :: "json \<Rightarrow> bool" where
  "cJSON_IsNumber (JNumber d) = True"
| "cJSON_IsNumber _ = False"

fun cJSON_IsNull :: "json \<Rightarrow> bool" where
  "cJSON_IsNull JNull = True"
| "cJSON_IsNull _ = False"

fun cJSON_IsObject :: "json \<Rightarrow> bool" where
  "cJSON_IsObject (JObject xs) = True"
| "cJSON_IsObject _ = False"

fun cJSON_IsArray :: "json \<Rightarrow> bool" where
  "cJSON_IsArray (JArray xs) = True"
| "cJSON_IsArray _ = False"

fun cJSON_IsString :: "json \<Rightarrow> bool" where
  "cJSON_IsString (JText s) = True"
| "cJSON_IsString _ = False"

text \<open>The child list of a node (\<open>node->child\<close>), names included.\<close>

fun json_children :: "json \<Rightarrow> json_iter" where
  "json_children (JArray xs) = map (\<lambda>x. (None, x)) xs"
| "json_children (JObject xs) = map (\<lambda>(k, x). (Some k, x)) xs"
| "json_children _ = []"

section \<open>Constructors\<close>

definition LDNewNull :: "json cmd" where
  [cmd_simps]: "LDNewNull = cbind LDAlloc (\<lambda>_. cret JNull)"

definition LDNewBool :: "bool \<Rightarrow> json cmd" where
  [cmd_simps]: "LDNewBool boolean = cbind LDAlloc (\<lambda>_. cret (JBool boolean))"

definition LDNewNumber :: "double \<Rightarrow> json cmd" where
  [cmd_simps]: "LDNewNumber number = cbind LDAlloc (\<lambda>_. cret (JNumber number))"

definition LDNewText :: "cstring \<Rightarrow> json cmd" where
  [cmd_simps]: "LDNewText text =
     (case text of None \<Rightarrow> cnull | Some t \<Rightarrow> cbind LDAlloc (\<lambda>_. cret (JText t)))"

definition LDNewObject :: "json cmd" where
  [cmd_simps]: "LDNewObject = cbind LDAlloc (\<lambda>_. cret (JObject []))"

definition LDNewArray :: "json cmd" where
  [cmd_simps]: "LDNewArray = cbind LDAlloc (\<lambda>_. cret (JArray []))"

definition LDJSONDuplicate :: "json_ptr \<Rightarrow> json cmd" where
  [cmd_simps]: "LDJSONDuplicate input =
     (case input of None \<Rightarrow> cnull | Some j \<Rightarrow> cbind LDAlloc (\<lambda>_. cret j))"

section \<open>Types and scalar values\<close>

definition LDJSONGetType :: "json_ptr \<Rightarrow> LDJSONType" where
  "LDJSONGetType inputRaw =
     (case inputRaw of
        None \<Rightarrow> LDNull
      | Some input \<Rightarrow>
          (if cJSON_IsBool input then LDBool
           else if cJSON_IsNumber input then LDNumber
           else if cJSON_IsNull input then LDNull
           else if cJSON_IsObject input then LDObject
           else if cJSON_IsArray input then LDArray
           else LDText))"

fun LDSetNumber :: "json_ptr \<Rightarrow> double \<Rightarrow> bool \<times> json_ptr" where
  "LDSetNumber (Some (JNumber _)) number = (True, Some (JNumber number))"
| "LDSetNumber rawNode number = (False, rawNode)"

fun LDGetBool :: "json_ptr \<Rightarrow> bool" where
  "LDGetBool (Some (JBool b)) = b"
| "LDGetBool _ = False"

fun LDGetNumber :: "json_ptr \<Rightarrow> double" where
  "LDGetNumber (Some (JNumber d)) = d"
| "LDGetNumber _ = 0"

fun LDGetText :: "json_ptr \<Rightarrow> cstring" where
  "LDGetText (Some (JText s)) = Some s"
| "LDGetText _ = None"

section \<open>Iteration and collections\<close>

definition LDGetIter :: "json_ptr \<Rightarrow> json_iter" where
  "LDGetIter rawCollection =
     (case rawCollection of
        None \<Rightarrow> []
      | Some c \<Rightarrow> if \<not> cJSON_IsArray c \<and> \<not> cJSON_IsObject c then [] else json_children c)"

definition LDIterNext :: "json_iter \<Rightarrow> json_iter" where
  "LDIterNext rawIter = (case rawIter of [] \<Rightarrow> [] | _ # iter \<Rightarrow> iter)"

definition LDIterKey :: "json_iter \<Rightarrow> cstring" where
  "LDIterKey rawIter = (case rawIter of [] \<Rightarrow> None | (k, _) # _ \<Rightarrow> k)"

text \<open>\<open>cJSON_GetArraySize\<close> counts with \<open>size_t\<close> and the result is cast to 32 bits.\<close>

definition LDCollectionGetSize :: "json_ptr \<Rightarrow> u32" where
  "LDCollectionGetSize rawCollection =
     (case rawCollection of
        None \<Rightarrow> 0
      | Some c \<Rightarrow>
          (if \<not> cJSON_IsArray c \<and> \<not> cJSON_IsObject c then 0
           else of_nat (length (json_children c))))"

text \<open>The index is cast to \<open>int\<close>: from \<open>2^31\<close> on it is negative and finds nothing.\<close>

fun LDArrayLookup :: "json_ptr \<Rightarrow> u32 \<Rightarrow> json_ptr" where
  "LDArrayLookup (Some (JArray xs)) index =
     (if sint index < 0 then None
      else if nat (sint index) < length xs then Some (xs ! nat (sint index)) else None)"
| "LDArrayLookup _ index = None"

fun LDArrayPush :: "json_ptr \<Rightarrow> json_ptr \<Rightarrow> bool \<times> json_ptr" where
  "LDArrayPush (Some (JArray xs)) (Some item) = (True, Some (JArray (xs @ [item])))"
| "LDArrayPush rawArray item = (False, rawArray)"

text \<open>The loop of \<open>LDArrayAppend\<close>: what was appended before a failed allocation stays.\<close>

fun array_append_loop :: "json list \<Rightarrow> json list \<Rightarrow> (bool \<times> json list) cmd" where
  "array_append_loop prefix [] = cret (True, prefix)"
| "array_append_loop prefix (iter # rest) =
     cbind (ctry (LDJSONDuplicate (Some iter))) (\<lambda>d.
       case d of
         None \<Rightarrow> cret (False, prefix)
       | Some dupe \<Rightarrow> array_append_loop (prefix @ [dupe]) rest)"

fun LDArrayAppend :: "json_ptr \<Rightarrow> json_ptr \<Rightarrow> (bool \<times> json_ptr) cmd" where
  "LDArrayAppend (Some (JArray xs)) (Some (JArray ys)) =
     cbind (array_append_loop xs ys) (\<lambda>(ok, zs). cret (ok, Some (JArray zs)))"
| "LDArrayAppend rawPrefix rawSuffix = cret (False, rawPrefix)"

section \<open>Objects\<close>

fun LDObjectLookup :: "json_ptr \<Rightarrow> cstring \<Rightarrow> json_ptr" where
  "LDObjectLookup (Some (JObject xs)) (Some key) = map_of xs key"
| "LDObjectLookup _ _ = None"

text \<open>
  The first child named \<open>key\<close> is deleted, then the item is appended. Appending copies the key:
  when that allocation fails \<open>cJSON_AddItemToObject\<close> drops the item and \<open>LDObjectSetKey\<close>
  still returns true.
\<close>

fun LDObjectSetKey :: "json_ptr \<Rightarrow> cstring \<Rightarrow> json_ptr \<Rightarrow> json cmd" where
  "LDObjectSetKey (Some (JObject xs)) (Some key) (Some item) =
     cbind (ctry (LDStrDup key)) (\<lambda>new_key.
       case new_key of
         None \<Rightarrow> cret (JObject (delete_first key xs))
       | Some k \<Rightarrow> cret (JObject (delete_first key xs @ [(k, item)])))"
| "LDObjectSetKey _ _ _ = cnull"

fun LDObjectDeleteKey :: "json_ptr \<Rightarrow> cstring \<Rightarrow> json_ptr" where
  "LDObjectDeleteKey (Some (JObject xs)) (Some key) = Some (JObject (delete_first key xs))"
| "LDObjectDeleteKey rawObject _ = rawObject"

fun LDObjectDetachKey :: "json_ptr \<Rightarrow> cstring \<Rightarrow> json_ptr \<times> json_ptr" where
  "LDObjectDetachKey (Some (JObject xs)) (Some key) =
     (map_of xs key, Some (JObject (delete_first key xs)))"
| "LDObjectDetachKey rawObject _ = (None, rawObject)"

fun object_merge_loop :: "json_ptr \<Rightarrow> (string \<times> json) list \<Rightarrow> (bool \<times> json_ptr) cmd" where
  "object_merge_loop to_obj [] = cret (True, to_obj)"
| "object_merge_loop to_obj ((k, iter) # rest) =
     cbind (ctry (LDJSONDuplicate (Some iter))) (\<lambda>d.
       case d of
         None \<Rightarrow> cret (False, to_obj)
       | Some duplicate \<Rightarrow>
           cbind (LDObjectSetKey to_obj (Some k) (Some duplicate)) (\<lambda>to_obj'.
             object_merge_loop (Some to_obj') rest))"

fun LDObjectMerge :: "json_ptr \<Rightarrow> json_ptr \<Rightarrow> (bool \<times> json_ptr) cmd" where
  "LDObjectMerge (Some (JObject xs)) (Some (JObject ys)) =
     object_merge_loop (Some (JObject xs)) ys"
| "LDObjectMerge to_obj from_obj = cret (False, to_obj)"

section \<open>Building objects\<close>

text \<open>
  The SDK builds an object by repeating \<open>tmp = LDNew\<dots>(\<dots>)\<close> and \<open>LDObjectSetKey(obj, key, tmp)\<close>,
  with or without a condition around the pair.
\<close>

definition json_set_new :: "json \<Rightarrow> string \<Rightarrow> json cmd \<Rightarrow> json cmd" where
  "json_set_new obj key mk = cbind mk (\<lambda>tmp. LDObjectSetKey (Some obj) (Some key) (Some tmp))"

definition json_set_if :: "bool \<Rightarrow> json \<Rightarrow> string \<Rightarrow> json cmd \<Rightarrow> json cmd" where
  "json_set_if c obj key mk = (if c then json_set_new obj key mk else cret obj)"

definition obj_put :: "(string \<times> json) list \<Rightarrow> string \<Rightarrow> json \<Rightarrow> (string \<times> json) list" where
  "obj_put xs k v = delete_first k xs @ [(k, v)]"

definition obj_put_if ::
  "bool \<Rightarrow> (string \<times> json) list \<Rightarrow> string \<Rightarrow> json \<Rightarrow> (string \<times> json) list" where
  "obj_put_if c xs k v = (if c then obj_put xs k v else xs)"

section \<open>Lemmas\<close>

subsection \<open>With an allocator that does not fail\<close>

named_theorems alloc_ok "results when every allocation succeeds"

lemma cbind_ok [alloc_ok]: "c m = (Val a, m') \<Longrightarrow> cbind c f m = f a m'"
  by (simp add: cbind_def)

lemma ctry_ok [alloc_ok]: "c m = (Val a, m') \<Longrightarrow> ctry c m = (Val (Some a), m')"
  by (simp add: ctry_def)

lemma cret_ok [alloc_ok]: "cret a m = (Val a, m)"
  by (simp add: cret_def)

lemma new_ok [alloc_ok]:
  "LDNewNull [] = (Val JNull, [])"
  "LDNewBool b [] = (Val (JBool b), [])"
  "LDNewNumber d [] = (Val (JNumber d), [])"
  "LDNewText (Some s) [] = (Val (JText s), [])"
  "LDNewObject [] = (Val (JObject []), [])"
  "LDNewArray [] = (Val (JArray []), [])"
  "LDJSONDuplicate (Some j) [] = (Val j, [])"
  "LDStrDup s [] = (Val s, [])"
  "LDStrNDup s n [] = (Val (take n s), [])"
  by (simp_all add: cmd_simps)

lemma LDObjectSetKey_ok [alloc_ok]:
  "LDObjectSetKey (Some (JObject xs)) (Some k) (Some v) [] = (Val (JObject (obj_put xs k v)), [])"
  by (simp add: cmd_simps obj_put_def)

lemma json_set_new_ok [alloc_ok]:
  "mk [] = (Val v, []) \<Longrightarrow>
   json_set_new (JObject xs) k mk [] = (Val (JObject (obj_put xs k v)), [])"
  by (simp add: json_set_new_def alloc_ok del: LDObjectSetKey.simps)

lemma json_set_if_ok [alloc_ok]:
  "(c \<Longrightarrow> mk [] = (Val v, [])) \<Longrightarrow>
   json_set_if c (JObject xs) k mk [] = (Val (JObject (obj_put_if c xs k v)), [])"
  by (simp add: json_set_if_def obj_put_if_def alloc_ok)

lemma array_append_loop_ok [alloc_ok]: "array_append_loop xs ys [] = (Val (True, xs @ ys), [])"
  by (induction ys arbitrary: xs) (simp_all add: alloc_ok)

lemma LDArrayAppend_ok:
  "LDArrayAppend (Some (JArray xs)) (Some (JArray ys)) [] =
     (Val (True, Some (JArray (xs @ ys))), [])"
  by (simp add: alloc_ok)

subsection \<open>Whatever the allocator does\<close>

lemma no_fault_new [intro!, simp]:
  "no_fault LDNewNull" "no_fault (LDNewBool b)" "no_fault (LDNewNumber d)"
  "no_fault (LDNewText t)" "no_fault LDNewObject" "no_fault LDNewArray"
  "no_fault (LDJSONDuplicate j)"
  by (auto simp: LDNewNull_def LDNewBool_def LDNewNumber_def LDNewText_def LDNewObject_def
      LDNewArray_def LDJSONDuplicate_def split: option.splits)

lemma no_fault_LDObjectSetKey [intro!, simp]: "no_fault (LDObjectSetKey obj k v)"
  by (cases "(obj, k, v)" rule: LDObjectSetKey.cases) (auto split: option.splits)

declare LDObjectSetKey.simps(1) [simp del]

lemma no_fault_json_set_new [intro!]: "no_fault mk \<Longrightarrow> no_fault (json_set_new obj k mk)"
  by (auto simp: json_set_new_def)

lemma no_fault_json_set_if [intro!]: "no_fault mk \<Longrightarrow> no_fault (json_set_if c obj k mk)"
  by (auto simp: json_set_if_def)

subsection \<open>Object contents\<close>

lemma map_of_obj_put:
  "distinct (map fst xs) \<Longrightarrow>
   map_of (obj_put xs k v) k' = (if k' = k then Some v else map_of xs k')"
  by (auto simp: obj_put_def map_of_delete_first_same map_add_def split: option.splits)

lemma distinct_obj_put: "distinct (map fst xs) \<Longrightarrow> distinct (map fst (obj_put xs k v))"
  by (auto simp: obj_put_def distinct_delete_first dest: fst_set_delete_first)

lemma map_of_obj_put_if:
  "distinct (map fst xs) \<Longrightarrow>
   map_of (obj_put_if c xs k v) k' = (if c \<and> k' = k then Some v else map_of xs k')"
  by (simp add: obj_put_if_def map_of_obj_put)

lemma distinct_obj_put_if: "distinct (map fst xs) \<Longrightarrow> distinct (map fst (obj_put_if c xs k v))"
  by (simp add: obj_put_if_def distinct_obj_put)

lemmas obj_simps = map_of_obj_put distinct_obj_put map_of_obj_put_if distinct_obj_put_if

lemma obj_put_absent: "k \<notin> fst ` set xs \<Longrightarrow> obj_put xs k v = xs @ [(k, v)]"
  by (simp add: obj_put_def)

section \<open>The contract of an object\<close>

locale object_map =
  fixes empty_obj :: "'o"
    and set_key :: "'o \<Rightarrow> 'k \<Rightarrow> 'v \<Rightarrow> 'o"
    and del_key :: "'o \<Rightarrow> 'k \<Rightarrow> 'o"
    and look :: "'o \<Rightarrow> 'k \<Rightarrow> 'v option"
    and invar :: "'o \<Rightarrow> bool"
  assumes invar_empty: "invar empty_obj"
    and look_empty: "look empty_obj k = None"
    and invar_set: "invar ob \<Longrightarrow> invar (set_key ob k v)"
    and look_set: "invar ob \<Longrightarrow> look (set_key ob k v) k' = (if k' = k then Some v else look ob k')"
    and invar_del: "invar ob \<Longrightarrow> invar (del_key ob k)"
    and look_del: "invar ob \<Longrightarrow> look (del_key ob k) k' = (if k' = k then None else look ob k')"
begin

definition set_all :: "'o \<Rightarrow> ('k \<times> 'v) list \<Rightarrow> 'o" where
  "set_all ob kvs = foldl (\<lambda>b (k, v). set_key b k v) ob kvs"

lemma invar_set_all: "invar ob \<Longrightarrow> invar (set_all ob kvs)"
  unfolding set_all_def by (induction kvs arbitrary: ob) (auto simp: invar_set)

text \<open>After a series of assignments a key holds its last assignment.\<close>

lemma look_set_all:
  "invar ob \<Longrightarrow>
   look (set_all ob kvs) k =
     (case map_of (rev kvs) k of None \<Rightarrow> look ob k | Some v \<Rightarrow> Some v)"
proof (induction kvs arbitrary: ob)
  case Nil
  then show ?case by (simp add: set_all_def)
next
  case (Cons kv kvs)
  obtain k' v where kv: "kv = (k', v)" by fastforce
  have "look (set_all ob (kv # kvs)) k = look (set_all (set_key ob k' v) kvs) k"
    by (simp add: set_all_def kv)
  also have "\<dots> = (case map_of (rev kvs) k of None \<Rightarrow> look (set_key ob k' v) k | Some w \<Rightarrow> Some w)"
    using Cons by (simp add: invar_set)
  finally show ?case
    using Cons.prems by (simp add: kv look_set map_add_def split: option.splits)
qed

lemma set_then_del: "invar ob \<Longrightarrow> look (del_key (set_key ob k v) k) k' = look (del_key ob k) k'"
  by (simp add: look_del look_set invar_set)

end

text \<open>JSON objects with distinct names satisfy it, through the operations of \<open>json.c\<close>.\<close>

definition wf_object :: "json \<Rightarrow> bool" where
  "wf_object obj = (case obj of JObject xs \<Rightarrow> distinct (map fst xs) | _ \<Rightarrow> False)"

definition set_key_ok :: "json \<Rightarrow> string \<Rightarrow> json \<Rightarrow> json" where
  "set_key_ok obj k v =
     (case fst (LDObjectSetKey (Some obj) (Some k) (Some v) []) of Val obj' \<Rightarrow> obj' | _ \<Rightarrow> obj)"

definition delete_key_ok :: "json \<Rightarrow> string \<Rightarrow> json" where
  "delete_key_ok obj k = the (LDObjectDeleteKey (Some obj) (Some k))"

interpretation ldobj: object_map "JObject []" set_key_ok delete_key_ok
  "\<lambda>obj k. LDObjectLookup (Some obj) (Some k)" wf_object
  by unfold_locales
    (auto simp: wf_object_def set_key_ok_def delete_key_ok_def LDObjectSetKey_ok obj_simps
      distinct_delete_first map_of_delete_first_same
      split: json.splits)

lemma object_merge_loop_ok:
  "object_merge_loop (Some (JObject xs)) ys [] =
     (Val (True, Some (JObject (foldl (\<lambda>zs (k, v). obj_put zs k v) xs ys))), [])"
  by (induction ys arbitrary: xs) (auto simp: alloc_ok)

lemma map_of_foldl_obj_put:
  "distinct (map fst xs) \<Longrightarrow>
   map_of (foldl (\<lambda>zs (k, v). obj_put zs k v) xs ys) k =
     (case map_of (rev ys) k of None \<Rightarrow> map_of xs k | Some v \<Rightarrow> Some v)"
  by (induction ys arbitrary: xs) (auto simp: obj_simps map_add_def split: option.splits)

lemma foldl_obj_put_new:
  "distinct (map fst (acc @ kvs)) \<Longrightarrow> foldl (\<lambda>zs (k, v). obj_put zs k v) acc kvs = acc @ kvs"
proof (induction kvs arbitrary: acc)
  case (Cons kv kvs)
  obtain k v where kv: "kv = (k, v)" by fastforce
  have "obj_put acc k v = acc @ [(k, v)]" using Cons.prems by (intro obj_put_absent) (auto simp: kv)
  with Cons kv show ?case by simp
qed simp

lemma LDObjectSetKey_Val:
  assumes "LDObjectSetKey (Some (JObject xs)) (Some k) v m = (Val obj, m')"
  shows "\<exists>v'. v = Some v' \<and> (obj = JObject (delete_first k xs) \<or> obj = JObject (obj_put xs k v'))"
  using assms
  by (cases v) (auto simp: LDObjectSetKey.simps obj_put_def cbind_def ctry_def cret_def cnull_def
      LDStrDup_def split: option.splits result.splits prod.splits if_splits)

lemma set_obj_put: "set (obj_put xs k v) \<subseteq> insert (k, v) (set xs)"
  using set_delete_first[of k xs] by (auto simp: obj_put_def)

lemma json_set_new_Val:
  assumes "json_set_new (JObject xs) k mk m = (Val obj, m')"
  shows "\<exists>v m''. mk m = (Val v, m'') \<and>
    (obj = JObject (delete_first k xs) \<or> obj = JObject (obj_put xs k v))"
  using assms by (auto simp: json_set_new_def cmd_Val_iffs dest!: LDObjectSetKey_Val)

lemma LDGetIter_None [simp]: "LDGetIter None = []"
  by (simp add: LDGetIter_def)

lemma LDNewText_Val: "LDNewText t m = (Val j, m') \<Longrightarrow> \<exists>s. t = Some s \<and> j = JText s"
  by (auto simp: LDNewText_def cmd_Val_iffs split: option.splits)

text \<open>Setting a key adds at most one member, whatever the allocator does.\<close>

lemma LDObjectSetKey_sub:
  assumes "LDObjectSetKey (Some (JObject xs)) (Some k) (Some v) m = (Val obj, m')"
  shows "\<exists>ys. obj = JObject ys \<and> set ys \<subseteq> insert (k, v) (set xs)"
proof -
  have "set (delete_first k xs) \<subseteq> insert (k, v) (set xs)" using set_delete_first[of k xs] by blast
  with LDObjectSetKey_Val[OF assms] set_obj_put[of xs k v] show ?thesis by auto
qed

lemma json_set_new_sub:
  assumes "json_set_new (JObject xs) k mk m = (Val obj, m')"
  shows "\<exists>v m'' ys. mk m = (Val v, m'') \<and> obj = JObject ys \<and> set ys \<subseteq> insert (k, v) (set xs)"
  using assms by (auto simp: json_set_new_def cmd_Val_iffs dest!: LDObjectSetKey_sub)

lemma mem_ok_new [intro!, simp]:
  "mem_ok LDNewNull" "mem_ok (LDNewBool b)" "mem_ok (LDNewNumber d)"
  "mem_ok (LDNewText t)" "mem_ok LDNewObject" "mem_ok LDNewArray"
  "mem_ok (LDJSONDuplicate j)"
  by (auto simp: LDNewNull_def LDNewBool_def LDNewNumber_def LDNewText_def LDNewObject_def
      LDNewArray_def LDJSONDuplicate_def)

section \<open>Properties\<close>

text \<open>\<open>LDObjectMerge\<close> with memory available: a key of the second object (its last occurrence)
  overrides the first object, every other key keeps its value.\<close>

theorem LDObjectMerge_lookup:
  assumes "distinct (map fst xs)"
  shows "\<exists>zs. LDObjectMerge (Some (JObject xs)) (Some (JObject ys)) [] =
      (Val (True, Some (JObject zs)), []) \<and>
    (\<forall>k. LDObjectLookup (Some (JObject zs)) (Some k) =
       (case map_of (rev ys) k of None \<Rightarrow> LDObjectLookup (Some (JObject xs)) (Some k) | Some v \<Rightarrow> Some v))"
  using map_of_foldl_obj_put[OF assms] by (simp add: object_merge_loop_ok split: option.split)

theorem LDObjectMerge_lookup_witness:
  "\<exists>zs. LDObjectMerge (Some (JObject [(''a'', JNull), (''b'', JNull)])) (Some (JObject [(''a'', JBool True)])) [] =
      (Val (True, Some (JObject zs)), []) \<and> map_of zs ''a'' = Some (JBool True) \<and> map_of zs ''b'' = Some JNull"
  using LDObjectMerge_lookup[of "[(''a'', JNull), (''b'', JNull)]" "[(''a'', JBool True)]"] by force

lemma array_append_loop_prefix:
  "\<exists>ok n m'. array_append_loop xs ys m = (Val (ok, xs @ take n ys), m') \<and> ok = (length ys \<le> n) \<and>
    (m = [] \<longrightarrow> ok)"
proof (induction ys arbitrary: xs m)
  case Nil
  then show ?case by (auto simp: cret_def)
next
  case (Cons y ys)
  show ?case
  proof (cases "fst (LDAlloc m) = Null")
    case True
    then have "array_append_loop xs (y # ys) m = (Val (False, xs @ take 0 (y # ys)), tl m)" "m \<noteq> []"
      by (cases m rule: LDAlloc.cases; simp add: cmd_simps)+
    then show ?thesis by fastforce
  next
    case False
    then have "array_append_loop xs (y # ys) m = array_append_loop (xs @ [y]) ys (tl m)"
      by (cases m rule: LDAlloc.cases) (simp_all add: cmd_simps)
    moreover obtain ok n m' where "array_append_loop (xs @ [y]) ys (tl m) = (Val (ok, (xs @ [y]) @ take n ys), m')"
        "ok = (length ys \<le> n)" "tl m = [] \<longrightarrow> ok"
      using Cons by blast
    ultimately show ?thesis by (intro exI[of _ ok] exI[of _ "Suc n"] exI[of _ m']) auto
  qed
qed

text \<open>\<open>LDArrayAppend\<close> under any behaviour of the allocator never faults and never loses what
  was there: the result is the first array followed by a prefix of the second, all of it
  exactly when success is reported.\<close>

theorem LDArrayAppend_prefix:
  "\<exists>ok n m'. LDArrayAppend (Some (JArray xs)) (Some (JArray ys)) m =
      (Val (ok, Some (JArray (xs @ take n ys))), m') \<and> ok = (length ys \<le> n)"
proof -
  obtain ok n m' where "array_append_loop xs ys m = (Val (ok, xs @ take n ys), m')" "ok = (length ys \<le> n)"
    using array_append_loop_prefix by blast
  then show ?thesis by (force simp: cbind_def cret_def)
qed

text \<open>\<open>LDArrayLookup\<close> never reads outside the array: an index finds the element at that
  position if there is one, and an index of \<open>2^31\<close> or more (negative after the cast) finds
  nothing.\<close>

theorem LDArrayLookup_bounds:
  "LDArrayLookup (Some (JArray xs)) index =
     (if unat index < length xs \<and> unat index < 2147483648 then Some (xs ! unat index) else None)"
  using sint_u32_small[of index] sint_u32_large[of index]
  by (cases "unat index < 2147483648") (auto simp: not_less)

end
