(* ===== verification/Flag.thy ===== *)
theory Flag
  imports Json
begin

text \<open>
  Feature flags (\<open>src/flag.h\<close>, \<open>src/flag.c\<close>): the flag record, the parser that reads a flag
  from the JSON the service sends, and the serializer \<open>LDClientSaveFlags\<close> uses. The lemmas
  give the parser's result on every branch and show that parsing undoes serializing.
\<close>

section \<open>Flags\<close>

record LDFlag =
  flag_key :: string
  flag_value :: json_ptr
  flag_version :: int
  flag_flagVersion :: int
  flag_variation :: int
  flag_trackEvents :: bool
  flag_trackReason :: bool
  flag_reason :: json_ptr
  flag_debugEventsUntilDate :: double
  flag_deleted :: bool

section \<open>Parsing\<close>

text \<open>The name: the caller's if it gives one, the member \<open>key\<close> of the object otherwise.\<close>

definition flag_parse_key :: "cstring \<Rightarrow> json \<Rightarrow> string cmd" where
  "flag_parse_key key raw =
     (case key of
        Some k \<Rightarrow> LDStrDup k
      | None \<Rightarrow>
          (case LDObjectLookup (Some raw) (Some ''key'') of
             None \<Rightarrow> cnull
           | Some tmp \<Rightarrow>
               (if LDJSONGetType (Some tmp) \<noteq> LDText then cnull
                else (case LDGetText (Some tmp) of
                        None \<Rightarrow> cfault Undefined
                      | Some text \<Rightarrow> LDStrDup text))))"

definition flag_parse_value :: "json \<Rightarrow> json cmd" where
  "flag_parse_value raw =
     (case LDObjectLookup (Some raw) (Some ''value'') of
        Some tmp \<Rightarrow> LDJSONDuplicate (Some tmp)
      | None \<Rightarrow> cnull)"

definition flag_parse_version :: "json \<Rightarrow> int cmd" where
  "flag_parse_version raw =
     (case LDObjectLookup (Some raw) (Some ''version'') of
        Some tmp \<Rightarrow>
          (if LDJSONGetType (Some tmp) \<noteq> LDNumber then cnull
           else clift (double_to_int (LDGetNumber (Some tmp))))
      | None \<Rightarrow> cnull)"

definition flag_parse_deleted :: "json \<Rightarrow> bool cmd" where
  "flag_parse_deleted raw =
     (case LDObjectLookup (Some raw) (Some ''deleted'') of
        Some tmp \<Rightarrow>
          (if LDJSONGetType (Some tmp) \<noteq> LDBool then cnull else cret (LDGetBool (Some tmp)))
      | None \<Rightarrow> cret False)"

text \<open>Optional members keep their default when they have the wrong type.\<close>

definition flag_parse_opt_int :: "string \<Rightarrow> json \<Rightarrow> int cmd" where
  "flag_parse_opt_int name raw =
     (case LDObjectLookup (Some raw) (Some name) of
        Some tmp \<Rightarrow>
          (if LDJSONGetType (Some tmp) = LDNumber
           then clift (double_to_int (LDGetNumber (Some tmp))) else cret (- 1))
      | None \<Rightarrow> cret (- 1))"

definition flag_parse_opt_bool :: "string \<Rightarrow> json \<Rightarrow> bool" where
  "flag_parse_opt_bool name raw =
     (case LDObjectLookup (Some raw) (Some name) of
        Some tmp \<Rightarrow>
          (if LDJSONGetType (Some tmp) = LDBool then LDGetBool (Some tmp) else False)
      | None \<Rightarrow> False)"

definition flag_parse_debug :: "json \<Rightarrow> double" where
  "flag_parse_debug raw =
     (case LDObjectLookup (Some raw) (Some ''debugEventsUntilDate'') of
        Some tmp \<Rightarrow>
          (if LDJSONGetType (Some tmp) = LDNumber then LDGetNumber (Some tmp) else 0)
      | None \<Rightarrow> 0)"

definition flag_parse_reason :: "json \<Rightarrow> json_ptr cmd" where
  "flag_parse_reason raw =
     (case LDObjectLookup (Some raw) (Some ''reason'') of
        Some tmp \<Rightarrow>
          (if LDJSONGetType (Some tmp) = LDObject
           then cbind (LDJSONDuplicate (Some tmp)) (\<lambda>dupe. cret (Some dupe)) else cret None)
      | None \<Rightarrow> cret None)"

definition LDi_flag_parse :: "cstring \<Rightarrow> json \<Rightarrow> LDFlag cmd" where
  "LDi_flag_parse key raw =
     (if LDJSONGetType (Some raw) \<noteq> LDObject then cnull
      else
        cbind (flag_parse_key key raw) (\<lambda>k.
        cbind (flag_parse_value raw) (\<lambda>v.
        cbind (flag_parse_version raw) (\<lambda>ver.
        cbind (flag_parse_deleted raw) (\<lambda>del.
        cbind (flag_parse_opt_int ''flagVersion'' raw) (\<lambda>fver.
        cbind (flag_parse_opt_int ''variation'' raw) (\<lambda>var.
        cbind (flag_parse_reason raw) (\<lambda>rsn.
        cret
          \<lparr>flag_key = k, flag_value = Some v, flag_version = ver, flag_flagVersion = fver,
           flag_variation = var,
           flag_trackEvents = flag_parse_opt_bool ''trackEvents'' raw,
           flag_trackReason = flag_parse_opt_bool ''trackReason'' raw,
           flag_reason = rsn,
           flag_debugEventsUntilDate = flag_parse_debug raw,
           flag_deleted = del\<rparr>))))))))"

section \<open>Serializing\<close>

definition LDi_flag_to_json :: "LDFlag \<Rightarrow> json cmd" where
  "LDi_flag_to_json flag =
     cbind LDNewObject (\<lambda>result.
     cbind (json_set_new result ''key'' (LDNewText (Some (flag_key flag)))) (\<lambda>result.
     cbind (json_set_new result ''value'' (LDJSONDuplicate (flag_value flag))) (\<lambda>result.
     cbind (json_set_if (flag_version flag \<ge> 0) result ''version''
              (LDNewNumber (of_int (flag_version flag)))) (\<lambda>result.
     cbind (json_set_if (flag_flagVersion flag \<ge> 0) result ''flagVersion''
              (LDNewNumber (of_int (flag_flagVersion flag)))) (\<lambda>result.
     cbind (json_set_new result ''variation'' (LDNewNumber (of_int (flag_variation flag)))) (\<lambda>result.
     cbind (json_set_if (flag_trackEvents flag) result ''trackEvents'' (LDNewBool True)) (\<lambda>result.
     cbind (json_set_if (flag_trackReason flag) result ''trackReason'' (LDNewBool True)) (\<lambda>result.
     cbind (json_set_if (flag_reason flag \<noteq> None) result ''reason''
              (LDJSONDuplicate (flag_reason flag))) (\<lambda>result.
     cbind (json_set_if (flag_debugEventsUntilDate flag \<noteq> 0) result ''debugEventsUntilDate''
              (LDNewNumber (flag_debugEventsUntilDate flag))) (\<lambda>result.
     json_set_if (flag_deleted flag) result ''deleted'' (LDNewBool True)))))))))))"

section \<open>Well-formed flags\<close>

text \<open>
  What a flag needs for its serialization to carry it: a value, integers in the range of
  \<open>int\<close>, a version that is written at all, a flag version that is written or the default.
\<close>

definition flag_ok :: "LDFlag \<Rightarrow> bool" where
  "flag_ok flag \<longleftrightarrow>
     flag_value flag \<noteq> None \<and>
     0 \<le> flag_version flag \<and> flag_version flag \<le> INT_MAX \<and>
     - 1 \<le> flag_flagVersion flag \<and> flag_flagVersion flag \<le> INT_MAX \<and>
     is_int (flag_variation flag) \<and>
     (case flag_reason flag of None \<Rightarrow> True | Some r \<Rightarrow> cJSON_IsObject r)"

section \<open>Lemmas\<close>

lemma LDJSONGetType_simps [simp]:
  "LDJSONGetType None = LDNull"
  "LDJSONGetType (Some JNull) = LDNull"
  "LDJSONGetType (Some (JBool b)) = LDBool"
  "LDJSONGetType (Some (JNumber d)) = LDNumber"
  "LDJSONGetType (Some (JText s)) = LDText"
  "LDJSONGetType (Some (JArray xs)) = LDArray"
  "LDJSONGetType (Some (JObject kvs)) = LDObject"
  by (simp_all add: LDJSONGetType_def)

lemma LDJSONGetType_iff:
  "LDJSONGetType (Some j) = LDObject \<longleftrightarrow> (\<exists>xs. j = JObject xs)"
  "LDJSONGetType (Some j) = LDText \<longleftrightarrow> (\<exists>s. j = JText s)"
  "LDJSONGetType (Some j) = LDNumber \<longleftrightarrow> (\<exists>d. j = JNumber d)"
  "LDJSONGetType (Some j) = LDBool \<longleftrightarrow> (\<exists>b. j = JBool b)"
  "LDJSONGetType (Some j) = LDArray \<longleftrightarrow> (\<exists>xs. j = JArray xs)"
  by (cases j; simp)+

text \<open>The members of a serialized flag, in the order of the code.\<close>

definition flag_members :: "LDFlag \<Rightarrow> (string \<times> json) list" where
  "flag_members flag =
     obj_put_if (flag_deleted flag)
      (obj_put_if (flag_debugEventsUntilDate flag \<noteq> 0)
       (obj_put_if (flag_reason flag \<noteq> None)
        (obj_put_if (flag_trackReason flag)
         (obj_put_if (flag_trackEvents flag)
          (obj_put
           (obj_put_if (flag_flagVersion flag \<ge> 0)
            (obj_put_if (flag_version flag \<ge> 0)
             (obj_put (obj_put [] ''key'' (JText (flag_key flag))) ''value'' (the (flag_value flag)))
             ''version'' (JNumber (of_int (flag_version flag))))
            ''flagVersion'' (JNumber (of_int (flag_flagVersion flag))))
           ''variation'' (JNumber (of_int (flag_variation flag))))
          ''trackEvents'' (JBool True))
         ''trackReason'' (JBool True))
        ''reason'' (the (flag_reason flag)))
       ''debugEventsUntilDate'' (JNumber (flag_debugEventsUntilDate flag)))
      ''deleted'' (JBool True)"

lemma duplicate_the_ok [alloc_ok]: "p \<noteq> None \<Longrightarrow> LDJSONDuplicate p [] = (Val (the p), [])"
  by (auto simp: alloc_ok)

lemma LDi_flag_to_json_ok [alloc_ok]:
  "flag_value flag \<noteq> None \<Longrightarrow>
   LDi_flag_to_json flag [] = (Val (JObject (flag_members flag)), [])"
  by (simp add: LDi_flag_to_json_def flag_members_def alloc_ok)

lemma flag_members_lookup:
  "map_of (flag_members flag) ''key'' = Some (JText (flag_key flag))"
  "map_of (flag_members flag) ''value'' = Some (the (flag_value flag))"
  "map_of (flag_members flag) ''version'' =
     (if flag_version flag \<ge> 0 then Some (JNumber (of_int (flag_version flag))) else None)"
  "map_of (flag_members flag) ''flagVersion'' =
     (if flag_flagVersion flag \<ge> 0 then Some (JNumber (of_int (flag_flagVersion flag))) else None)"
  "map_of (flag_members flag) ''variation'' = Some (JNumber (of_int (flag_variation flag)))"
  "map_of (flag_members flag) ''trackEvents'' =
     (if flag_trackEvents flag then Some (JBool True) else None)"
  "map_of (flag_members flag) ''trackReason'' =
     (if flag_trackReason flag then Some (JBool True) else None)"
  "map_of (flag_members flag) ''reason'' = flag_reason flag"
  "map_of (flag_members flag) ''debugEventsUntilDate'' =
     (if flag_debugEventsUntilDate flag \<noteq> 0
      then Some (JNumber (flag_debugEventsUntilDate flag)) else None)"
  "map_of (flag_members flag) ''deleted'' = (if flag_deleted flag then Some (JBool True) else None)"
  by (simp_all add: flag_members_def obj_simps)

lemma flag_parse_parts_serialized:
  assumes "flag_ok flag"
  defines "raw \<equiv> JObject (flag_members flag)"
  shows "flag_parse_key None raw [] = (Val (flag_key flag), [])"
    and "flag_parse_key (Some k) raw [] = (Val k, [])"
    and "flag_parse_value raw [] = (Val (the (flag_value flag)), [])"
    and "flag_parse_version raw [] = (Val (flag_version flag), [])"
    and "flag_parse_deleted raw [] = (Val (flag_deleted flag), [])"
    and "flag_parse_opt_int ''flagVersion'' raw [] = (Val (flag_flagVersion flag), [])"
    and "flag_parse_opt_int ''variation'' raw [] = (Val (flag_variation flag), [])"
    and "flag_parse_reason raw [] = (Val (flag_reason flag), [])"
    and "flag_parse_opt_bool ''trackEvents'' raw = flag_trackEvents flag"
    and "flag_parse_opt_bool ''trackReason'' raw = flag_trackReason flag"
    and "flag_parse_debug raw = flag_debugEventsUntilDate flag"
proof -
  have ints: "is_int (flag_version flag)" "is_int (flag_flagVersion flag)" "is_int (flag_variation flag)"
    using assms(1) by (auto simp: flag_ok_def is_int_def INT_MIN_def)
  note parts = raw_def flag_members_lookup alloc_ok clift_def ints
  show "flag_parse_key None raw [] = (Val (flag_key flag), [])"
    and "flag_parse_key (Some k) raw [] = (Val k, [])"
    by (simp_all add: flag_parse_key_def parts)
  show "flag_parse_value raw [] = (Val (the (flag_value flag)), [])"
    by (simp add: flag_parse_value_def parts)
  show "flag_parse_version raw [] = (Val (flag_version flag), [])"
    using assms(1) by (simp add: flag_parse_version_def parts flag_ok_def)
  show "flag_parse_deleted raw [] = (Val (flag_deleted flag), [])"
    by (simp add: flag_parse_deleted_def parts)
  show "flag_parse_opt_int ''flagVersion'' raw [] = (Val (flag_flagVersion flag), [])"
    using assms(1) by (simp add: flag_parse_opt_int_def parts flag_ok_def)
  show "flag_parse_opt_int ''variation'' raw [] = (Val (flag_variation flag), [])"
    by (simp add: flag_parse_opt_int_def parts)
  show "flag_parse_reason raw [] = (Val (flag_reason flag), [])"
    using assms(1)
    by (auto simp: flag_parse_reason_def parts flag_ok_def split: option.splits elim: cJSON_IsObject.elims)
  show "flag_parse_opt_bool ''trackEvents'' raw = flag_trackEvents flag"
    and "flag_parse_opt_bool ''trackReason'' raw = flag_trackReason flag"
    and "flag_parse_debug raw = flag_debugEventsUntilDate flag"
    by (simp_all add: flag_parse_opt_bool_def flag_parse_debug_def parts)
qed

lemma flag_parse_serialized:
  assumes "flag_ok flag"
  shows "LDi_flag_parse None (JObject (flag_members flag)) [] = (Val flag, [])"
    and "LDi_flag_parse (Some k) (JObject (flag_members flag)) [] = (Val (flag\<lparr>flag_key := k\<rparr>), [])"
proof -
  have "flag_value flag \<noteq> None" using assms by (simp add: flag_ok_def)
  then show "LDi_flag_parse None (JObject (flag_members flag)) [] = (Val flag, [])"
    and "LDi_flag_parse (Some k) (JObject (flag_members flag)) [] = (Val (flag\<lparr>flag_key := k\<rparr>), [])"
    by (auto simp: LDi_flag_parse_def flag_parse_parts_serialized[OF assms] alloc_ok)
qed

text \<open>A parsed flag is in the range of the struct's fields; the parser runs on any input.\<close>

lemma flag_parse_opt_int_range:
  "flag_parse_opt_int name raw m = (Val i, m') \<Longrightarrow> is_int i"
  by (auto simp: flag_parse_opt_int_def cmd_Val_iffs is_int_def INT_MIN_def INT_MAX_def
      dest: double_to_int_range split: option.splits if_splits)

lemma flag_parse_version_range: "flag_parse_version raw m = (Val i, m') \<Longrightarrow> is_int i"
  by (auto simp: flag_parse_version_def cmd_Val_iffs dest: double_to_int_range
      split: option.splits if_splits)

lemma flag_parse_reason_object:
  "flag_parse_reason raw m = (Val (Some r), m') \<Longrightarrow> cJSON_IsObject r"
  by (auto simp: flag_parse_reason_def cmd_Val_iffs LDJSONDuplicate_def LDJSONGetType_iff
      split: option.splits if_splits)

lemma LDi_flag_parse_range:
  assumes "LDi_flag_parse key raw m = (Val flag, m')"
  shows "flag_value flag \<noteq> None \<and> is_int (flag_version flag) \<and> is_int (flag_flagVersion flag) \<and>
    is_int (flag_variation flag) \<and> (\<forall>r. flag_reason flag = Some r \<longrightarrow> cJSON_IsObject r)"
  using assms
  by (auto simp: LDi_flag_parse_def cmd_Val_iffs
      dest: flag_parse_opt_int_range flag_parse_version_range flag_parse_reason_object
      split: if_splits)

lemma LDi_flag_parse_ok:
  assumes "LDi_flag_parse key raw m = (Val flag, m')"
    and "0 \<le> flag_version flag" and "- 1 \<le> flag_flagVersion flag"
  shows "flag_ok flag"
  using LDi_flag_parse_range[OF assms(1)] assms(2,3)
  by (auto simp: flag_ok_def is_int_def split: option.splits)

text \<open>The name of a parsed flag is the caller's.\<close>

lemma LDi_flag_parse_key:
  "LDi_flag_parse (Some k) raw m = (Val flag, m') \<Longrightarrow> flag_key flag = k"
  by (auto simp: LDi_flag_parse_def cmd_Val_iffs flag_parse_key_def LDStrDup_def split: if_splits)

section \<open>Properties\<close>

text \<open>C31. Serializing a well-formed flag and parsing the result gives the flag back, whether the
  parser takes the name from the payload or from its caller.\<close>

theorem flag_json_roundtrip:
  assumes "flag_ok flag"
  shows "\<exists>j. LDi_flag_to_json flag [] = (Val j, []) \<and>
    LDi_flag_parse None j [] = (Val flag, []) \<and>
    LDi_flag_parse (Some (flag_key flag)) j [] = (Val flag, [])"
proof -
  have "flag_value flag \<noteq> None" using assms by (simp add: flag_ok_def)
  with flag_parse_serialized[OF assms] show ?thesis by (simp add: LDi_flag_to_json_ok)
qed

theorem flag_json_roundtrip_witness:
  "\<exists>j. LDi_flag_to_json
      \<lparr>flag_key = ''k'', flag_value = Some (JArray [JNumber (1/2)]), flag_version = 7,
       flag_flagVersion = -1, flag_variation = 2, flag_trackEvents = True, flag_trackReason = False,
       flag_reason = Some (JObject [(''kind'', JText ''OFF'')]), flag_debugEventsUntilDate = 0,
       flag_deleted = False\<rparr> [] = (Val j, [])"
  using flag_json_roundtrip[of "\<lparr>flag_key = ''k'', flag_value = Some (JArray [JNumber (1/2)]),
       flag_version = 7, flag_flagVersion = -1, flag_variation = 2, flag_trackEvents = True,
       flag_trackReason = False, flag_reason = Some (JObject [(''kind'', JText ''OFF'')]),
       flag_debugEventsUntilDate = 0, flag_deleted = False\<rparr>"]
  by (auto simp: flag_ok_def is_int_def INT_MIN_def INT_MAX_def)

text \<open>C40. Whatever JSON it is given and whatever the allocator does, a flag the parser accepts has
  a value, numbers in the range of the struct's fields and, if any, an object as its reason;
  with a name given by the caller it has that name.\<close>

theorem flag_parse_wellformed:
  assumes "LDi_flag_parse key raw m = (Val flag, m')"
  shows "flag_value flag \<noteq> None \<and> is_int (flag_version flag) \<and> is_int (flag_flagVersion flag) \<and>
    is_int (flag_variation flag) \<and> (\<forall>r. flag_reason flag = Some r \<longrightarrow> cJSON_IsObject r) \<and>
    (\<forall>k. key = Some k \<longrightarrow> flag_key flag = k)"
  using LDi_flag_parse_range[OF assms] LDi_flag_parse_key assms by blast

theorem flag_parse_wellformed_witness:
  "\<exists>flag. LDi_flag_parse (Some ''k'') (JObject [(''value'', JBool True), (''version'', JNumber 4)]) [] =
      (Val flag, []) \<and> flag_key flag = ''k'' \<and> is_int (flag_version flag)"
proof -
  have "\<exists>flag. LDi_flag_parse (Some ''k'') (JObject [(''value'', JBool True), (''version'', JNumber 4)]) [] =
      (Val flag, [])"
    by (auto simp: LDi_flag_parse_def flag_parse_key_def flag_parse_value_def flag_parse_version_def
        flag_parse_deleted_def flag_parse_opt_int_def flag_parse_reason_def alloc_ok clift_def
        double_to_int_def c_trunc_def INT_MIN_def INT_MAX_def cmd_Val_iffs)
  with flag_parse_wellformed show ?thesis by blast
qed

end
