(* ===== verification/Listener.thy ===== *)
theory Listener
  imports Prelude
begin

text \<open>
  Flag change listeners (\<open>src/flag_change_listener.c\<close>): a singly linked list of a flag key and
  a callback, a new listener in front. A callback is identified by its address. The lemmas
  show that the list never holds a pair twice and that a dispatch calls exactly the
  registered callbacks of the flag, each once.
\<close>

section \<open>Listeners\<close>

type_synonym callback = nat

record ChangeListener =
  cl_flag :: string
  cl_callback :: callback

text \<open>\<open>strcmp\<close>: the sign of the difference of the first differing bytes.\<close>

fun strcmp :: "string \<Rightarrow> string \<Rightarrow> int" where
  "strcmp [] [] = 0"
| "strcmp [] (y # ys) = - 1"
| "strcmp (x # xs) [] = 1"
| "strcmp (x # xs) (y # ys) =
     (if (of_char x :: nat) = of_char y then strcmp xs ys
      else if (of_char x :: nat) < of_char y then - 1 else 1)"

definition newListener :: "string \<Rightarrow> callback \<Rightarrow> ChangeListener cmd" where
  "newListener flag callback =
     cbind LDAlloc (\<lambda>_.
     cbind (LDStrDup flag) (\<lambda>f. cret \<lparr>cl_flag = f, cl_callback = callback\<rparr>))"

definition flagcmp :: "ChangeListener \<Rightarrow> ChangeListener \<Rightarrow> int" where
  "flagcmp a b =
     (let cmp = strcmp (cl_flag a) (cl_flag b)
      in if cmp \<noteq> 0 then cmp
         else if cl_callback a = cl_callback b then 0
         else if cl_callback a > cl_callback b then 1 else - 1)"

text \<open>\<open>LL_SEARCH\<close> finds the first element that compares equal.\<close>

definition LL_SEARCH :: "ChangeListener list \<Rightarrow> ChangeListener \<Rightarrow> ChangeListener option" where
  "LL_SEARCH listeners elt = find (\<lambda>out. flagcmp out elt = 0) listeners"

definition LDi_initListeners :: "ChangeListener list" where
  "LDi_initListeners = []"

definition LDi_freeListeners :: "ChangeListener list \<Rightarrow> ChangeListener list" where
  "LDi_freeListeners listeners = []"

definition LDi_listenerAdd ::
  "ChangeListener list \<Rightarrow> string \<Rightarrow> callback \<Rightarrow> (bool \<times> ChangeListener list) cmd" where
  "LDi_listenerAdd listeners flag callback =
     cbind (ctry (newListener flag callback)) (\<lambda>n.
       case n of
         None \<Rightarrow> cret (False, listeners)
       | Some new \<Rightarrow>
           (case LL_SEARCH listeners new of
              Some existing \<Rightarrow> cret (True, listeners)
            | None \<Rightarrow> cret (True, new # listeners)))"

text \<open>The loop stops at the first match.\<close>

fun LDi_listenerRemove ::
  "ChangeListener list \<Rightarrow> string \<Rightarrow> callback \<Rightarrow> ChangeListener list" where
  "LDi_listenerRemove [] flag callback = []"
| "LDi_listenerRemove (listener # rest) flag callback =
     (if strcmp (cl_flag listener) flag = 0 \<and> cl_callback listener = callback then rest
      else listener # LDi_listenerRemove rest flag callback)"

text \<open>The calls a dispatch makes, in order: callback, flag key, status argument.\<close>

type_synonym call = "callback \<times> string \<times> bool"

fun LDi_listenersDispatch :: "ChangeListener list \<Rightarrow> string \<Rightarrow> bool \<Rightarrow> call list" where
  "LDi_listenersDispatch [] flag status = []"
| "LDi_listenersDispatch (listener # rest) flag status =
     (if strcmp (cl_flag listener) flag = 0
      then (cl_callback listener, flag, status) # LDi_listenersDispatch rest flag status
      else LDi_listenersDispatch rest flag status)"

section \<open>Lemmas\<close>

lemma strcmp_eq_0 [simp]: "strcmp a b = 0 \<longleftrightarrow> a = b"
  by (induction a b rule: strcmp.induct) auto

lemma listener_eq_iff:
  "(l = \<lparr>cl_flag = f, cl_callback = c\<rparr>) \<longleftrightarrow> cl_flag l = f \<and> cl_callback l = c" for l :: ChangeListener
  by (cases l) auto

lemma listener_eqI:
  "cl_flag a = cl_flag b \<Longrightarrow> cl_callback a = cl_callback b \<Longrightarrow> a = b" for a b :: ChangeListener
  by (cases a, cases b) auto

lemma flagcmp_eq_0 [simp]: "flagcmp a b = 0 \<longleftrightarrow> a = b"
  by (auto simp: flagcmp_def Let_def intro: listener_eqI)

lemma LL_SEARCH_None: "LL_SEARCH ls l = None \<longleftrightarrow> l \<notin> set ls"
  by (auto simp: LL_SEARCH_def find_None_iff)

lemma LL_SEARCH_Some: "LL_SEARCH ls l = Some l' \<Longrightarrow> l' = l \<and> l \<in> set ls"
  by (auto simp: LL_SEARCH_def find_Some_iff)

section \<open>The contract of the listener list\<close>

text \<open>
  What the store relies on: registering adds the pair, removing takes exactly that pair out,
  and a dispatch reaches the registered callbacks of the key.
\<close>

locale listener_registry =
  fixes add :: "'l \<Rightarrow> string \<Rightarrow> callback \<Rightarrow> 'l"
    and remove :: "'l \<Rightarrow> string \<Rightarrow> callback \<Rightarrow> 'l"
    and dispatch :: "'l \<Rightarrow> string \<Rightarrow> bool \<Rightarrow> call list"
    and registered :: "'l \<Rightarrow> (string \<times> callback) set"
    and invar :: "'l \<Rightarrow> bool"
  assumes invar_add: "invar ls \<Longrightarrow> invar (add ls f c)"
    and invar_remove: "invar ls \<Longrightarrow> invar (remove ls f c)"
    and registered_add: "invar ls \<Longrightarrow> registered (add ls f c) = insert (f, c) (registered ls)"
    and registered_remove: "invar ls \<Longrightarrow> registered (remove ls f c) = registered ls - {(f, c)}"
    and dispatch_distinct: "invar ls \<Longrightarrow> distinct (dispatch ls f b)"
    and dispatch_set: "invar ls \<Longrightarrow> set (dispatch ls f b) = {(c, f, b) |c. (f, c) \<in> registered ls}"
begin

lemma dispatch_after_add:
  "invar ls \<Longrightarrow> (c, f, b) \<in> set (dispatch (add ls f c) f b)"
  by (simp add: dispatch_set invar_add registered_add)

lemma dispatch_after_remove:
  "invar ls \<Longrightarrow> (c, f, b) \<notin> set (dispatch (remove ls f c) f b)"
  by (simp add: dispatch_set invar_remove registered_remove)

lemma dispatch_other_key:
  "invar ls \<Longrightarrow> f' \<noteq> f \<Longrightarrow> set (dispatch (add ls f c) f' b) = set (dispatch ls f' b)"
  by (auto simp: dispatch_set invar_add registered_add)

end

definition listener_add_ok ::
  "ChangeListener list \<Rightarrow> string \<Rightarrow> callback \<Rightarrow> ChangeListener list" where
  "listener_add_ok ls f c =
     (case fst (LDi_listenerAdd ls f c []) of Val (_, ls') \<Rightarrow> ls' | _ \<Rightarrow> ls)"

definition listener_pairs :: "ChangeListener list \<Rightarrow> (string \<times> callback) set" where
  "listener_pairs ls = (\<lambda>l. (cl_flag l, cl_callback l)) ` set ls"

lemma listener_add_ok_eq:
  "listener_add_ok ls f c =
     (let l = \<lparr>cl_flag = f, cl_callback = c\<rparr> in if l \<in> set ls then ls else l # ls)"
  by (auto simp: listener_add_ok_def LDi_listenerAdd_def newListener_def cmd_simps Let_def
      LL_SEARCH_None dest: LL_SEARCH_Some split: option.splits)

lemma set_listenerRemove:
  "distinct ls \<Longrightarrow>
   set (LDi_listenerRemove ls f c) = set ls - {\<lparr>cl_flag = f, cl_callback = c\<rparr>}"
proof (induction ls)
  case (Cons l ls)
  show ?case
  proof (cases "l = \<lparr>cl_flag = f, cl_callback = c\<rparr>")
    case True
    with Cons.prems show ?thesis by auto
  next
    case False
    then have "\<not> (cl_flag l = f \<and> cl_callback l = c)" by (simp add: listener_eq_iff)
    with False Cons show ?thesis by auto
  qed
qed simp

lemma distinct_listenerRemove: "distinct ls \<Longrightarrow> distinct (LDi_listenerRemove ls f c)"
  by (induction ls f c rule: LDi_listenerRemove.induct) (auto simp: set_listenerRemove)

lemma set_listenersDispatch:
  "set (LDi_listenersDispatch ls f b) = {(c, f, b) |c. (f, c) \<in> listener_pairs ls}"
  by (induction ls f b rule: LDi_listenersDispatch.induct) (auto simp: listener_pairs_def image_iff)

lemma distinct_listenersDispatch: "distinct ls \<Longrightarrow> distinct (LDi_listenersDispatch ls f b)"
proof (induction ls f b rule: LDi_listenersDispatch.induct)
  case (2 l rest f b)
  then show ?case
    by (auto simp: set_listenersDispatch listener_pairs_def dest: listener_eqI)
qed simp

interpretation ldlisteners: listener_registry listener_add_ok LDi_listenerRemove
  LDi_listenersDispatch listener_pairs distinct
proof unfold_locales
  fix ls :: "ChangeListener list" and f c
  assume "distinct ls"
  then show "distinct (listener_add_ok ls f c)"
    by (auto simp: listener_add_ok_eq Let_def)
  show "listener_pairs (listener_add_ok ls f c) = insert (f, c) (listener_pairs ls)"
    by (auto simp: listener_add_ok_eq Let_def listener_pairs_def image_iff)
      (metis ChangeListener.select_convs)
  show "listener_pairs (LDi_listenerRemove ls f c) = listener_pairs ls - {(f, c)}"
    using \<open>distinct ls\<close>
    by (auto simp: listener_pairs_def set_listenerRemove listener_eq_iff)
qed (auto simp: distinct_listenerRemove distinct_listenersDispatch set_listenersDispatch)

text \<open>Whatever the allocator does, adding keeps the list free of duplicates.\<close>

lemma LDi_listenerAdd_cases:
  assumes "LDi_listenerAdd ls f c m = (r, m')"
  shows "r = Val (True, listener_add_ok ls f c) \<or> r = Val (False, ls)"
proof -
  have "no_fault (newListener f c)" by (auto simp: newListener_def)
  moreover have "newListener f c m = (Val l, m'') \<Longrightarrow> l = \<lparr>cl_flag = f, cl_callback = c\<rparr>" for l m''
    by (auto simp: newListener_def LDStrDup_def cmd_Val_iffs)
  ultimately show ?thesis
    using assms
    by (auto simp: LDi_listenerAdd_def cbind_def ctry_def listener_add_ok_eq Let_def cret_def
        LL_SEARCH_None dest: LL_SEARCH_Some no_faultD split: result.splits prod.splits option.splits)
      (metis fst_conv no_faultD)+
qed

section \<open>Properties\<close>

text \<open>C38. With memory available, registering a listener adds exactly that pair: afterwards a change
  of its flag calls it, once, besides those that were called before, other flags are not
  affected, and unregistering it again removes exactly its calls.\<close>

theorem listener_dispatch_exact:
  assumes "distinct ls"
  shows "\<exists>ls'. LDi_listenerAdd ls f c [] = (Val (True, ls'), []) \<and> distinct ls' \<and>
    (\<forall>g b. distinct (LDi_listenersDispatch ls' g b) \<and>
       set (LDi_listenersDispatch ls' g b) =
         set (LDi_listenersDispatch ls g b) \<union> (if g = f then {(c, f, b)} else {}) \<and>
       set (LDi_listenersDispatch (LDi_listenerRemove ls' f c) g b) =
         set (LDi_listenersDispatch ls g b) - (if g = f then {(c, f, b)} else {}))"
proof -
  let ?ls = "listener_add_ok ls f c"
  have "LDi_listenerAdd ls f c [] = (Val (True, ?ls), [])"
    by (auto simp: listener_add_ok_def LDi_listenerAdd_def newListener_def cmd_simps Let_def
        split: option.splits)
  moreover note d = ldlisteners.invar_add[OF assms, of f c]
  moreover have "set (LDi_listenersDispatch ?ls g b) =
      set (LDi_listenersDispatch ls g b) \<union> (if g = f then {(c, f, b)} else {})" for g b
    by (auto simp: ldlisteners.dispatch_set[OF d] ldlisteners.dispatch_set[OF assms]
        ldlisteners.registered_add[OF assms])
  moreover have "set (LDi_listenersDispatch (LDi_listenerRemove ?ls f c) g b) =
      set (LDi_listenersDispatch ls g b) - (if g = f then {(c, f, b)} else {})" for g b
    by (auto simp: ldlisteners.dispatch_set[OF ldlisteners.invar_remove[OF d]]
        ldlisteners.dispatch_set[OF assms] ldlisteners.registered_remove[OF d]
        ldlisteners.registered_add[OF assms])
  ultimately show ?thesis using ldlisteners.dispatch_distinct[OF d] by blast
qed

theorem listener_dispatch_exact_witness:
  "\<exists>ls'. LDi_listenerAdd [\<lparr>cl_flag = ''a'', cl_callback = 1\<rparr>] ''a'' 2 [] = (Val (True, ls'), []) \<and>
     set (LDi_listenersDispatch ls' ''a'' False) = {(1, ''a'', False), (2, ''a'', False)}"
  using listener_dispatch_exact[of "[\<lparr>cl_flag = ''a'', cl_callback = 1\<rparr>]" "''a''" 2] by fastforce

end
