(* ===== verification/Store.thy ===== *)
theory Store
  imports Flag Listener "HOL-Library.Multiset"
begin

text \<open>
  The flag store (\<open>src/store.c\<close>) with its reference counted nodes (\<open>src/reference_count.c\<close>).
  Nodes live in an explicit heap, so that a freed node is an address without a node and every
  access through it is a fault. A \<open>uthash\<close> table is the list of its elements in insertion
  order, which is the order \<open>HASH_ITER\<close> visits; \<open>HASH_FIND_STR\<close> finds the element added last
  among those with the key (the head of its bucket). Each operation holds the store lock for
  its whole body and is one step of the model; the lock operations themselves succeed
  (the shipped build aborts when they fail). Calls of listeners are logged.
\<close>

section \<open>State\<close>

type_synonym addr = nat

record LDStoreNode =
  node_flag :: LDFlag
  node_rc :: u32

record LDStore =
  store_flags :: "addr list"
  store_listeners :: "ChangeListener list"
  store_initialized :: bool

record world =
  w_heap :: "addr \<Rightarrow> LDStoreNode option"
  w_next :: addr
  w_store :: LDStore
  w_calls :: "call list"

abbreviation flags_of :: "world \<Rightarrow> addr list" where
  "flags_of w \<equiv> store_flags (w_store w)"

definition set_flags :: "addr list \<Rightarrow> world \<Rightarrow> world" where
  "set_flags flags w = w\<lparr>w_store := (w_store w)\<lparr>store_flags := flags\<rparr>\<rparr>"

text \<open>Reading a node; a freed or never allocated address is undefined behaviour.\<close>

definition load_node :: "world \<Rightarrow> addr \<Rightarrow> LDStoreNode cmd" where
  "load_node w a = (case w_heap w a of None \<Rightarrow> cfault Undefined | Some n \<Rightarrow> cret n)"

definition put_node :: "addr \<Rightarrow> LDStoreNode option \<Rightarrow> world \<Rightarrow> world" where
  "put_node a n w = w\<lparr>w_heap := (w_heap w)(a := n)\<rparr>"

text \<open>A world in which nothing has been allocated.\<close>

definition empty_world :: world where
  "empty_world =
     \<lparr>w_heap = (\<lambda>_. None), w_next = 0,
      w_store = \<lparr>store_flags = [], store_listeners = [], store_initialized = False\<rparr>,
      w_calls = []\<rparr>"

section \<open>Reference counts\<close>

definition LDi_destroyStoreNode :: "addr \<Rightarrow> world \<Rightarrow> world cmd" where
  "LDi_destroyStoreNode node w = cbind (load_node w node) (\<lambda>_. cret (put_node node None w))"

text \<open>A new count is 1: the reference of the table.\<close>

definition LDi_rc_initialize :: u32 where
  "LDi_rc_initialize = 1"

definition LDi_rc_increment :: "addr \<Rightarrow> world \<Rightarrow> world cmd" where
  "LDi_rc_increment a w =
     cbind (load_node w a) (\<lambda>n. cret (put_node a (Some (n\<lparr>node_rc := node_rc n + 1\<rparr>)) w))"

definition LDi_rc_decrement :: "addr \<Rightarrow> world \<Rightarrow> world cmd" where
  "LDi_rc_decrement a w =
     cbind (load_node w a) (\<lambda>n.
       let count = node_rc n - 1; w' = put_node a (Some (n\<lparr>node_rc := count\<rparr>)) w
       in if count = 0 then LDi_destroyStoreNode a w' else cret w')"

section \<open>The table\<close>

definition has_key :: "world \<Rightarrow> string \<Rightarrow> addr \<Rightarrow> bool" where
  "has_key w key a =
     (case w_heap w a of None \<Rightarrow> False | Some n \<Rightarrow> flag_key (node_flag n) = key)"

definition HASH_FIND_STR :: "addr list \<Rightarrow> string \<Rightarrow> world \<Rightarrow> addr option cmd" where
  "HASH_FIND_STR flags key w =
     (if list_all (\<lambda>a. w_heap w a \<noteq> None) flags then cret (find (has_key w key) (rev flags))
      else cfault Undefined)"

definition HASH_ADD_KEYPTR :: "addr list \<Rightarrow> addr \<Rightarrow> addr list" where
  "HASH_ADD_KEYPTR flags a = flags @ [a]"

definition HASH_DEL :: "addr list \<Rightarrow> addr \<Rightarrow> addr list" where
  "HASH_DEL flags a = remove1 a flags"

text \<open>\<open>LDi_storeFreeHash\<close> destroys every node of a table, whatever its reference count.\<close>

fun LDi_storeFreeHash :: "addr list \<Rightarrow> world \<Rightarrow> world cmd" where
  "LDi_storeFreeHash [] w = cret w"
| "LDi_storeFreeHash (node # rest) w =
     cbind (LDi_destroyStoreNode node w) (\<lambda>w'. LDi_storeFreeHash rest w')"

definition LDi_storeFreeFlags :: "world \<Rightarrow> world cmd" where
  "LDi_storeFreeFlags w =
     cbind (LDi_storeFreeHash (flags_of w) w) (\<lambda>w'. cret (set_flags [] w'))"

definition LDi_storeInitialize :: "world \<Rightarrow> bool \<times> world" where
  "LDi_storeInitialize w =
     (True, w\<lparr>w_store := \<lparr>store_flags = [], store_listeners = LDi_initListeners,
                         store_initialized = False\<rparr>\<rparr>)"

definition LDi_storeDestroy :: "world \<Rightarrow> world cmd" where
  "LDi_storeDestroy w =
     cbind (LDi_storeFreeHash (flags_of w) w) (\<lambda>w'.
       cret (w'\<lparr>w_store := (w_store w')
         \<lparr>store_listeners := LDi_freeListeners (store_listeners (w_store w'))\<rparr>\<rparr>))"

definition LDi_allocateStoreNode :: "LDFlag \<Rightarrow> world \<Rightarrow> (addr \<times> world) cmd" where
  "LDi_allocateStoreNode flag w =
     cbind LDAlloc (\<lambda>_.
       cret (w_next w,
         (put_node (w_next w) (Some \<lparr>node_flag = flag, node_rc = LDi_rc_initialize\<rparr>) w)
           \<lparr>w_next := w_next w + 1\<rparr>))"

definition LDi_fireListenersFor :: "string \<Rightarrow> bool \<Rightarrow> world \<Rightarrow> world" where
  "LDi_fireListenersFor key deleted w =
     w\<lparr>w_calls := w_calls w @ LDi_listenersDispatch (store_listeners (w_store w)) key deleted\<rparr>"

section \<open>Updating\<close>

datatype versionStatus = VERSION_NEW | VERSION_INCREASED | VERSION_STALE

definition versionStatus :: "LDStoreNode option \<Rightarrow> int \<Rightarrow> versionStatus" where
  "versionStatus existingFlag incomingVersion =
     (case existingFlag of
        None \<Rightarrow> VERSION_NEW
      | Some n \<Rightarrow>
          (if incomingVersion > flag_version (node_flag n) then VERSION_INCREASED
           else VERSION_STALE))"

text \<open>The body of \<open>LDi_storeUpsert\<close> once the replacement is allocated and the old node looked up.\<close>

definition store_upsert_switch ::
  "addr option \<Rightarrow> addr \<Rightarrow> LDFlag \<Rightarrow> world \<Rightarrow> (bool \<times> world) cmd" where
  "store_upsert_switch existing replacement flag w =
     (case versionStatus (Option.bind existing (w_heap w)) (flag_version flag) of
        VERSION_NEW \<Rightarrow>
          cret (True, LDi_fireListenersFor (flag_key flag) (flag_deleted flag)
            (set_flags (HASH_ADD_KEYPTR (flags_of w) replacement) w))
      | VERSION_INCREASED \<Rightarrow>
          cbind (LDi_rc_decrement (the existing)
                   (set_flags (HASH_DEL (flags_of w) (the existing)) w)) (\<lambda>w.
          cret (True, LDi_fireListenersFor (flag_key flag) (flag_deleted flag)
            (set_flags (HASH_ADD_KEYPTR (flags_of w) replacement) w)))
      | VERSION_STALE \<Rightarrow>
          cbind (LDi_destroyStoreNode replacement w) (\<lambda>w. cret (True, w)))"

definition LDi_storeUpsert :: "world \<Rightarrow> LDFlag \<Rightarrow> (bool \<times> world) cmd" where
  "LDi_storeUpsert w flag =
     cbind (ctry (LDi_allocateStoreNode flag w)) (\<lambda>r.
       case r of
         None \<Rightarrow> cret (False, w)
       | Some (replacement, w) \<Rightarrow>
           cbind (HASH_FIND_STR (flags_of w) (flag_key flag) w) (\<lambda>existing.
             store_upsert_switch existing replacement flag w))"

text \<open>
  \<open>LDi_storeDelete\<close> upserts a tombstone. Its \<open>flagVersion\<close> is the one field the code leaves
  uninitialized: \<open>garbage\<close> is whatever the stack held. The unsigned version becomes an \<open>int\<close>.
\<close>

definition LDi_storeDelete :: "int \<Rightarrow> world \<Rightarrow> string \<Rightarrow> u32 \<Rightarrow> (bool \<times> world) cmd" where
  "LDi_storeDelete garbage w key version =
     cbind (ctry (LDStrDup key)) (\<lambda>k.
       case k of
         None \<Rightarrow> cret (False, w)
       | Some k \<Rightarrow>
           LDi_storeUpsert w
             \<lparr>flag_key = k, flag_value = None, flag_version = sint version,
              flag_flagVersion = garbage, flag_variation = 0, flag_trackEvents = False,
              flag_trackReason = False, flag_reason = None, flag_debugEventsUntilDate = 0,
              flag_deleted = True\<rparr>)"

text \<open>The loop of \<open>LDi_storePut\<close>: after a failed allocation the remaining flags are destroyed.\<close>

fun store_put_loop ::
  "LDFlag list \<Rightarrow> bool \<Rightarrow> addr list \<Rightarrow> world \<Rightarrow> (bool \<times> addr list \<times> world) cmd" where
  "store_put_loop [] failed flagsHash w = cret (failed, flagsHash, w)"
| "store_put_loop (flag # rest) failed flagsHash w =
     (if failed then store_put_loop rest failed flagsHash w
      else
        cbind (ctry (LDi_allocateStoreNode flag w)) (\<lambda>r.
          case r of
            None \<Rightarrow> store_put_loop rest True flagsHash w
          | Some (node, w) \<Rightarrow> store_put_loop rest False (HASH_ADD_KEYPTR flagsHash node) w))"

fun fire_all :: "addr list \<Rightarrow> world \<Rightarrow> world cmd" where
  "fire_all [] w = cret w"
| "fire_all (node # rest) w =
     cbind (load_node w node) (\<lambda>n.
       fire_all rest (LDi_fireListenersFor (flag_key (node_flag n)) False w))"

definition LDi_storePut :: "world \<Rightarrow> LDFlag list \<Rightarrow> (bool \<times> world) cmd" where
  "LDi_storePut w flags =
     cbind (store_put_loop flags False [] w) (\<lambda>(failed, flagsHash, w).
       if failed then cbind (LDi_storeFreeHash flagsHash w) (\<lambda>w. cret (False, w))
       else
         let oldHash = flags_of w;
             w = w\<lparr>w_store := (w_store w)\<lparr>store_flags := flagsHash, store_initialized := True\<rparr>\<rparr>
         in cbind (fire_all (flags_of w) w) (\<lambda>w.
            cbind (LDi_storeFreeHash oldHash w) (\<lambda>w. cret (True, w))))"

section \<open>Reading\<close>

definition LDi_storeGet :: "world \<Rightarrow> string \<Rightarrow> (addr option \<times> world) cmd" where
  "LDi_storeGet w key =
     cbind (HASH_FIND_STR (flags_of w) key w) (\<lambda>lookup.
       case lookup of
         None \<Rightarrow> cret (None, w)
       | Some a \<Rightarrow>
           cbind (load_node w a) (\<lambda>n.
             if \<not> flag_deleted (node_flag n)
             then cbind (LDi_rc_increment a w) (\<lambda>w. cret (Some a, w))
             else cret (None, w)))"

fun increment_all :: "addr list \<Rightarrow> world \<Rightarrow> world cmd" where
  "increment_all [] w = cret w"
| "increment_all (node # rest) w = cbind (LDi_rc_increment node w) (\<lambda>w. increment_all rest w)"

definition LDi_storeGetAll :: "world \<Rightarrow> (addr list \<times> world) cmd" where
  "LDi_storeGetAll w =
     (if flags_of w = [] then cret ([], w)
      else cbind LDAlloc (\<lambda>_.
           cbind (increment_all (flags_of w) w) (\<lambda>w'. cret (flags_of w, w'))))"

fun store_json_loop :: "addr list \<Rightarrow> world \<Rightarrow> json \<Rightarrow> json cmd" where
  "store_json_loop [] w result = cret result"
| "store_json_loop (node # rest) w result =
     cbind (load_node w node) (\<lambda>n.
       if flag_deleted (node_flag n) then store_json_loop rest w result
       else cbind (json_set_new result (flag_key (node_flag n)) (LDi_flag_to_json (node_flag n)))
              (\<lambda>result. store_json_loop rest w result))"

definition LDi_storeGetJSON :: "world \<Rightarrow> json cmd" where
  "LDi_storeGetJSON w = cbind LDNewObject (\<lambda>result. store_json_loop (flags_of w) w result)"

section \<open>Listeners\<close>

definition LDi_storeRegisterListener ::
  "world \<Rightarrow> string \<Rightarrow> callback \<Rightarrow> (bool \<times> world) cmd" where
  "LDi_storeRegisterListener w flagKey op =
     cbind (LDi_listenerAdd (store_listeners (w_store w)) flagKey op) (\<lambda>(status, ls).
       cret (status, w\<lparr>w_store := (w_store w)\<lparr>store_listeners := ls\<rparr>\<rparr>))"

definition LDi_storeUnregisterListener :: "world \<Rightarrow> string \<Rightarrow> callback \<Rightarrow> world" where
  "LDi_storeUnregisterListener w flagKey op =
     w\<lparr>w_store := (w_store w)
        \<lparr>store_listeners := LDi_listenerRemove (store_listeners (w_store w)) flagKey op\<rparr>\<rparr>"

section \<open>The abstract store\<close>

text \<open>
  What the store promises: a map from keys to flags in which a flag is replaced only by one
  with a greater version, and a deleted flag stays as a tombstone that a read does not see.
\<close>

type_synonym flag_map = "string \<Rightarrow> LDFlag option"

definition spec_accepts :: "flag_map \<Rightarrow> LDFlag \<Rightarrow> bool" where
  "spec_accepts s flag =
     (case s (flag_key flag) of
        None \<Rightarrow> True
      | Some old \<Rightarrow> flag_version flag > flag_version old)"

definition spec_upsert :: "flag_map \<Rightarrow> LDFlag \<Rightarrow> flag_map" where
  "spec_upsert s flag = (if spec_accepts s flag then s(flag_key flag \<mapsto> flag) else s)"

definition spec_get :: "flag_map \<Rightarrow> string \<Rightarrow> LDFlag option" where
  "spec_get s key =
     (case s key of None \<Rightarrow> None | Some f \<Rightarrow> if flag_deleted f then None else Some f)"

definition abs_store :: "world \<Rightarrow> flag_map" where
  "abs_store w key =
     Option.bind (find (has_key w key) (rev (flags_of w))) (\<lambda>a. map_option node_flag (w_heap w a))"

text \<open>
  The invariant, relative to the references handed out and not yet given back: the table's
  nodes are allocated and have distinct keys; each node is counted once for the table and
  once for each reference; no node is allocated without being counted.
\<close>

definition store_inv :: "addr multiset \<Rightarrow> world \<Rightarrow> bool" where
  "store_inv held w \<longleftrightarrow>
     distinct (flags_of w) \<and>
     (\<forall>a \<in> set (flags_of w). w_heap w a \<noteq> None) \<and>
     (\<forall>a \<in> set (flags_of w). \<forall>b \<in> set (flags_of w). \<forall>na nb.
        w_heap w a = Some na \<and> w_heap w b = Some nb \<and>
        flag_key (node_flag na) = flag_key (node_flag nb) \<longrightarrow> a = b) \<and>
     (\<forall>a n. w_heap w a = Some n \<longrightarrow>
        a < w_next w \<and> node_rc n \<noteq> 0 \<and>
        unat (node_rc n) = (if a \<in> set (flags_of w) then 1 else 0) + count held a) \<and>
     (\<forall>a. a \<in># held \<longrightarrow> w_heap w a \<noteq> None) \<and>
     distinct (store_listeners (w_store w))"

section \<open>Lemmas\<close>

lemma world_upd_simps [simp]:
  "w_heap (set_flags fs w) = w_heap w"
  "w_next (set_flags fs w) = w_next w"
  "flags_of (set_flags fs w) = fs"
  "store_listeners (w_store (set_flags fs w)) = store_listeners (w_store w)"
  "w_heap (put_node a n w) = (w_heap w)(a := n)"
  "w_next (put_node a n w) = w_next w"
  "w_store (put_node a n w) = w_store w"
  "w_calls (put_node a n w) = w_calls w"
  "w_calls (set_flags fs w) = w_calls w"
  "w_heap (LDi_fireListenersFor k d w) = w_heap w"
  "w_next (LDi_fireListenersFor k d w) = w_next w"
  "w_store (LDi_fireListenersFor k d w) = w_store w"
  "w_calls (LDi_fireListenersFor k d w) =
     w_calls w @ LDi_listenersDispatch (store_listeners (w_store w)) k d"
  by (simp_all add: set_flags_def put_node_def LDi_fireListenersFor_def)

lemma put_node_twice [simp]: "put_node a r (put_node a r' w) = put_node a r w"
  by (simp add: put_node_def)

lemma store_inv_fire [simp]: "store_inv held (LDi_fireListenersFor k d w) = store_inv held w"
  by (simp add: store_inv_def)

lemma abs_store_fire [simp]: "abs_store (LDi_fireListenersFor k d w) = abs_store w"
  by (simp add: abs_store_def has_key_def[abs_def] fun_eq_iff)

lemma store_inv_heap: "store_inv held w \<Longrightarrow> a \<in> set (flags_of w) \<Longrightarrow> \<exists>n. w_heap w a = Some n"
  by (auto simp: store_inv_def)

lemma store_inv_held: "store_inv held w \<Longrightarrow> a \<in># held \<Longrightarrow> \<exists>n. w_heap w a = Some n"
  by (auto simp: store_inv_def)

lemma store_inv_fresh: "store_inv held w \<Longrightarrow> w_heap w (w_next w) = None"
  unfolding store_inv_def by (metis less_irrefl option.exhaust)

lemma find_has_key:
  assumes "store_inv held w"
  shows "find (has_key w key) (rev (flags_of w)) = Some a \<longleftrightarrow>
    a \<in> set (flags_of w) \<and> (\<exists>n. w_heap w a = Some n \<and> flag_key (node_flag n) = key)"
    (is "?l \<longleftrightarrow> ?r")
proof
  assume ?l
  then have "a \<in> set (rev (flags_of w))" "has_key w key a"
    by (auto dest: find_SomeD)
  then show ?r by (auto simp: has_key_def split: option.splits)
next
  assume ?r
  then have "has_key w key a" "a \<in> set (rev (flags_of w))" by (auto simp: has_key_def)
  then obtain b where b: "find (has_key w key) (rev (flags_of w)) = Some b"
    by (metis find_None_iff not_None_eq)
  then have "b \<in> set (flags_of w)" "has_key w key b"
    by (auto dest: find_SomeD)
  with \<open>?r\<close> assms have "b = a"
    by (auto simp: store_inv_def has_key_def split: option.splits)
  with b show ?l by simp
qed

lemma find_has_key_None:
  assumes "store_inv held w"
  shows "find (has_key w key) (rev (flags_of w)) = None \<longleftrightarrow>
    (\<forall>a \<in> set (flags_of w). \<forall>n. w_heap w a = Some n \<longrightarrow> flag_key (node_flag n) \<noteq> key)"
  by (auto simp: find_None_iff has_key_def split: option.splits)

lemma abs_store_Some:
  assumes "store_inv held w"
  shows "abs_store w key = Some f \<longleftrightarrow>
    (\<exists>a \<in> set (flags_of w). \<exists>n. w_heap w a = Some n \<and> node_flag n = f \<and> flag_key f = key)"
  by (fastforce simp: abs_store_def bind_eq_Some_conv find_has_key[OF assms])

text \<open>Two states whose tables hold the same flags agree on every lookup.\<close>

lemma abs_store_cong:
  assumes "store_inv held w" and "store_inv held' w'" and "set (flags_of w') = set (flags_of w)"
    and "\<And>a. a \<in> set (flags_of w) \<Longrightarrow>
      map_option node_flag (w_heap w' a) = map_option node_flag (w_heap w a)"
  shows "abs_store w' = abs_store w"
proof (rule ext, rule option_eqI)
  fix k f
  have "(\<exists>a \<in> set (flags_of w). map_option node_flag (w_heap w' a) = Some f) \<longleftrightarrow>
      (\<exists>a \<in> set (flags_of w). map_option node_flag (w_heap w a) = Some f)"
    using assms(4) by auto
  then show "abs_store w' k = Some f \<longleftrightarrow> abs_store w k = Some f"
    by (auto simp: abs_store_Some[OF assms(1)] abs_store_Some[OF assms(2)] assms(3))
qed

lemma store_inv_count:
  "store_inv held w \<Longrightarrow> w_heap w a = Some n \<Longrightarrow>
   a < w_next w \<and> node_rc n \<noteq> 0 \<and>
   unat (node_rc n) = (if a \<in> set (flags_of w) then 1 else 0) + count held a"
  by (simp add: store_inv_def)

lemma store_inv_keys:
  "store_inv held w \<Longrightarrow> a \<in> set (flags_of w) \<Longrightarrow> b \<in> set (flags_of w) \<Longrightarrow>
   w_heap w a = Some na \<Longrightarrow> w_heap w b = Some nb \<Longrightarrow>
   flag_key (node_flag na) = flag_key (node_flag nb) \<Longrightarrow> a = b"
  by (simp add: store_inv_def)

lemma store_invI:
  assumes "distinct (flags_of w)" and "distinct (store_listeners (w_store w))"
    and "\<And>a. a \<in> set (flags_of w) \<Longrightarrow> w_heap w a \<noteq> None"
    and "\<And>a b na nb. a \<in> set (flags_of w) \<Longrightarrow> b \<in> set (flags_of w) \<Longrightarrow> w_heap w a = Some na \<Longrightarrow>
      w_heap w b = Some nb \<Longrightarrow> flag_key (node_flag na) = flag_key (node_flag nb) \<Longrightarrow> a = b"
    and "\<And>a n. w_heap w a = Some n \<Longrightarrow> a < w_next w \<and> node_rc n \<noteq> 0 \<and>
      unat (node_rc n) = (if a \<in> set (flags_of w) then 1 else 0) + count held a"
    and "\<And>a. a \<in># held \<Longrightarrow> w_heap w a \<noteq> None"
  shows "store_inv held w"
  using assms unfolding store_inv_def by blast

lemma store_inv_distinct:
  "store_inv held w \<Longrightarrow> distinct (flags_of w) \<and> distinct (store_listeners (w_store w))"
  by (simp add: store_inv_def)

lemma abs_store_key: "store_inv held w \<Longrightarrow> abs_store w key = Some f \<Longrightarrow> flag_key f = key"
  by (auto simp: abs_store_Some)

lemma HASH_FIND_STR_inv:
  assumes "store_inv held w"
  shows "HASH_FIND_STR (flags_of w) key w m =
    (Val (find (has_key w key) (rev (flags_of w))), m)"
  using assms by (auto simp: HASH_FIND_STR_def list_all_iff store_inv_def cret_def)

subsection \<open>Moving references\<close>

text \<open>
  The proofs about operations are made of four moves of one reference: allocating a node hands
  out a reference, adding it to the table gives that reference to the table, removing a node
  from the table takes the table's reference back, and incrementing or decrementing a count
  hands out or gives back a reference.
\<close>

definition alloc_world :: "LDFlag \<Rightarrow> world \<Rightarrow> world" where
  "alloc_world flag w =
     (put_node (w_next w) (Some \<lparr>node_flag = flag, node_rc = LDi_rc_initialize\<rparr>) w)
       \<lparr>w_next := w_next w + 1\<rparr>"

lemma alloc_world_simps [simp]:
  "w_heap (alloc_world flag w) =
     (w_heap w)(w_next w \<mapsto> \<lparr>node_flag = flag, node_rc = LDi_rc_initialize\<rparr>)"
  "w_next (alloc_world flag w) = Suc (w_next w)"
  "w_store (alloc_world flag w) = w_store w"
  "w_calls (alloc_world flag w) = w_calls w"
  by (simp_all add: alloc_world_def)

lemma allocateStoreNode_cases:
  "ctry (LDi_allocateStoreNode flag w) m \<in>
     {(Val None, tl m), (Val (Some (w_next w, alloc_world flag w)), tl m)}"
  by (cases m rule: LDAlloc.cases)
    (auto simp: LDi_allocateStoreNode_def alloc_world_def cmd_simps)

lemma allocateStoreNode_ok [alloc_ok]:
  "LDi_allocateStoreNode flag w [] = (Val (w_next w, alloc_world flag w), [])"
  by (simp add: LDi_allocateStoreNode_def alloc_world_def cmd_simps)

lemma store_inv_not_next: "store_inv held w \<Longrightarrow> w_next w \<notin> set (flags_of w) \<and> w_next w \<notin># held"
  using store_inv_fresh[of held w] by (auto simp: store_inv_def)

lemma store_inv_alloc:
  assumes "store_inv held w"
  shows "store_inv (add_mset (w_next w) held) (alloc_world flag w)"
    and "abs_store (alloc_world flag w) = abs_store w"
proof -
  note nx = store_inv_not_next[OF assms]
  show inv: "store_inv (add_mset (w_next w) held) (alloc_world flag w)"
    using assms nx unfolding store_inv_def
    by (auto simp: LDi_rc_initialize_def not_in_iff less_Suc_eq)
  show "abs_store (alloc_world flag w) = abs_store w"
    by (rule abs_store_cong[OF assms inv]) (use nx in auto)
qed

lemma store_inv_link:
  assumes inv: "store_inv (add_mset a held) w" and a: "a \<notin> set (flags_of w)"
    and n: "w_heap w a = Some n" and key: "abs_store w (flag_key (node_flag n)) = None"
  shows "store_inv held (set_flags (flags_of w @ [a]) w)"
    and "abs_store (set_flags (flags_of w @ [a]) w) = (abs_store w)(flag_key (node_flag n) \<mapsto> node_flag n)"
proof -
  have new: "flag_key (node_flag nb) \<noteq> flag_key (node_flag n)"
    if "b \<in> set (flags_of w)" "w_heap w b = Some nb" for b nb
    using abs_store_Some[OF inv, of "flag_key (node_flag n)" "node_flag nb"] key that by auto
  show inv': "store_inv held (set_flags (flags_of w @ [a]) w)"
  proof (rule store_invI)
    fix b c nb nc
    assume "b \<in> set (flags_of (set_flags (flags_of w @ [a]) w))"
      "c \<in> set (flags_of (set_flags (flags_of w @ [a]) w))"
      "w_heap (set_flags (flags_of w @ [a]) w) b = Some nb"
      "w_heap (set_flags (flags_of w @ [a]) w) c = Some nc"
      "flag_key (node_flag nb) = flag_key (node_flag nc)"
    then show "b = c"
      using n new store_inv_keys[OF inv, of b c nb nc] by auto (metis option.inject)+
  next
    fix b nb
    assume "w_heap (set_flags (flags_of w @ [a]) w) b = Some nb"
    then show "b < w_next (set_flags (flags_of w @ [a]) w) \<and> node_rc nb \<noteq> 0 \<and>
        unat (node_rc nb) =
          (if b \<in> set (flags_of (set_flags (flags_of w @ [a]) w)) then 1 else 0) + count held b"
      using store_inv_count[OF inv, of b nb] a by (cases "b = a") auto
  qed (use inv a n store_inv_distinct[OF inv] store_inv_heap[OF inv] store_inv_held[OF inv] in auto)
  show "abs_store (set_flags (flags_of w @ [a]) w) =
      (abs_store w)(flag_key (node_flag n) \<mapsto> node_flag n)"
  proof (rule ext, rule option_eqI)
    fix k f
    show "abs_store (set_flags (flags_of w @ [a]) w) k = Some f \<longleftrightarrow>
        ((abs_store w)(flag_key (node_flag n) \<mapsto> node_flag n)) k = Some f"
      using n new by (auto simp: abs_store_Some[OF inv'] abs_store_Some[OF inv])
  qed
qed

lemma store_inv_unlink:
  assumes inv: "store_inv held w" and a: "a \<in> set (flags_of w)" and n: "w_heap w a = Some n"
  shows "store_inv (add_mset a held) (set_flags (remove1 a (flags_of w)) w)"
    and "abs_store (set_flags (remove1 a (flags_of w)) w) = (abs_store w)(flag_key (node_flag n) := None)"
proof -
  have set: "set (remove1 a (flags_of w)) = set (flags_of w) - {a}"
    using inv by (simp add: store_inv_def)
  have old: "w_heap w b = Some nb \<Longrightarrow> flag_key (node_flag nb) = flag_key (node_flag n) \<Longrightarrow> b = a"
    if "b \<in> set (flags_of w)" for b nb
    using inv a n that by (auto simp: store_inv_def)
  show inv': "store_inv (add_mset a held) (set_flags (remove1 a (flags_of w)) w)"
    using inv a n unfolding store_inv_def by (auto simp: set distinct_remove1)
  show "abs_store (set_flags (remove1 a (flags_of w)) w) =
      (abs_store w)(flag_key (node_flag n) := None)"
  proof (rule ext, rule option_eqI)
    fix k f
    show "abs_store (set_flags (remove1 a (flags_of w)) w) k = Some f \<longleftrightarrow>
        ((abs_store w)(flag_key (node_flag n) := None)) k = Some f"
      using n old by (auto simp: abs_store_Some[OF inv'] abs_store_Some[OF inv] set)
  qed
qed

text \<open>Changing a count, or freeing a node outside the table, does not change the contents.\<close>

lemma abs_store_put_node:
  assumes inv: "store_inv held w" and inv': "store_inv held' (put_node a r w)"
    and n: "w_heap w a = Some n"
    and r: "a \<in> set (flags_of w) \<Longrightarrow> \<exists>n'. r = Some n' \<and> node_flag n' = node_flag n"
  shows "abs_store (put_node a r w) = abs_store w"
  by (rule abs_store_cong[OF inv inv']) (use n r in auto)

lemma store_inv_increment:
  assumes inv: "store_inv held w" and n: "w_heap w a = Some n" and sz: "size held < 4294967294"
  shows "\<exists>w'. LDi_rc_increment a w m = (Val w', m) \<and> store_inv (add_mset a held) w' \<and>
    abs_store w' = abs_store w \<and> w_store w' = w_store w \<and> w_calls w' = w_calls w \<and>
    (\<forall>b. map_option node_flag (w_heap w' b) = map_option node_flag (w_heap w b))"
proof -
  have "count held a \<le> size held" by (rule count_le_size)
  moreover have "unat (node_rc n) \<le> 1 + count held a"
    using inv n by (auto simp: store_inv_def)
  ultimately have "unat (node_rc n) + 1 < 2 ^ LENGTH(32)" using sz by simp
  then have inc: "unat (node_rc n + 1) = unat (node_rc n) + 1"
    by (simp add: unat_add_lem[THEN iffD1])
  then have "node_rc n + 1 \<noteq> 0" by (metis Suc_eq_plus1 nat.simps(3) unat_0)
  with inc inv n have inv': "store_inv (add_mset a held) (put_node a (Some (n\<lparr>node_rc := node_rc n + 1\<rparr>)) w)"
    unfolding store_inv_def by (auto split: if_splits)
  moreover have "abs_store (put_node a (Some (n\<lparr>node_rc := node_rc n + 1\<rparr>)) w) = abs_store w"
    using abs_store_put_node[OF inv inv' n] by simp
  ultimately show ?thesis
    using n by (simp add: LDi_rc_increment_def load_node_def cbind_def cret_def)
qed

lemma store_inv_decrement:
  assumes inv: "store_inv (add_mset a held) w"
  shows "\<exists>w'. LDi_rc_decrement a w m = (Val w', m) \<and> store_inv held w' \<and>
    abs_store w' = abs_store w \<and> flags_of w' = flags_of w \<and> w_calls w' = w_calls w \<and>
    w_store w' = w_store w \<and> w_next w' = w_next w \<and> (\<forall>b. b \<noteq> a \<longrightarrow> w_heap w' b = w_heap w b)"
proof -
  obtain n where n: "w_heap w a = Some n" using store_inv_held[OF inv, of a] by auto
  have rc: "unat (node_rc n) = (if a \<in> set (flags_of w) then 1 else 0) + count held a + 1"
    using inv n by (auto simp: store_inv_def)
  then have dec: "unat (node_rc n - 1) = (if a \<in> set (flags_of w) then 1 else 0) + count held a"
    using unat_minus_one[of "node_rc n"] store_inv_count[OF inv n] by auto
  let ?w = "put_node a (Some (n\<lparr>node_rc := node_rc n - 1\<rparr>)) w"
  show ?thesis
  proof (cases "node_rc n - 1 = 0")
    case True
    with dec have free: "a \<notin> set (flags_of w)" "a \<notin># held"
      by (auto simp: not_in_iff split: if_splits)
    with inv n have inv': "store_inv held (put_node a None w)"
      unfolding store_inv_def by (auto split: if_splits)
    moreover have "abs_store (put_node a None w) = abs_store w"
      using abs_store_put_node[OF inv inv' n] free by simp
    ultimately show ?thesis
      using True n
      by (simp add: LDi_rc_decrement_def LDi_destroyStoreNode_def load_node_def cbind_def cret_def)
  next
    case False
    with dec inv n have inv': "store_inv held ?w"
      unfolding store_inv_def by (auto split: if_splits)
    moreover have "abs_store ?w = abs_store w"
      using abs_store_put_node[OF inv inv' n] by simp
    ultimately show ?thesis
      using False n by (simp add: LDi_rc_decrement_def load_node_def cbind_def cret_def Let_def)
  qed
qed

subsection \<open>Operations\<close>

text \<open>
  An upsert, whatever the allocator answers: it returns, keeps the invariant, and either fails
  and changes nothing or does what the abstract store does.
\<close>

lemma store_inv_drop_new:
  assumes inv: "store_inv (add_mset a held) w" and a: "a \<notin> set (flags_of w)" "a \<notin># held"
  shows "\<exists>n. w_heap w a = Some n \<and> store_inv held (put_node a None w) \<and>
    abs_store (put_node a None w) = abs_store w"
proof -
  obtain n where n: "w_heap w a = Some n" using store_inv_held[OF inv, of a] by auto
  have inv': "store_inv held (put_node a None w)"
    using inv a n unfolding store_inv_def by (auto split: if_splits)
  show ?thesis using n inv' abs_store_put_node[OF inv inv' n] a by simp
qed

lemma store_upsert_switch_refines:
  assumes inv: "store_inv (add_mset a held) w" and a: "a \<notin> set (flags_of w)" "a \<notin># held"
    and n: "w_heap w a = Some n" "node_flag n = flag"
  shows "\<exists>w'. store_upsert_switch (find (has_key w (flag_key flag)) (rev (flags_of w))) a flag w m =
       (Val (True, w'), m) \<and>
     store_inv held w' \<and> abs_store w' = spec_upsert (abs_store w) flag \<and>
     store_listeners (w_store w') = store_listeners (w_store w) \<and>
     w_calls w' = w_calls w @ (if spec_accepts (abs_store w) flag
       then LDi_listenersDispatch (store_listeners (w_store w)) (flag_key flag) (flag_deleted flag)
       else [])"
proof (cases "find (has_key w (flag_key flag)) (rev (flags_of w))")
  case None
  then have absent: "abs_store w (flag_key flag) = None" by (simp add: abs_store_def)
  show ?thesis
    using store_inv_link[OF inv a(1) n(1)] absent n None
    by (simp add: store_upsert_switch_def versionStatus_def HASH_ADD_KEYPTR_def cret_def
        spec_upsert_def spec_accepts_def)
next
  case (Some e)
  then obtain ne where e: "e \<in> set (flags_of w)" "w_heap w e = Some ne"
      "flag_key (node_flag ne) = flag_key flag"
    using find_has_key[OF inv] by blast
  then have old: "abs_store w (flag_key flag) = Some (node_flag ne)"
    using abs_store_Some[OF inv] by auto
  show ?thesis
  proof (cases "flag_version flag > flag_version (node_flag ne)")
    case True
    let ?w2 = "set_flags (remove1 e (flags_of w)) w"
    from a e have ne_a: "e \<noteq> a" by auto
    have inv2: "store_inv (add_mset e (add_mset a held)) ?w2"
      and abs2: "abs_store ?w2 = (abs_store w)(flag_key flag := None)"
      using store_inv_unlink[OF inv e(1,2)] e by simp_all
    obtain w3 where w3: "LDi_rc_decrement e ?w2 m = (Val w3, m)" "store_inv (add_mset a held) w3"
        "abs_store w3 = abs_store ?w2" "w_store w3 = w_store ?w2" "w_calls w3 = w_calls ?w2"
        "w_heap w3 a = w_heap ?w2 a"
      using store_inv_decrement[OF inv2] ne_a by metis
    have "a \<notin> set (flags_of w3)" using a by (simp add: w3)
    with w3 n abs2 have "store_inv held (set_flags (flags_of w3 @ [a]) w3)"
      "abs_store (set_flags (flags_of w3 @ [a]) w3) = (abs_store w3)(flag_key flag \<mapsto> flag)"
      using store_inv_link[of a held w3 n] by simp_all
    with True Some e old w3 abs2 show ?thesis
      by (simp add: store_upsert_switch_def versionStatus_def HASH_DEL_def HASH_ADD_KEYPTR_def
          cbind_def cret_def spec_upsert_def spec_accepts_def)
  next
    case False
    with Some e old store_inv_drop_new[OF inv a] show ?thesis
      by (auto simp: store_upsert_switch_def versionStatus_def LDi_destroyStoreNode_def
          load_node_def cbind_def cret_def spec_upsert_def spec_accepts_def)
  qed
qed

lemma LDi_storeUpsert_refines:
  assumes inv: "store_inv held w"
  shows "\<exists>b w' m'. LDi_storeUpsert w flag m = (Val (b, w'), m') \<and> store_inv held w' \<and>
    abs_store w' = (if b then spec_upsert (abs_store w) flag else abs_store w) \<and>
    store_listeners (w_store w') = store_listeners (w_store w) \<and>
    w_calls w' = w_calls w @ (if b \<and> spec_accepts (abs_store w) flag
      then LDi_listenersDispatch (store_listeners (w_store w)) (flag_key flag) (flag_deleted flag)
      else []) \<and>
    (m = [] \<longrightarrow> b \<and> m' = [])"
proof -
  consider "m \<noteq> []" "ctry (LDi_allocateStoreNode flag w) m = (Val None, tl m)"
    | "ctry (LDi_allocateStoreNode flag w) m = (Val (Some (w_next w, alloc_world flag w)), tl m)"
    using allocateStoreNode_cases[of flag w m] by (cases m) (auto simp: alloc_ok)
  then show ?thesis
  proof cases
    case 1
    with inv show ?thesis by (auto simp: LDi_storeUpsert_def cbind_def cret_def)
  next
    case 2
    let ?w = "alloc_world flag w"
    note inv1 = store_inv_alloc[OF inv, of flag]
    have "w_next w \<notin> set (flags_of ?w)" "w_next w \<notin># held"
      using store_inv_not_next[OF inv] by auto
    from store_upsert_switch_refines[OF inv1(1) this, of _ flag "tl m"]
    show ?thesis
      using 2 HASH_FIND_STR_inv[OF inv1(1), of "flag_key flag" "tl m"]
      by (auto simp: LDi_storeUpsert_def cbind_def inv1(2))
  qed
qed

lemma LDi_storeGet_refines:
  assumes inv: "store_inv held w" and sz: "size held < 4294967294"
  shows "\<exists>r w'. LDi_storeGet w key m = (Val (r, w'), m) \<and> abs_store w' = abs_store w \<and>
    w_store w' = w_store w \<and> w_calls w' = w_calls w \<and>
    (case r of
       None \<Rightarrow> w' = w \<and> spec_get (abs_store w) key = None
     | Some a \<Rightarrow> store_inv (add_mset a held) w' \<and>
         (\<exists>n. w_heap w' a = Some n \<and> spec_get (abs_store w) key = Some (node_flag n)))"
proof (cases "find (has_key w key) (rev (flags_of w))")
  case None
  then show ?thesis
    by (simp add: LDi_storeGet_def cbind_def HASH_FIND_STR_inv[OF inv] cret_def spec_get_def
        abs_store_def)
next
  case (Some a)
  then obtain n where n: "w_heap w a = Some n" using find_has_key[OF inv] by blast
  have look: "abs_store w key = Some (node_flag n)" using Some n by (simp add: abs_store_def)
  obtain w' where w': "LDi_rc_increment a w m = (Val w', m)" "store_inv (add_mset a held) w'"
      "abs_store w' = abs_store w" "w_store w' = w_store w" "w_calls w' = w_calls w"
      "\<forall>b. map_option node_flag (w_heap w' b) = map_option node_flag (w_heap w b)"
    using store_inv_increment[OF inv n sz, of m] by blast
  obtain n' where "w_heap w' a = Some n'" "node_flag n' = node_flag n"
    using w'(6)[THEN spec, of a] n by auto
  then show ?thesis
    using Some n w' look
    by (simp add: LDi_storeGet_def cbind_def HASH_FIND_STR_inv[OF inv] load_node_def cret_def
        spec_get_def)
qed

lemma increment_all_inv:
  assumes "store_inv held w" and "set xs \<subseteq> dom (w_heap w)"
    and "size held + length xs < 4294967295"
  shows "\<exists>w'. increment_all xs w m = (Val w', m) \<and> store_inv (held + mset xs) w' \<and>
    abs_store w' = abs_store w \<and> w_store w' = w_store w \<and> w_calls w' = w_calls w \<and>
    (\<forall>b. map_option node_flag (w_heap w' b) = map_option node_flag (w_heap w b))"
  using assms
proof (induction xs arbitrary: held w)
  case Nil
  then show ?case by (simp add: cret_def)
next
  case (Cons a xs)
  then obtain n where n: "w_heap w a = Some n" by auto
  have "size held < 4294967294" using Cons.prems by simp
  then obtain w1 where w1: "LDi_rc_increment a w m = (Val w1, m)"
      "store_inv (add_mset a held) w1" "abs_store w1 = abs_store w" "w_store w1 = w_store w"
      "w_calls w1 = w_calls w"
      "\<forall>b. map_option node_flag (w_heap w1 b) = map_option node_flag (w_heap w b)"
    using store_inv_increment[OF Cons.prems(1) n, of m] by blast
  have "set xs \<subseteq> dom (w_heap w1)"
  proof
    fix b assume "b \<in> set xs"
    then have "w_heap w b \<noteq> None" using Cons.prems(2) by auto
    then show "b \<in> dom (w_heap w1)" using w1(6)[THEN spec, of b] by auto
  qed
  from Cons.IH[OF w1(2) this] Cons.prems(3) w1 show ?case
    by (auto simp: cbind_def)
qed

lemma LDi_storeGetAll_refines:
  assumes inv: "store_inv held w" and sz: "size held + length (flags_of w) < 4294967295"
  shows "\<exists>r m'. LDi_storeGetAll w m = (r, m') \<and>
    (r = Null \<or> (\<exists>w'. r = Val (flags_of w, w') \<and> store_inv (held + mset (flags_of w)) w' \<and>
       abs_store w' = abs_store w \<and> w_store w' = w_store w)) \<and>
    (m = [] \<longrightarrow> r \<noteq> Null)"
proof (cases "flags_of w = []")
  case True
  then show ?thesis using inv by (auto simp: LDi_storeGetAll_def cret_def)
next
  case False
  have "set (flags_of w) \<subseteq> dom (w_heap w)" using store_inv_heap[OF inv] by auto
  then obtain w' where "increment_all (flags_of w) w (tl m) = (Val w', tl m)"
      "store_inv (held + mset (flags_of w)) w'" "abs_store w' = abs_store w" "w_store w' = w_store w"
    using increment_all_inv[OF inv _ sz] by metis
  with False LDAlloc_split[of m] show ?thesis
    by (auto simp: LDi_storeGetAll_def cbind_def cret_def)
qed

lemma LDi_storeDelete_refines:
  fixes garbage key version
  defines "tomb \<equiv> \<lparr>flag_key = key, flag_value = None, flag_version = sint version,
      flag_flagVersion = garbage, flag_variation = 0, flag_trackEvents = False,
      flag_trackReason = False, flag_reason = None, flag_debugEventsUntilDate = 0,
      flag_deleted = True\<rparr>"
  assumes inv: "store_inv held w"
  shows "\<exists>b w' m'. LDi_storeDelete garbage w key version m = (Val (b, w'), m') \<and>
    store_inv held w' \<and> abs_store w' = (if b then spec_upsert (abs_store w) tomb else abs_store w) \<and>
    (m = [] \<longrightarrow> b \<and> m' = [])"
proof -
  have dup: "ctry (LDStrDup key) m = (Val None, tl m) \<and> m \<noteq> [] \<or>
      ctry (LDStrDup key) m = (Val (Some key), tl m)"
    by (cases m rule: LDAlloc.cases) (auto simp: cmd_simps)
  then show ?thesis
  proof
    assume "ctry (LDStrDup key) m = (Val None, tl m) \<and> m \<noteq> []"
    with inv show ?thesis by (auto simp: LDi_storeDelete_def cbind_def cret_def)
  next
    assume dup: "ctry (LDStrDup key) m = (Val (Some key), tl m)"
    obtain b w' m' where "LDi_storeUpsert w tomb (tl m) = (Val (b, w'), m')" "store_inv held w'"
        "abs_store w' = (if b then spec_upsert (abs_store w) tomb else abs_store w)"
        "tl m = [] \<longrightarrow> b \<and> m' = []"
      using LDi_storeUpsert_refines[OF inv, of tomb "tl m"] by blast
    with dup show ?thesis by (auto simp: LDi_storeDelete_def cbind_def tomb_def)
  qed
qed

subsection \<open>Replacing the whole table\<close>

definition free_nodes :: "addr list \<Rightarrow> world \<Rightarrow> world" where
  "free_nodes xs w = w\<lparr>w_heap := (\<lambda>a. if a \<in> set xs then None else w_heap w a)\<rparr>"

lemma free_nodes_simps [simp]:
  "w_heap (free_nodes xs w) a = (if a \<in> set xs then None else w_heap w a)"
  "w_store (free_nodes xs w) = w_store w"
  "w_next (free_nodes xs w) = w_next w"
  "w_calls (free_nodes xs w) = w_calls w"
  by (simp_all add: free_nodes_def)

lemma LDi_storeFreeHash_eq:
  "distinct xs \<Longrightarrow> set xs \<subseteq> dom (w_heap w) \<Longrightarrow>
   LDi_storeFreeHash xs w m = (Val (free_nodes xs w), m)"
proof (induction xs arbitrary: w)
  case Nil
  then show ?case by (simp add: cret_def free_nodes_def)
next
  case (Cons a xs)
  then obtain n where "w_heap w a = Some n" by auto
  moreover have "free_nodes xs (put_node a None w) = free_nodes (a # xs) w"
    by (rule world.equality) (auto simp: fun_eq_iff)
  moreover have "set xs \<subseteq> dom (w_heap (put_node a None w))" using Cons.prems by auto
  ultimately show ?case
    using Cons by (simp add: LDi_destroyStoreNode_def load_node_def cbind_def cret_def)
qed

text \<open>Freeing nodes invalidates the references to them and gives the table's references back.\<close>

lemma store_inv_free_nodes:
  assumes inv: "store_inv (held + mset xs) w" and disj: "set xs \<inter> set (flags_of w) = {}"
  shows "store_inv (filter_mset (\<lambda>a. a \<notin> set xs) held) (free_nodes xs w)"
    and "abs_store (free_nodes xs w) = abs_store w"
proof -
  show inv': "store_inv (filter_mset (\<lambda>a. a \<notin> set xs) held) (free_nodes xs w)"
  proof (rule store_invI)
    fix b n
    assume "w_heap (free_nodes xs w) b = Some n"
    then have "b \<notin> set xs" "w_heap w b = Some n" by (auto split: if_splits)
    then show "b < w_next (free_nodes xs w) \<and> node_rc n \<noteq> 0 \<and> unat (node_rc n) =
        (if b \<in> set (flags_of (free_nodes xs w)) then 1 else 0) + count (filter_mset (\<lambda>a. a \<notin> set xs) held) b"
      using store_inv_count[OF inv] by (fastforce simp: count_mset_0_iff)
  qed (use inv disj store_inv_distinct[OF inv] store_inv_heap[OF inv] store_inv_held[OF inv]
      store_inv_keys[OF inv] in \<open>auto split: if_splits\<close>)
  show "abs_store (free_nodes xs w) = abs_store w"
    by (rule abs_store_cong[OF inv inv']) (use disj in auto)
qed

lemma filter_mset_all: "(\<And>a. a \<in># M \<Longrightarrow> P a) \<Longrightarrow> filter_mset P M = M"
  by (simp add: filter_mset_eq_conv)

lemma store_put_loop_failed: "store_put_loop flags True hash w = cret (True, hash, w)"
  by (induction flags) auto

text \<open>The new nodes are counted as handed out until the table takes them over.\<close>

lemma store_put_loop_inv:
  assumes "store_inv (held + mset hash) w" and "distinct hash"
    and "set hash \<inter> set (flags_of w) = {}" and "\<And>a. a \<in> set hash \<Longrightarrow> a \<notin># held"
    and "map (\<lambda>a. map_option node_flag (w_heap w a)) hash = map Some prev"
  shows "\<exists>failed hash' w' m'. store_put_loop flags False hash w m = (Val (failed, hash', w'), m') \<and>
    store_inv (held + mset hash') w' \<and> distinct hash' \<and> set hash' \<inter> set (flags_of w') = {} \<and>
    (\<forall>a. a \<in> set hash' \<longrightarrow> a \<notin># held) \<and> w_store w' = w_store w \<and> w_calls w' = w_calls w \<and>
    abs_store w' = abs_store w \<and>
    (\<not> failed \<longrightarrow> map (\<lambda>a. map_option node_flag (w_heap w' a)) hash' = map Some (prev @ flags)) \<and>
    (m = [] \<longrightarrow> \<not> failed \<and> m' = [])"
  using assms
proof (induction flags arbitrary: hash w prev m)
  case Nil
  then show ?case by (auto simp: cret_def)
next
  case (Cons flag flags)
  from allocateStoreNode_cases[of flag w m]
  consider "ctry (LDi_allocateStoreNode flag w) m = (Val None, tl m)" "m \<noteq> []"
    | "ctry (LDi_allocateStoreNode flag w) m = (Val (Some (w_next w, alloc_world flag w)), tl m)"
    by (cases m) (auto simp: alloc_ok)
  then show ?case
  proof cases
    case 1
    with Cons.prems show ?thesis
      by (auto simp: cbind_def store_put_loop_failed cret_def)
  next
    case 2
    let ?w = "alloc_world flag w" and ?hash = "hash @ [w_next w]"
    note nx = store_inv_not_next[OF Cons.prems(1)]
    have "store_inv (held + mset ?hash) ?w" "abs_store ?w = abs_store w"
      using store_inv_alloc[OF Cons.prems(1), of flag] by (simp_all add: ac_simps)
    moreover have "distinct ?hash" "set ?hash \<inter> set (flags_of ?w) = {}"
      "\<And>a. a \<in> set ?hash \<Longrightarrow> a \<notin># held"
      using Cons.prems nx by auto
    moreover have "map (\<lambda>a. map_option node_flag (w_heap ?w a)) ?hash = map Some (prev @ [flag])"
    proof -
      have "map (\<lambda>a. map_option node_flag (w_heap ?w a)) hash =
          map (\<lambda>a. map_option node_flag (w_heap w a)) hash"
        using nx by (intro map_cong) auto
      then show ?thesis using Cons.prems(5) by simp
    qed
    ultimately show ?thesis
      using Cons.IH[of ?hash ?w "prev @ [flag]" "tl m"] 2
      by (auto simp: cbind_def HASH_ADD_KEYPTR_def)
  qed
qed

lemma fire_all_eq:
  "map (\<lambda>a. map_option node_flag (w_heap w a)) hash = map Some flags \<Longrightarrow>
   fire_all hash w m =
     (Val (w\<lparr>w_calls := w_calls w @ concat (map (\<lambda>f.
        LDi_listenersDispatch (store_listeners (w_store w)) (flag_key f) False) flags)\<rparr>), m)"
proof (induction hash arbitrary: w flags)
  case Nil
  then show ?case by (simp add: cret_def)
next
  case (Cons a hash)
  then obtain f fs where flags: "flags = f # fs" by (cases flags) auto
  with Cons.prems obtain n where n: "w_heap w a = Some n" "node_flag n = f" by auto
  let ?w = "LDi_fireListenersFor (flag_key f) False w"
  have "map (\<lambda>a. map_option node_flag (w_heap ?w a)) hash = map Some fs"
    using Cons.prems flags by simp
  from Cons.IH[OF this] n flags show ?case
    by (simp add: load_node_def cbind_def cret_def LDi_fireListenersFor_def)
qed

text \<open>Swapping the table: the new nodes' references go to the table, the old ones come back.\<close>

lemma store_inv_swap:
  assumes inv: "store_inv (held + mset hash) w" and d: "distinct hash"
    and disj: "set hash \<inter> set (flags_of w) = {}"
    and fl: "map (\<lambda>a. map_option node_flag (w_heap w a)) hash = map Some flags"
    and keys: "distinct (map flag_key flags)"
    and st: "flags_of w' = hash" "store_listeners (w_store w') = store_listeners (w_store w)"
      "w_heap w' = w_heap w" "w_next w' = w_next w"
  shows "store_inv (held + mset (flags_of w)) w'"
    and "abs_store w' = map_of (map (\<lambda>f. (flag_key f, f)) flags)"
proof -
  have len: "length hash = length flags" using fl map_eq_imp_length_eq by blast
  have nth: "map_option node_flag (w_heap w (hash ! i)) = Some (flags ! i)" if "i < length hash" for i
    using fl that len by (metis nth_map)
  show inv': "store_inv (held + mset (flags_of w)) w'"
  proof (rule store_invI)
    fix a b na nb
    assume "a \<in> set (flags_of w')" "b \<in> set (flags_of w')" "w_heap w' a = Some na"
      "w_heap w' b = Some nb" "flag_key (node_flag na) = flag_key (node_flag nb)"
    then obtain i j where ij: "i < length hash" "j < length hash" "a = hash ! i" "b = hash ! j"
        "w_heap w (hash ! i) = Some na" "w_heap w (hash ! j) = Some nb"
        "flag_key (node_flag na) = flag_key (node_flag nb)"
      using st by (auto simp: in_set_conv_nth)
    then have "flag_key (flags ! i) = flag_key (flags ! j)" using nth[of i] nth[of j] by simp
    with ij have "i = j" using keys len nth_eq_iff_index_eq[of "map flag_key flags" i j] by simp
    with ij show "a = b" by simp
  next
    fix a n
    assume "w_heap w' a = Some n"
    then show "a < w_next w' \<and> node_rc n \<noteq> 0 \<and> unat (node_rc n) =
        (if a \<in> set (flags_of w') then 1 else 0) + count (held + mset (flags_of w)) a"
      using store_inv_count[OF inv, of a n] st d disj store_inv_distinct[OF inv]
      by (auto simp: distinct_count_atmost_1 count_mset_0_iff split: if_splits)
  next
    fix a
    assume "a \<in> set (flags_of w')"
    then show "w_heap w' a \<noteq> None" using st store_inv_held[OF inv, of a] by auto
  next
    fix a
    assume "a \<in># held + mset (flags_of w)"
    then show "w_heap w' a \<noteq> None"
      using st store_inv_held[OF inv, of a] store_inv_heap[OF inv, of a] by auto
  qed (use st d store_inv_distinct[OF inv] in simp_all)
  show "abs_store w' = map_of (map (\<lambda>f. (flag_key f, f)) flags)"
  proof (rule ext, rule option_eqI)
    fix k f
    have "(\<exists>a \<in> set hash. map_option node_flag (w_heap w a) = Some f) \<longleftrightarrow> f \<in> set flags"
    proof -
      have "(\<exists>a \<in> set hash. map_option node_flag (w_heap w a) = Some f) \<longleftrightarrow>
          Some f \<in> set (map (\<lambda>a. map_option node_flag (w_heap w a)) hash)"
        unfolding set_map image_iff by (simp only: eq_commute)
      then show ?thesis unfolding fl by auto
    qed
    moreover have "abs_store w' k = Some f \<longleftrightarrow>
        (\<exists>a \<in> set hash. map_option node_flag (w_heap w a) = Some f) \<and> flag_key f = k"
      unfolding abs_store_Some[OF inv'] st map_option_eq_Some by blast
    ultimately have "abs_store w' k = Some f \<longleftrightarrow> f \<in> set flags \<and> flag_key f = k"
      by simp
    also have "\<dots> \<longleftrightarrow> map_of (map (\<lambda>f. (flag_key f, f)) flags) k = Some f"
      using keys map_of_eq_Some_iff[of "map (\<lambda>f. (flag_key f, f)) flags" k f] by (auto simp: comp_def)
    finally show "abs_store w' k = Some f \<longleftrightarrow> map_of (map (\<lambda>f. (flag_key f, f)) flags) k = Some f" .
  qed
qed

text \<open>
  A put, whatever the allocator answers: it returns and either fails and changes nothing or
  installs exactly the new flags and calls the listeners of each. The nodes of the old table are
  freed whatever their count, so that the references to them are no longer valid.
\<close>

lemma LDi_storePut_general:
  assumes inv: "store_inv held w" and keys: "distinct (map flag_key flags)"
  shows "\<exists>b w' m'. LDi_storePut w flags m = (Val (b, w'), m') \<and>
    store_inv (if b then filter_mset (\<lambda>a. a \<notin> set (flags_of w)) held else held) w' \<and>
    (b \<longrightarrow> (\<forall>a \<in> set (flags_of w). w_heap w' a = None)) \<and>
    abs_store w' = (if b then map_of (map (\<lambda>f. (flag_key f, f)) flags) else abs_store w) \<and>
    store_listeners (w_store w') = store_listeners (w_store w) \<and>
    store_initialized (w_store w') = (b \<or> store_initialized (w_store w)) \<and>
    w_calls w' = w_calls w @ (if b then concat (map (\<lambda>f.
      LDi_listenersDispatch (store_listeners (w_store w)) (flag_key f) False) flags) else []) \<and>
    (m = [] \<longrightarrow> b \<and> m' = [])"
proof -
  obtain failed hash w1 m1 where loop: "store_put_loop flags False [] w m = (Val (failed, hash, w1), m1)"
      "store_inv (held + mset hash) w1" "distinct hash" "set hash \<inter> set (flags_of w1) = {}"
      "\<And>a. a \<in> set hash \<Longrightarrow> a \<notin># held" "w_store w1 = w_store w" "w_calls w1 = w_calls w"
      "abs_store w1 = abs_store w" "m = [] \<longrightarrow> \<not> failed \<and> m1 = []"
      "\<not> failed \<longrightarrow> map (\<lambda>a. map_option node_flag (w_heap w1 a)) hash = map Some flags"
    using store_put_loop_inv[of held "[]" w "[]" flags m] inv by auto blast
  show ?thesis
  proof (cases failed)
    case True
    have "set hash \<subseteq> dom (w_heap w1)" using store_inv_held[OF loop(2)] by fastforce
    moreover have "filter_mset (\<lambda>a. a \<notin> set hash) held = held"
      using loop(5) by (intro filter_mset_all) blast
    ultimately show ?thesis
      using True loop store_inv_free_nodes[OF loop(2,4)]
      by (auto simp: LDi_storePut_def cbind_def cret_def LDi_storeFreeHash_eq)
  next
    case False
    let ?w2 = "w1\<lparr>w_store := (w_store w1)\<lparr>store_flags := hash, store_initialized := True\<rparr>\<rparr>"
    let ?calls = "concat (map (\<lambda>f.
      LDi_listenersDispatch (store_listeners (w_store w)) (flag_key f) False) flags)"
    let ?w3 = "?w2\<lparr>w_calls := w_calls w @ ?calls\<rparr>"
    have fl: "map (\<lambda>a. map_option node_flag (w_heap w1 a)) hash = map Some flags"
      using False loop by simp
    have inv3: "store_inv (held + mset (flags_of w)) ?w3"
      and abs3: "abs_store ?w3 = map_of (map (\<lambda>f. (flag_key f, f)) flags)"
      using store_inv_swap[OF loop(2-4) fl keys, of ?w3] by (simp_all add: loop(6))
    have "set (flags_of w) \<subseteq> dom (w_heap ?w3)" using store_inv_held[OF inv3] by fastforce
    then have free: "LDi_storeFreeHash (flags_of w) ?w3 m1 = (Val (free_nodes (flags_of w) ?w3), m1)"
      using store_inv_distinct[OF inv] by (simp add: LDi_storeFreeHash_eq)
    have fire: "fire_all hash ?w2 m1 = (Val ?w3, m1)"
      using fire_all_eq[of ?w2 hash flags m1] fl loop by simp
    have "store_inv (filter_mset (\<lambda>a. a \<notin> set (flags_of w)) held) (free_nodes (flags_of w) ?w3)"
      "abs_store (free_nodes (flags_of w) ?w3) = abs_store ?w3"
      using store_inv_free_nodes[OF inv3] loop by auto
    with False loop free fire abs3 show ?thesis
      by (simp add: LDi_storePut_def cbind_def cret_def Let_def) blast
  qed
qed

text \<open>If no node of the table is referred to from outside, all references stay valid.\<close>

lemma LDi_storePut_refines:
  assumes inv: "store_inv held w" and keys: "distinct (map flag_key flags)"
    and quiet: "\<And>a. a \<in> set (flags_of w) \<Longrightarrow> a \<notin># held"
  shows "\<exists>b w' m'. LDi_storePut w flags m = (Val (b, w'), m') \<and> store_inv held w' \<and>
    abs_store w' = (if b then map_of (map (\<lambda>f. (flag_key f, f)) flags) else abs_store w) \<and>
    store_listeners (w_store w') = store_listeners (w_store w) \<and>
    store_initialized (w_store w') = (b \<or> store_initialized (w_store w)) \<and>
    w_calls w' = w_calls w @ (if b then concat (map (\<lambda>f.
      LDi_listenersDispatch (store_listeners (w_store w)) (flag_key f) False) flags) else []) \<and>
    (m = [] \<longrightarrow> b \<and> m' = [])"
proof -
  have "filter_mset (\<lambda>a. a \<notin> set (flags_of w)) held = held"
    using quiet by (intro filter_mset_all) blast
  with LDi_storePut_general[OF inv keys, of m] show ?thesis by (simp only: if_cancel) blast
qed

text \<open>
  A put that finds a node of the table referred to from outside frees it all the same, and the
  holder's next access is undefined behaviour.
\<close>

lemma LDi_storePut_frees_held:
  assumes "store_inv held w" and "distinct (map flag_key flags)" and "a \<in> set (flags_of w)"
  shows "\<exists>w'. LDi_storePut w flags [] = (Val (True, w'), []) \<and> w_heap w' a = None"
  using LDi_storePut_general[OF assms(1,2), of "[]"] assms(3) by auto

lemma rc_decrement_freed: "w_heap w a = None \<Longrightarrow> LDi_rc_decrement a w m = (Fault Undefined, m)"
  by (simp add: LDi_rc_decrement_def load_node_def cbind_def cfault_def)

subsection \<open>Nodes over time\<close>

text \<open>
  What every operation keeps of the nodes: the flag in a node never changes, a freed node does not
  come back, and new nodes are new addresses.
\<close>

definition evolves :: "world \<Rightarrow> world \<Rightarrow> bool" where
  "evolves w w' \<longleftrightarrow> w_next w \<le> w_next w' \<and> (\<forall>a < w_next w. w_heap w' a = None \<or>
     map_option node_flag (w_heap w' a) = map_option node_flag (w_heap w a))"

lemma evolves_refl [simp]: "evolves w w"
  by (simp add: evolves_def)

lemma evolves_trans: "evolves w w1 \<Longrightarrow> evolves w1 w2 \<Longrightarrow> evolves w w2"
  unfolding evolves_def by (metis less_le_trans option.map_disc_iff order_trans)

lemma evolves_dead: "evolves w w' \<Longrightarrow> a < w_next w \<Longrightarrow> w_heap w a = None \<Longrightarrow> w_heap w' a = None"
  unfolding evolves_def by fastforce

lemma evolves_flag:
  "evolves w w' \<Longrightarrow> a < w_next w \<Longrightarrow> w_heap w a = Some n \<Longrightarrow> w_heap w' a = Some n' \<Longrightarrow> node_flag n' = node_flag n"
  unfolding evolves_def by fastforce

lemma evolves_same_heap:
  "w_heap w' = w_heap w \<Longrightarrow> w_next w' = w_next w \<Longrightarrow> evolves v w' \<longleftrightarrow> evolves v w"
  by (simp add: evolves_def)

lemma evolves_upd [simp]:
  "evolves v (set_flags fs w) \<longleftrightarrow> evolves v w"
  "evolves v (LDi_fireListenersFor k d w) \<longleftrightarrow> evolves v w"
  "evolves v (w\<lparr>w_store := st\<rparr>) \<longleftrightarrow> evolves v w"
  by (rule evolves_same_heap; simp)+

lemma evolves_alloc: "evolves v w \<Longrightarrow> evolves v (alloc_world flag w)"
  by (auto simp: evolves_def)

lemma evolves_put_node:
  "evolves v w \<Longrightarrow> r = None \<or> map_option node_flag r = map_option node_flag (w_heap w a) \<Longrightarrow>
   evolves v (put_node a r w)"
  unfolding evolves_def by auto

lemma yields_load_node: "yields (load_node w a) (\<lambda>n. w_heap w a = Some n)"
  by (auto simp: load_node_def yields_def cret_def cfault_def split: option.splits)

lemma yields_allocate:
  "evolves v w \<Longrightarrow> yields (ctry (LDi_allocateStoreNode flag w)) (\<lambda>r. case r of None \<Rightarrow> True | Some (_, w') \<Rightarrow> evolves v w')"
  unfolding yields_def
proof clarify
  fix m r m'
  assume "evolves v w" "ctry (LDi_allocateStoreNode flag w) m = (Val r, m')"
  with allocateStoreNode_cases[of flag w m] show "case r of None \<Rightarrow> True | Some (_, w') \<Rightarrow> evolves v w'"
    by (auto simp: evolves_alloc)
qed

lemma evolves_destroy: "evolves v w \<Longrightarrow> yields (LDi_destroyStoreNode a w) (evolves v)"
  unfolding LDi_destroyStoreNode_def by (rule yields_any) (simp add: evolves_put_node)

lemma evolves_increment: "evolves v w \<Longrightarrow> yields (LDi_rc_increment a w) (evolves v)"
  unfolding LDi_rc_increment_def by (rule yields_cbind[OF yields_load_node]) (simp add: evolves_put_node)

lemma evolves_decrement: "evolves v w \<Longrightarrow> yields (LDi_rc_decrement a w) (evolves v)"
  unfolding LDi_rc_decrement_def
  by (rule yields_cbind[OF yields_load_node]) (auto simp: Let_def evolves_put_node intro!: evolves_destroy)

lemma evolves_free_hash: "evolves v w \<Longrightarrow> yields (LDi_storeFreeHash xs w) (evolves v)"
  by (induction xs arbitrary: w) (auto intro!: yields_cbind[OF evolves_destroy])

lemma evolves_increment_all: "evolves v w \<Longrightarrow> yields (increment_all xs w) (evolves v)"
  by (induction xs arbitrary: w) (auto intro!: yields_cbind[OF evolves_increment])

lemma evolves_fire_all: "evolves v w \<Longrightarrow> yields (fire_all xs w) (evolves v)"
  by (induction xs arbitrary: w) (auto intro!: yields_any)

lemma evolves_put_loop:
  "evolves v w \<Longrightarrow> yields (store_put_loop flags failed hash w) (\<lambda>(_, _, w'). evolves v w')"
  by (induction flags arbitrary: failed hash w)
    (auto intro!: yields_cbind[OF yields_allocate] split: option.splits)

lemma LDi_storePut_evolves: "yields (LDi_storePut w flags) (\<lambda>(_, w'). evolves w w')"
  unfolding LDi_storePut_def
  by (rule yields_cbind[OF evolves_put_loop[OF evolves_refl]])
    (auto simp: Let_def intro!: yields_cbind[OF evolves_free_hash] yields_cbind[OF evolves_fire_all])

lemma LDi_storeUpsert_evolves: "yields (LDi_storeUpsert w flag) (\<lambda>(_, w'). evolves w w')"
proof -
  have sw: "yields (store_upsert_switch ex a flag w') (\<lambda>(_, w'). evolves w w')" if "evolves w w'" for ex a w'
    unfolding store_upsert_switch_def using that
    by (auto intro!: yields_cbind[OF evolves_decrement] yields_cbind[OF evolves_destroy] split: versionStatus.split)
  show ?thesis
    unfolding LDi_storeUpsert_def
    by (rule yields_cbind[OF yields_allocate[OF evolves_refl]]) (auto intro!: yields_any sw split: option.splits)
qed

lemma LDi_storeDelete_evolves: "yields (LDi_storeDelete garbage w key version) (\<lambda>(_, w'). evolves w w')"
  unfolding LDi_storeDelete_def by (auto intro!: yields_any LDi_storeUpsert_evolves split: option.split)

lemma LDi_storeGet_evolves: "yields (LDi_storeGet w key) (\<lambda>(_, w'). evolves w w')"
  unfolding LDi_storeGet_def
  by (auto intro!: yields_any yields_cbind[OF evolves_increment[OF evolves_refl]] split: option.split)

lemma LDi_storeGetAll_evolves: "yields (LDi_storeGetAll w) (\<lambda>(_, w'). evolves w w')"
  unfolding LDi_storeGetAll_def
  by (auto intro!: yields_any yields_cbind[OF evolves_increment_all[OF evolves_refl]])

subsection \<open>Serializing the table\<close>

definition table_list :: "world \<Rightarrow> LDFlag list" where
  "table_list w = map (\<lambda>a. node_flag (the (w_heap w a))) (flags_of w)"

definition saved_members :: "LDFlag list \<Rightarrow> (string \<times> json) list" where
  "saved_members flags = map (\<lambda>f. (flag_key f, JObject (flag_members f))) (filter (\<lambda>f. \<not> flag_deleted f) flags)"

lemma store_json_loop_ok:
  assumes "\<And>a. a \<in> set xs \<Longrightarrow> w_heap w a \<noteq> None"
    and "\<And>f. f \<in> set (map (\<lambda>a. node_flag (the (w_heap w a))) xs) \<Longrightarrow>
      \<not> flag_deleted f \<Longrightarrow> flag_value f \<noteq> None"
  shows "store_json_loop xs w (JObject acc) [] =
    (Val (JObject (foldl (\<lambda>zs (k, v). obj_put zs k v) acc
       (saved_members (map (\<lambda>a. node_flag (the (w_heap w a))) xs)))), [])"
  using assms
proof (induction xs arbitrary: acc)
  case Nil
  then show ?case by (simp add: cret_def saved_members_def)
next
  case (Cons a xs)
  then obtain n where n: "w_heap w a = Some n" by fastforce
  show ?case
    using Cons n
    by (cases "flag_deleted (node_flag n)")
      (simp_all add: load_node_def alloc_ok saved_members_def)
qed

lemma distinct_table_keys:
  assumes "store_inv held w"
  shows "distinct (map flag_key (table_list w))"
proof -
  have "inj_on (\<lambda>a. flag_key (node_flag (the (w_heap w a)))) (set (flags_of w))"
    using store_inv_heap[OF assms] store_inv_keys[OF assms]
    by (intro inj_onI) (metis option.sel)
  then show ?thesis
    using store_inv_distinct[OF assms] by (simp add: table_list_def distinct_map comp_def)
qed

lemma abs_store_table:
  assumes "store_inv held w"
  shows "abs_store w = map_of (map (\<lambda>f. (flag_key f, f)) (table_list w))"
proof (rule ext, rule option_eqI)
  fix k f
  have "f \<in> set (table_list w) \<longleftrightarrow>
      (\<exists>a \<in> set (flags_of w). \<exists>n. w_heap w a = Some n \<and> node_flag n = f)"
    using store_inv_heap[OF assms] by (auto simp: table_list_def image_iff) (metis option.sel)+
  then have "abs_store w k = Some f \<longleftrightarrow> f \<in> set (table_list w) \<and> flag_key f = k"
    by (auto simp: abs_store_Some[OF assms])
  then show "abs_store w k = Some f \<longleftrightarrow>
      map_of (map (\<lambda>f. (flag_key f, f)) (table_list w)) k = Some f"
    using distinct_table_keys[OF assms]
      map_of_eq_Some_iff[of "map (\<lambda>f. (flag_key f, f)) (table_list w)" k f]
    by (auto simp: comp_def)
qed

lemma distinct_saved_members:
  "distinct (map flag_key flags) \<Longrightarrow> distinct (map fst (saved_members flags))"
  by (induction flags) (auto simp: saved_members_def)

lemma LDi_storeGetJSON_ok:
  assumes inv: "store_inv held w"
    and "\<And>f. f \<in> set (table_list w) \<Longrightarrow> \<not> flag_deleted f \<Longrightarrow> flag_value f \<noteq> None"
  shows "LDi_storeGetJSON w [] = (Val (JObject (saved_members (table_list w))), [])"
proof -
  have "foldl (\<lambda>zs (k, v). obj_put zs k v) [] (saved_members (table_list w)) =
      saved_members (table_list w)"
    using foldl_obj_put_new[of "[]"] distinct_saved_members distinct_table_keys[OF inv] by simp
  then show ?thesis
    using store_json_loop_ok[of "flags_of w" w "[]"] store_inv_heap[OF inv] assms(2)
    by (simp add: LDi_storeGetJSON_def alloc_ok flip: table_list_def)
qed

section \<open>The contract of a versioned store\<close>

text \<open>
  What the streaming code relies on: an update wins exactly when its version is greater. The
  lemmas follow for every such store: a version never goes down, and a set of updates leads
  to the same contents in whatever order, and however often, its members arrive.
\<close>

locale versioned_store =
  fixes upd :: "'s \<Rightarrow> 'f \<Rightarrow> 's"
    and look :: "'s \<Rightarrow> 'k \<Rightarrow> 'f option"
    and fkey :: "'f \<Rightarrow> 'k"
    and fver :: "'f \<Rightarrow> int"
    and invar :: "'s \<Rightarrow> bool"
  assumes invar_upd: "invar s \<Longrightarrow> invar (upd s f)"
    and look_upd: "invar s \<Longrightarrow> look (upd s f) k =
      (if k = fkey f \<and> (case look s k of None \<Rightarrow> True | Some g \<Rightarrow> fver g < fver f)
       then Some f else look s k)"
begin

lemma invar_upds: "invar s \<Longrightarrow> invar (foldl upd s fs)"
  by (induction fs arbitrary: s) (auto simp: invar_upd)

lemma look_upd_mono:
  "invar s \<Longrightarrow> look s k = Some g \<Longrightarrow> \<exists>h. look (upd s f) k = Some h \<and> fver g \<le> fver h"
  by (cases "k = fkey f \<and> fver g < fver f") (auto simp: look_upd)

lemma look_upd_covers:
  "invar s \<Longrightarrow> \<exists>h. look (upd s f) (fkey f) = Some h \<and> fver f \<le> fver h"
  by (cases "look s (fkey f)") (auto simp: look_upd)

lemma look_upds_mono:
  "invar s \<Longrightarrow> look s k = Some g \<Longrightarrow> \<exists>h. look (foldl upd s fs) k = Some h \<and> fver g \<le> fver h"
proof (induction fs arbitrary: s g)
  case (Cons f fs)
  obtain g' where "look (upd s f) k = Some g'" "fver g \<le> fver g'"
    using look_upd_mono[OF Cons.prems] by blast
  with Cons.IH[OF invar_upd[OF Cons.prems(1)], of f g'] show ?case by force
qed simp

lemma look_upds_covers:
  "invar s \<Longrightarrow> f \<in> set fs \<Longrightarrow> \<exists>h. look (foldl upd s fs) (fkey f) = Some h \<and> fver f \<le> fver h"
proof (induction fs arbitrary: s)
  case (Cons e fs)
  show ?case
  proof (cases "f = e")
    case True
    obtain g where "look (upd s f) (fkey f) = Some g" "fver f \<le> fver g"
      using look_upd_covers[OF Cons.prems(1)] by blast
    with look_upds_mono[OF invar_upd[OF Cons.prems(1)], of f "fkey f" g fs] True show ?thesis
      by force
  next
    case False
    with Cons show ?thesis by (simp add: invar_upd)
  qed
qed simp

lemma look_upds_source:
  "invar s \<Longrightarrow> look (foldl upd s fs) k = Some h \<Longrightarrow>
   look s k = Some h \<or>
   h \<in> set fs \<and> fkey h = k \<and> (\<forall>g. look s k = Some g \<longrightarrow> fver g < fver h)"
proof (induction fs arbitrary: s)
  case (Cons f fs)
  have "look (upd s f) k = Some h \<or>
      h \<in> set fs \<and> fkey h = k \<and> (\<forall>g. look (upd s f) k = Some g \<longrightarrow> fver g < fver h)"
    using Cons.IH[OF invar_upd[OF Cons.prems(1)]] Cons.prems(2) by simp
  then show ?case
    using Cons.prems(1) by (auto simp: look_upd split: if_splits option.splits)
qed simp

lemma look_upds_set:
  assumes "invar s" and "set fs = set gs"
    and uniq: "\<And>f g. f \<in> set fs \<Longrightarrow> g \<in> set fs \<Longrightarrow> fkey f = fkey g \<Longrightarrow> fver f = fver g \<Longrightarrow> f = g"
  shows "look (foldl upd s fs) k = look (foldl upd s gs) k"
proof -
  have le: "\<exists>h'. look (foldl upd s ys) k = Some h' \<and> fver h \<le> fver h'"
    if "look (foldl upd s xs) k = Some h" "set xs = set ys" for xs ys h
    using look_upds_source[OF assms(1) that(1)] look_upds_mono[OF assms(1)]
      look_upds_covers[OF assms(1), of h ys] that(2) by blast
  have eq: "look (foldl upd s ys) k = Some h"
    if h: "look (foldl upd s xs) k = Some h" and sets: "set xs = set ys" "set xs = set fs" for xs ys h
  proof -
    obtain h' where h': "look (foldl upd s ys) k = Some h'" "fver h \<le> fver h'"
      using le[OF h sets(1)] by blast
    moreover have "fver h' \<le> fver h" using le[OF h'(1) sets(1)[symmetric]] h by simp
    ultimately have ver: "fver h' = fver h" by simp
    have h'_src: "look s k = Some h' \<or> h' \<in> set fs \<and> fkey h' = k \<and>
        (\<forall>g. look s k = Some g \<longrightarrow> fver g < fver h')"
      and h_src: "look s k = Some h \<or> h \<in> set fs \<and> fkey h = k \<and>
        (\<forall>g. look s k = Some g \<longrightarrow> fver g < fver h)"
      using look_upds_source[OF assms(1) h] look_upds_source[OF assms(1) h'(1)] sets by simp_all
    have "h' = h"
    proof (cases "look s k")
      case None
      with h'_src h_src ver uniq[of h' h] show ?thesis by simp
    next
      case (Some g)
      with h'_src h_src ver uniq[of h' h] show ?thesis by (cases "h = g"; cases "h' = g") auto
    qed
    with h' show ?thesis by simp
  qed
  show ?thesis
  proof (rule option_eqI)
    fix h
    show "look (foldl upd s fs) k = Some h \<longleftrightarrow> look (foldl upd s gs) k = Some h"
      using eq[OF _ assms(2) refl, of h] eq[OF _ assms(2)[symmetric] assms(2)[symmetric], of h] ..
  qed
qed

end

interpretation spec: versioned_store spec_upsert "\<lambda>s. s" flag_key flag_version "\<lambda>_. True"
  by unfold_locales (auto simp: spec_upsert_def spec_accepts_def split: option.splits)

definition store_upsert_ok :: "world \<Rightarrow> LDFlag \<Rightarrow> world" where
  "store_upsert_ok w flag = (case fst (LDi_storeUpsert w flag []) of Val (_, w') \<Rightarrow> w' | _ \<Rightarrow> w)"

lemma store_upsert_ok_refines:
  assumes "store_inv held w"
  shows "store_inv held (store_upsert_ok w flag)"
    and "abs_store (store_upsert_ok w flag) = spec_upsert (abs_store w) flag"
  using LDi_storeUpsert_refines[OF assms, of flag "[]"] by (auto simp: store_upsert_ok_def)

interpretation ldstore: versioned_store store_upsert_ok abs_store flag_key flag_version
  "store_inv held" for held
  by unfold_locales
    (auto simp: store_upsert_ok_refines spec_upsert_def spec_accepts_def split: option.splits)

end
