(* ===== verification/Store_Runs.thy ===== *)
theory Store_Runs
  imports Store
begin

text \<open>
  Executions of the flag store as a state machine. The application threads and the update
  thread call the operations of \<open>src/store.c\<close> in any order; each holds the store lock, so an
  execution is a sequence of whole operations. A state is the world together with the
  references that \<open>LDi_storeGet\<close> and \<open>LDi_storeGetAll\<close> handed out and \<open>LDi_rc_decrement\<close> has
  not yet given back. A put may come at any time and frees the nodes of the table although some of
  these references point to them: such references dangle. In every reachable state the invariant
  of \<open>Store\<close> holds for the references that do not dangle, and the one operation that faults is
  giving back a reference that does.
\<close>

section \<open>Operations and steps\<close>

datatype store_op =
    Upsert LDFlag
  | Delete int string u32
  | Put "LDFlag list"
  | Get string
  | GetAll
  | Release addr
  | Register string callback
  | Unregister string callback

type_synonym run_state = "addr multiset \<times> world"

fun store_exec :: "store_op \<Rightarrow> run_state \<Rightarrow> run_state cmd" where
  "store_exec (Upsert flag) (held, w) = cbind (LDi_storeUpsert w flag) (\<lambda>(_, w'). cret (held, w'))"
| "store_exec (Delete garbage key version) (held, w) =
     cbind (LDi_storeDelete garbage w key version) (\<lambda>(_, w'). cret (held, w'))"
| "store_exec (Put flags) (held, w) = cbind (LDi_storePut w flags) (\<lambda>(_, w'). cret (held, w'))"
| "store_exec (Get key) (held, w) =
     cbind (LDi_storeGet w key) (\<lambda>(r, w').
       cret (case r of None \<Rightarrow> held | Some a \<Rightarrow> add_mset a held, w'))"
| "store_exec GetAll (held, w) =
     cbind (ctry (LDi_storeGetAll w)) (\<lambda>r.
       cret (case r of None \<Rightarrow> (held, w) | Some (nodes, w') \<Rightarrow> (held + mset nodes, w')))"
| "store_exec (Release a) (held, w) = cbind (LDi_rc_decrement a w) (\<lambda>w'. cret (held - {#a#}, w'))"
| "store_exec (Register key op) (held, w) =
     cbind (LDi_storeRegisterListener w key op) (\<lambda>(_, w'). cret (held, w'))"
| "store_exec (Unregister key op) (held, w) = cret (held, LDi_storeUnregisterListener w key op)"

text \<open>
  What the callers respect: a reference is given back once, fewer than \<open>2^32 - 2\<close> references are
  outstanding, and a payload names each flag once.
\<close>

fun op_allowed :: "store_op \<Rightarrow> run_state \<Rightarrow> bool" where
  "op_allowed (Put flags) (held, w) \<longleftrightarrow> distinct (map flag_key flags)"
| "op_allowed (Get key) (held, w) \<longleftrightarrow> size held < 4294967294"
| "op_allowed GetAll (held, w) \<longleftrightarrow> size held + length (flags_of w) < 4294967295"
| "op_allowed (Release a) (held, w) \<longleftrightarrow> a \<in># held"
| "op_allowed _ _ \<longleftrightarrow> True"

text \<open>Giving back a reference to a node that is freed already.\<close>

fun dangling :: "store_op \<Rightarrow> run_state \<Rightarrow> bool" where
  "dangling (Release a) (held, w) \<longleftrightarrow> w_heap w a = None"
| "dangling _ _ \<longleftrightarrow> False"

inductive store_step :: "run_state \<Rightarrow> store_op \<Rightarrow> run_state \<Rightarrow> bool" where
  exec: "op_allowed op s \<Longrightarrow> store_exec op s m = (Val s', m') \<Longrightarrow> store_step s op s'"

inductive store_reachable :: "run_state \<Rightarrow> bool" where
  init: "store_reachable ({#}, snd (LDi_storeInitialize empty_world))"
| step: "store_reachable s \<Longrightarrow> store_step s op s' \<Longrightarrow> store_reachable s'"

inductive_cases store_stepE: "store_step s op s'"
inductive_simps store_step_iff: "store_step s op s'"

text \<open>The references that do not dangle; the invariant is about these.\<close>

definition live :: "addr multiset \<Rightarrow> world \<Rightarrow> addr multiset" where
  "live held w = filter_mset (\<lambda>a. w_heap w a \<noteq> None) held"

definition run_inv :: "run_state \<Rightarrow> bool" where
  "run_inv s \<longleftrightarrow> store_inv (live (fst s) (snd s)) (snd s) \<and> (\<forall>a. a \<in># fst s \<longrightarrow> a < w_next (snd s))"

section \<open>Invariant\<close>

lemma store_inv_empty: "store_inv {#} (snd (LDi_storeInitialize empty_world))"
  by (simp add: store_inv_def LDi_storeInitialize_def LDi_initListeners_def empty_world_def)

lemma run_inv_init: "run_inv ({#}, snd (LDi_storeInitialize empty_world))"
  by (simp add: run_inv_def store_inv_empty live_def)

lemma live_subset: "live held w \<subseteq># held" "size (live held w) \<le> size held"
  by (simp_all add: live_def size_mset_mono)

text \<open>The listeners are outside the heap: changing them keeps the rest of the invariant.\<close>

lemma store_inv_listeners:
  "store_inv held w \<Longrightarrow> distinct ls \<Longrightarrow>
   store_inv held (w\<lparr>w_store := (w_store w)\<lparr>store_listeners := ls\<rparr>\<rparr>)"
  unfolding store_inv_def by simp

text \<open>
  A step keeps the invariant if it keeps that of \<open>Store\<close> for some references which are all the
  outstanding ones but those whose nodes are free.
\<close>

lemma run_invI:
  assumes inv: "store_inv L w" and L: "\<And>a. a \<in># L \<Longrightarrow> count L a = count held a"
    and dead: "\<And>a. a \<in># held \<Longrightarrow> a \<notin># L \<Longrightarrow> w_heap w a = None \<and> a < w_next w"
  shows "run_inv (held, w)" and "live held w = L"
proof -
  show live: "live held w = L"
  proof (rule multiset_eqI)
    fix a
    show "count (live held w) a = count L a"
      using L[of a] dead[of a] store_inv_held[OF inv, of a]
      by (cases "a \<in># L"; cases "a \<in># held") (auto simp: live_def not_in_iff)
  qed
  have "a < w_next w" if "a \<in># held" for a
    using that dead[of a] store_inv_held[OF inv, of a] store_inv_count[OF inv] by (cases "a \<in># L") blast+
  with live inv show "run_inv (held, w)" by (simp add: run_inv_def)
qed

text \<open>
  What a step does: it keeps the invariant, and a reference that it leaves alone stays and does not
  dangle.
\<close>

fun leaves :: "addr \<Rightarrow> store_op \<Rightarrow> run_state \<Rightarrow> bool" where
  "leaves a (Release b) (held, w) \<longleftrightarrow> b \<noteq> a \<or> 1 < count held a"
| "leaves a (Put flags) (held, w) \<longleftrightarrow> a \<notin> set (flags_of w)"
| "leaves a _ _ \<longleftrightarrow> True"

definition step_ok :: "store_op \<Rightarrow> run_state \<Rightarrow> run_state \<Rightarrow> bool" where
  "step_ok op s s' \<longleftrightarrow> run_inv s' \<and>
     (\<forall>a. a \<in># live (fst s) (snd s) \<and> leaves a op s \<longrightarrow> a \<in># live (fst s') (snd s'))"

text \<open>The usual case: some references are added, and the dangling ones go on dangling.\<close>

lemma step_ok_add:
  assumes run: "run_inv (held, w)" and ev: "evolves w w'" and inv: "store_inv (live held w + new) w'"
  shows "step_ok op (held, w) (held + new, w')"
proof -
  have dead: "w_heap w' a = None \<and> a < w_next w'" if "a \<in># held" "w_heap w a = None" for a
  proof -
    have "a < w_next w" using run that by (simp add: run_inv_def)
    with ev that show ?thesis using evolves_dead[OF ev] by (auto simp: evolves_def)
  qed
  have "w_heap w' a = None \<and> a < w_next w'" if "a \<in># held + new" "a \<notin># live held w + new" for a
    using that dead[of a] by (auto simp: live_def)
  moreover have "count (live held w + new) a = count (held + new) a" if "a \<in># live held w + new" for a
    using that dead[of a] store_inv_held[OF inv that]
    by (cases "a \<in># held") (auto simp: live_def not_in_iff)
  ultimately show ?thesis using run_invI[OF inv, of "held + new"] by (simp add: step_ok_def)
qed

lemma step_ok_same:
  assumes "run_inv (held, w)" and "evolves w w'" and "store_inv (live held w) w'"
  shows "step_ok op (held, w) (held, w')"
  using step_ok_add[OF assms(1,2), of "{#}"] assms(3) by simp

text \<open>One lemma per operation: with any allocator it returns and is such a step.\<close>

definition exec_ok :: "store_op \<Rightarrow> run_state \<Rightarrow> bool" where
  "exec_ok op s \<longleftrightarrow> (\<forall>m. \<exists>s' m'. store_exec op s m = (Val s', m') \<and> step_ok op s s')"

lemma exec_okI:
  assumes "store_exec op s = cbind c f"
    and "\<And>m. \<exists>a m'. c m = (Val a, m') \<and> f a = cret (g a) \<and> step_ok op s (g a)"
  shows "exec_ok op s"
  unfolding exec_ok_def assms(1)
proof
  fix m
  from assms(2)[of m] obtain a m' where "c m = (Val a, m')" "f a = cret (g a)" "step_ok op s (g a)" by blast
  then show "\<exists>s' m'. cbind c f m = (Val s', m') \<and> step_ok op s s'" by (simp add: cbind_def cret_def)
qed

lemma exec_updates:
  assumes run: "run_inv (held, w)"
  shows "exec_ok (Upsert flag) (held, w)"
    and "exec_ok (Delete garbage key version) (held, w)"
proof -
  have inv: "store_inv (live held w) w" using run by (simp add: run_inv_def)
  have "\<exists>b w' m'. LDi_storeUpsert w flag m = (Val (b, w'), m') \<and> step_ok (Upsert flag) (held, w) (held, w')" for m
    using LDi_storeUpsert_refines[OF inv, of flag m] LDi_storeUpsert_evolves[of w flag] step_ok_same[OF run]
    unfolding yields_def by blast
  then show "exec_ok (Upsert flag) (held, w)"
    by (intro exec_okI[OF store_exec.simps(1), where g = "\<lambda>(_, w'). (held, w')"]) fastforce
  have "\<exists>b w' m'. LDi_storeDelete garbage w key version m = (Val (b, w'), m') \<and> step_ok (Delete garbage key version) (held, w) (held, w')" for m
    using LDi_storeDelete_refines[OF inv, of garbage key version m] LDi_storeDelete_evolves[of garbage w key version]
      step_ok_same[OF run]
    unfolding yields_def by blast
  then show "exec_ok (Delete garbage key version) (held, w)"
    by (intro exec_okI[OF store_exec.simps(2), where g = "\<lambda>(_, w'). (held, w')"]) fastforce
qed

text \<open>A put: the references to the old table dangle from now on.\<close>

lemma step_ok_put:
  assumes run: "run_inv (held, w)" and ev: "evolves w w'"
    and inv: "store_inv (filter_mset (\<lambda>a. a \<notin> set (flags_of w)) (live held w)) w'"
    and freed: "\<And>a. a \<in> set (flags_of w) \<Longrightarrow> w_heap w' a = None"
  shows "step_ok (Put flags) (held, w) (held, w')"
proof -
  have "w_heap w' a = None \<and> a < w_next w'"
    if "a \<in># held" "a \<notin># filter_mset (\<lambda>a. a \<notin> set (flags_of w)) (live held w)" for a
  proof -
    have "a < w_next w" using run that by (simp add: run_inv_def)
    with that show ?thesis using freed[of a] evolves_dead[OF ev] ev by (auto simp: live_def evolves_def)
  qed
  then show ?thesis
    using run_invI[OF inv, of held] by (auto simp: step_ok_def live_def)
qed

lemma exec_put:
  assumes run: "run_inv (held, w)" and ok: "op_allowed (Put flags) (held, w)"
  shows "exec_ok (Put flags) (held, w)"
proof -
  have inv: "store_inv (live held w) w" using run by (simp add: run_inv_def)
  have "\<exists>b w' m'. LDi_storePut w flags m = (Val (b, w'), m') \<and> step_ok (Put flags) (held, w) (held, w')" for m
  proof -
    obtain b w' m' where put: "LDi_storePut w flags m = (Val (b, w'), m')"
        "store_inv (if b then filter_mset (\<lambda>a. a \<notin> set (flags_of w)) (live held w) else live held w) w'"
        "b \<longrightarrow> (\<forall>a \<in> set (flags_of w). w_heap w' a = None)"
      using LDi_storePut_general[OF inv, of flags m] ok by auto
    moreover have "evolves w w'" using LDi_storePut_evolves[of w flags] put(1) by (fastforce simp: yields_def)
    ultimately have "step_ok (Put flags) (held, w) (held, w')"
      using step_ok_put[OF run, of w'] step_ok_same[OF run, of w'] by (cases b) auto
    with put show ?thesis by blast
  qed
  then show ?thesis
    by (intro exec_okI[OF store_exec.simps(3), where g = "\<lambda>(_, w'). (held, w')"]) fastforce
qed

lemma exec_get:
  assumes run: "run_inv (held, w)" and ok: "op_allowed (Get key) (held, w)"
  shows "exec_ok (Get key) (held, w)"
proof -
  let ?g = "\<lambda>(r, w'). (case r of None \<Rightarrow> held | Some a \<Rightarrow> add_mset a held, w')"
  have inv: "store_inv (live held w) w" and sz: "size (live held w) < 4294967294"
    using run ok live_subset(2)[of held w] by (auto simp: run_inv_def)
  have "\<exists>r w'. LDi_storeGet w key m = (Val (r, w'), m) \<and> step_ok (Get key) (held, w) (?g (r, w'))" for m
  proof -
    obtain r w' where get: "LDi_storeGet w key m = (Val (r, w'), m)"
        "case r of None \<Rightarrow> w' = w | Some a \<Rightarrow> store_inv (add_mset a (live held w)) w'"
      using LDi_storeGet_refines[OF inv sz, of key m] by (fastforce split: option.splits)
    moreover have "evolves w w'" using LDi_storeGet_evolves[of w key] get(1) by (fastforce simp: yields_def)
    ultimately show ?thesis
      using step_ok_same[OF run, of w'] inv step_ok_add[OF run, of w' "{#a#}" for a] by (auto split: option.splits)
  qed
  then show ?thesis
    by (intro exec_okI[OF store_exec.simps(4), where g = ?g]) fastforce
qed

lemma exec_get_all:
  assumes run: "run_inv (held, w)" and ok: "op_allowed GetAll (held, w)"
  shows "exec_ok GetAll (held, w)"
proof -
  let ?g = "\<lambda>r. case r of None \<Rightarrow> (held, w) | Some (nodes, w') \<Rightarrow> (held + mset nodes, w')"
  have inv: "store_inv (live held w) w" and sz: "size (live held w) + length (flags_of w) < 4294967295"
    using run ok live_subset(2)[of held w] by (auto simp: run_inv_def)
  have "\<exists>r m'. ctry (LDi_storeGetAll w) m = (Val r, m') \<and> step_ok GetAll (held, w) (?g r)" for m
    using LDi_storeGetAll_refines[OF inv sz, of m] LDi_storeGetAll_evolves[of w] inv
      step_ok_same[OF run] step_ok_add[OF run]
    by (fastforce simp: ctry_def yields_def)
  then show ?thesis
    by (intro exec_okI[OF store_exec.simps(5), where g = ?g]) fastforce
qed

lemma exec_release:
  assumes run: "run_inv (held, w)" and ok: "op_allowed (Release a) (held, w)" and alive: "w_heap w a \<noteq> None"
  shows "exec_ok (Release a) (held, w)"
proof -
  let ?L = "live held w - {#a#}"
  have a: "a \<in># live held w" using ok alive by (simp add: live_def)
  then have inv: "store_inv (add_mset a ?L) w" using run by (simp add: run_inv_def)
  have "\<exists>w'. LDi_rc_decrement a w m = (Val w', m) \<and> step_ok (Release a) (held, w) (held - {#a#}, w')" for m
  proof -
    obtain w' where w': "LDi_rc_decrement a w m = (Val w', m)" "store_inv ?L w'" "w_next w' = w_next w"
        "\<forall>b. b \<noteq> a \<longrightarrow> w_heap w' b = w_heap w b"
      using store_inv_decrement[OF inv, of m] by blast
    have cnt: "count ?L b = (if w_heap w b = None then 0 else count (held - {#a#}) b)" for b
      using alive by (simp add: live_def)
    have "w_heap w' b = None \<and> b < w_next w'" if b: "b \<in># held - {#a#}" "b \<notin># ?L" for b
    proof -
      have "count (held - {#a#}) b \<noteq> 0" using b(1) by (metis not_in_iff)
      moreover have "count ?L b = 0" using b(2) by (metis not_in_iff)
      ultimately have "w_heap w b = None" using cnt[of b] by metis
      moreover have "b < w_next w" using run in_diffD[OF b(1)] by (simp add: run_inv_def)
      ultimately show ?thesis using w' alive by (cases "b = a") auto
    qed
    moreover have "count ?L b = count (held - {#a#}) b" if "b \<in># ?L" for b
      using that cnt[of b] unfolding count_greater_zero_iff[symmetric] by (auto split: if_splits)
    ultimately have "run_inv (held - {#a#}, w')" "live (held - {#a#}) w' = ?L"
      using run_invI[OF w'(2), of "held - {#a#}"] by blast+
    moreover have "b \<in># ?L" if "b \<in># live held w" "leaves b (Release a) (held, w)" for b
      using that unfolding count_greater_zero_iff[symmetric] by (auto simp: live_def split: if_splits)
    ultimately have "step_ok (Release a) (held, w) (held - {#a#}, w')" by (simp add: step_ok_def)
    with w' show ?thesis by blast
  qed
  then show ?thesis
    by (intro exec_okI[OF store_exec.simps(6), where g = "\<lambda>w'. (held - {#a#}, w')"]) fastforce
qed

lemma exec_listeners:
  assumes run: "run_inv (held, w)"
  shows "exec_ok (Register key op) (held, w)"
    and "exec_ok (Unregister key op) (held, w)"
proof -
  let ?ls = "store_listeners (w_store w)"
  have inv: "store_inv (live held w) w" and d: "distinct ?ls"
    using run by (simp_all add: run_inv_def store_inv_def)
  have upd: "step_ok p (held, w) (held, w\<lparr>w_store := (w_store w)\<lparr>store_listeners := ls\<rparr>\<rparr>)" if "distinct ls" for p ls
    using step_ok_same[OF run _ store_inv_listeners[OF inv that]] by simp
  have "\<exists>b w' m'. LDi_storeRegisterListener w key op m = (Val (b, w'), m') \<and> step_ok (Register key op) (held, w) (held, w')" for m
    using LDi_listenerAdd_cases[of ?ls key op m] d upd ldlisteners.invar_add[of ?ls key op]
    by (cases "LDi_listenerAdd ?ls key op m")
      (force simp: LDi_storeRegisterListener_def cbind_def cret_def)
  then show "exec_ok (Register key op) (held, w)"
    by (intro exec_okI[OF store_exec.simps(7), where g = "\<lambda>(_, w'). (held, w')"]) fastforce
  show "exec_ok (Unregister key op) (held, w)"
    using upd[OF distinct_listenerRemove[OF d]]
    by (simp add: exec_ok_def cret_def LDi_storeUnregisterListener_def)
qed

lemma store_exec_ok:
  assumes "run_inv s" and "op_allowed op s" and "\<not> dangling op s"
  shows "exec_ok op s"
proof -
  obtain held w where s: "s = (held, w)" by fastforce
  with assms have run: "run_inv (held, w)" by simp
  show ?thesis
    using assms(2,3) exec_updates[OF run] exec_put[OF run] exec_get[OF run] exec_get_all[OF run]
      exec_release[OF run] exec_listeners[OF run]
    by (cases op) (simp_all add: s)
qed

lemma store_exec_dangling:
  "dangling op s \<Longrightarrow> store_exec op s m = (Fault Undefined, m)"
  by (cases "(op, s)" rule: dangling.cases) (auto simp: rc_decrement_freed cbind_def)

lemma store_step_ok: "run_inv s \<Longrightarrow> store_step s op s' \<Longrightarrow> step_ok op s s'"
proof (elim store_stepE)
  fix m m'
  assume s: "run_inv s" "op_allowed op s" "store_exec op s m = (Val s', m')"
  then have "\<not> dangling op s" using store_exec_dangling[of op s m] by auto
  from store_exec_ok[OF s(1,2) this] s(3) show "step_ok op s s'" by (metis exec_ok_def fst_conv result.inject(1))
qed

lemma store_step_inv: "run_inv s \<Longrightarrow> store_step s op s' \<Longrightarrow> run_inv s'"
  using store_step_ok by (simp add: step_ok_def)

lemma store_reachable_inv: "store_reachable s \<Longrightarrow> run_inv s"
  by (induction rule: store_reachable.induct) (auto intro: run_inv_init store_step_inv)

section \<open>Holding a reference\<close>

lemma store_step_evolves: "store_step s op s' \<Longrightarrow> evolves (snd s) (snd s')"
proof (elim store_stepE)
  fix m m'
  assume e: "store_exec op s m = (Val s', m')"
  obtain held w where s: "s = (held, w)" by fastforce
  note ev = LDi_storeUpsert_evolves LDi_storeDelete_evolves LDi_storePut_evolves LDi_storeGet_evolves
    LDi_storeGetAll_evolves evolves_decrement[OF evolves_refl]
  show ?thesis
    using e ev unfolding s yields_def
    by (cases op) (fastforce simp: cmd_Val_iffs ctry_def LDi_storeRegisterListener_def LDi_storeUnregisterListener_def
        split: option.splits result.splits prod.splits)+
qed

text \<open>
  A run in which a reference to \<open>a\<close> stays: it is not given back (another reference to the same
  node may be), and no put is made while \<open>a\<close> is in the table.
\<close>

inductive holding :: "addr \<Rightarrow> run_state \<Rightarrow> run_state \<Rightarrow> bool" for a where
  start: "holding a s s"
| step: "holding a s s' \<Longrightarrow> store_step s' op s'' \<Longrightarrow> leaves a op s' \<Longrightarrow> holding a s s''"

lemma holding_inv:
  "holding a s s' \<Longrightarrow> run_inv s \<Longrightarrow> a \<in># live (fst s) (snd s) \<Longrightarrow>
   run_inv s' \<and> a \<in># live (fst s') (snd s') \<and> evolves (snd s) (snd s')"
proof (induction rule: holding.induct)
  case (step s s' op s'')
  with store_step_ok[of s' op s''] store_step_evolves[of s' op s''] show ?case
    by (auto simp: step_ok_def intro: evolves_trans)
qed simp

section \<open>Properties\<close>

text \<open>Concrete inputs for the witnesses: a store that holds one boolean flag, and two more flags.\<close>

definition sample_flag :: "string \<Rightarrow> int \<Rightarrow> json \<Rightarrow> LDFlag" where
  "sample_flag key version j =
     \<lparr>flag_key = key, flag_value = Some j, flag_version = version, flag_flagVersion = 3,
      flag_variation = 1, flag_trackEvents = True, flag_trackReason = False,
      flag_reason = None, flag_debugEventsUntilDate = 0, flag_deleted = False\<rparr>"

definition sample_world :: world where
  "sample_world = store_upsert_ok (snd (LDi_storeInitialize empty_world)) (sample_flag ''a'' 1 (JBool True))"

lemma sample_world_inv: "store_inv {#} sample_world"
  unfolding sample_world_def by (rule store_upsert_ok_refines(1)[OF store_inv_empty])

lemma sample_world_abs:
  "abs_store sample_world = [''a'' \<mapsto> sample_flag ''a'' 1 (JBool True)]"
proof -
  have "abs_store (snd (LDi_storeInitialize empty_world)) = Map.empty"
    by (simp add: abs_store_def LDi_storeInitialize_def fun_eq_iff)
  then show ?thesis
    unfolding sample_world_def store_upsert_ok_refines(2)[OF store_inv_empty]
    by (simp add: spec_upsert_def spec_accepts_def sample_flag_def)
qed

lemmas sample_defs = sample_world_def sample_flag_def store_upsert_ok_def empty_world_def
  LDi_storeInitialize_def LDi_initListeners_def LDi_storeUpsert_def LDi_allocateStoreNode_def
  HASH_FIND_STR_def store_upsert_switch_def versionStatus_def HASH_ADD_KEYPTR_def set_flags_def
  put_node_def LDi_fireListenersFor_def LDi_rc_initialize_def cmd_simps

lemma sample_world_flags: "flags_of sample_world = [0]"
  by (simp add: sample_defs has_key_def)

definition sample_held_world :: world where
  "sample_held_world =
     (case fst (LDi_storeGet sample_world ''a'' []) of Val (_, w) \<Rightarrow> w | _ \<Rightarrow> sample_world)"

lemma sample_get:
  "LDi_storeGet sample_world ''a'' [] = (Val (Some 0, sample_held_world), [])"
  by (simp add: sample_held_world_def LDi_storeGet_def load_node_def LDi_rc_increment_def
      sample_defs has_key_def)

lemma sample_reachable: "store_reachable ({#}, sample_world)"
proof -
  let ?w = "snd (LDi_storeInitialize empty_world)"
  have "LDi_storeUpsert ?w (sample_flag ''a'' 1 (JBool True)) [] = (Val (True, sample_world), [])"
    using LDi_storeUpsert_refines[OF store_inv_empty, of "sample_flag ''a'' 1 (JBool True)" "[]"]
    by (auto simp: sample_world_def store_upsert_ok_def)
  then have "store_step ({#}, ?w) (Upsert (sample_flag ''a'' 1 (JBool True))) ({#}, sample_world)"
    by (intro store_step.exec[where m = "[]" and m' = "[]"]) (simp_all add: cbind_def cret_def)
  then show ?thesis by (rule store_reachable.step[OF store_reachable.init])
qed

lemma sample_held_reachable: "store_reachable ({#0#}, sample_held_world)"
proof -
  have "store_step ({#}, sample_world) (Get ''a'') ({#0#}, sample_held_world)"
    by (intro store_step.exec[where m = "[]" and m' = "[]"]) (simp_all add: cbind_def cret_def sample_get)
  then show ?thesis by (rule store_reachable.step[OF sample_reachable])
qed

text \<open>C1. In every state the store can reach, by any sequence of upserts, deletions, reads, releases,
  listener changes and puts of any threads, a put at any time, each operation returns, whatever the
  allocator answers, and the invariant (distinct keys, exact counts of the references whose nodes
  exist) holds again, with one exception: giving back a reference whose node a put has freed is
  undefined behaviour. The callers give back what they got, hold fewer than \<open>2^32 - 2\<close> references,
  and a payload names each flag once.\<close>

theorem store_reachable_safe:
  assumes "store_reachable (held, w)" and "op_allowed op (held, w)"
  shows "if dangling op (held, w) then store_exec op (held, w) m = (Fault Undefined, m)
    else \<exists>held' w' m'. store_exec op (held, w) m = (Val (held', w'), m') \<and> store_inv (live held' w') w'"
proof (cases "dangling op (held, w)")
  case False
  from store_exec_ok[OF store_reachable_inv[OF assms(1)] assms(2) this] obtain s' m' where
    "store_exec op (held, w) m = (Val s', m')" "step_ok op (held, w) s'"
    unfolding exec_ok_def by blast
  with False show ?thesis by (cases s') (simp add: step_ok_def run_inv_def)
qed (simp add: store_exec_dangling)

theorem store_reachable_safe_witness:
  "store_reachable ({#0#}, sample_held_world) \<and>
   (\<exists>held' w' m'. store_exec (Put []) ({#0#}, sample_held_world) [False, True] =
      (Val (held', w'), m') \<and> store_inv (live held' w') w')"
  using store_reachable_safe[OF sample_held_reachable, of "Put []" "[False, True]"]
    sample_held_reachable by simp

text \<open>C2. A reference stays readable while it is held, and what it points to does not change: from any
  reachable state, over any run of other operations, among them upserts and deletions of its flag and
  releases of other references, the node stays allocated with the same flag, and its count is the number
  of its outstanding references, plus one while the table holds it; excluded are only runs with a put
  made while the node is in the table, which frees it.\<close>

theorem held_reference_alive:
  assumes "store_reachable (held, w)" and "a \<in># held" and "w_heap w a = Some n"
    and "holding a (held, w) (held', w')"
  shows "a \<in># held' \<and> (\<exists>n'. w_heap w' a = Some n' \<and> node_flag n' = node_flag n \<and>
    unat (node_rc n') = (if a \<in> set (flags_of w') then 1 else 0) + count held' a)"
proof -
  have run: "run_inv (held, w)" using store_reachable_inv[OF assms(1)] .
  have "run_inv (held', w') \<and> a \<in># live held' w' \<and> evolves w w'"
    using holding_inv[OF assms(4) run] assms(2,3) by (simp add: live_def)
  then have h: "store_inv (live held' w') w'" "a \<in># live held' w'" "evolves w w'" by (simp_all add: run_inv_def)
  then obtain n' where n': "w_heap w' a = Some n'" "a \<in># held'" by (auto simp: live_def)
  have "a < w_next w" using run assms(2) by (simp add: run_inv_def)
  with h(3) assms(3) n' have "node_flag n' = node_flag n" using evolves_flag by blast
  with n' store_inv_count[OF h(1) n'(1)] show ?thesis by (simp add: live_def)
qed

text \<open>A newer version of the flag arrives while it is read.\<close>

theorem held_reference_alive_witness:
  "\<exists>w'. store_exec (Upsert (sample_flag ''a'' 2 JNull)) ({#0#}, sample_held_world) [] = (Val ({#0#}, w'), []) \<and>
    (\<exists>n'. w_heap w' 0 = Some n' \<and> node_flag n' = sample_flag ''a'' 1 (JBool True))"
proof -
  obtain n where n: "w_heap sample_held_world 0 = Some n" "node_flag n = sample_flag ''a'' 1 (JBool True)"
    by (simp add: sample_held_world_def LDi_storeGet_def load_node_def LDi_rc_increment_def
        sample_defs has_key_def)
  have run: "run_inv ({#0#}, sample_held_world)" using store_reachable_inv[OF sample_held_reachable] .
  then have "store_inv (live {#0#} sample_held_world) sample_held_world" by (simp add: run_inv_def)
  from LDi_storeUpsert_refines[OF this, of "sample_flag ''a'' 2 JNull" "[]"]
  obtain w' where w': "LDi_storeUpsert sample_held_world (sample_flag ''a'' 2 JNull) [] = (Val (True, w'), [])" by auto
  then have e: "store_exec (Upsert (sample_flag ''a'' 2 JNull)) ({#0#}, sample_held_world) [] = (Val ({#0#}, w'), [])"
    by (simp add: cbind_def cret_def)
  then have "holding 0 ({#0#}, sample_held_world) ({#0#}, w')"
    by (rule holding.step[OF holding.start store_step.exec[rotated]]) simp_all
  from held_reference_alive[OF sample_held_reachable _ n(1) this] n(2) e show ?thesis by auto
qed

text \<open>C3. An upsert refines the abstract store, whatever the allocator does: it either reports
  failure and changes nothing, or the flag replaces the stored one exactly when its version is
  greater (or the key is new) and exactly then the listeners of its key are called.\<close>

theorem storeUpsert_contract:
  assumes "store_inv held w"
  shows "\<exists>b w' m'. LDi_storeUpsert w flag m = (Val (b, w'), m') \<and> store_inv held w' \<and>
    abs_store w' = (if b then spec_upsert (abs_store w) flag else abs_store w) \<and>
    w_calls w' = w_calls w @ (if b \<and> spec_accepts (abs_store w) flag
      then LDi_listenersDispatch (store_listeners (w_store w)) (flag_key flag) (flag_deleted flag)
      else []) \<and>
    (m = [] \<longrightarrow> b)"
  using LDi_storeUpsert_refines[OF assms, of flag m] by blast

theorem storeUpsert_contract_witness:
  "store_inv {#} sample_world \<and>
   (\<exists>w'. LDi_storeUpsert sample_world (sample_flag ''a'' 2 (JBool False)) [] = (Val (True, w'), []) \<and>
      abs_store w' = [''a'' \<mapsto> sample_flag ''a'' 2 (JBool False)])"
proof -
  have "\<exists>b w' m'. LDi_storeUpsert sample_world (sample_flag ''a'' 2 (JBool False)) [] = (Val (b, w'), m') \<and>
      abs_store w' = spec_upsert (abs_store sample_world) (sample_flag ''a'' 2 (JBool False)) \<and> b"
    using storeUpsert_contract[OF sample_world_inv, of "sample_flag ''a'' 2 (JBool False)" "[]"] by auto
  moreover have "snd (LDi_storeUpsert sample_world (sample_flag ''a'' 2 (JBool False)) []) = []"
    using LDi_storeUpsert_refines[OF sample_world_inv, of "sample_flag ''a'' 2 (JBool False)" "[]"] by auto
  ultimately show ?thesis
    using sample_world_inv
    by (force simp: sample_world_abs spec_upsert_def spec_accepts_def sample_flag_def)
qed

text \<open>C26. A read returns exactly the live flag of the key, together with a reference to its node,
  and nothing for an unknown or deleted key; the contents of the store do not change.\<close>

theorem storeGet_contract:
  assumes "store_inv held w" and "size held < 4294967294"
  shows "\<exists>r w'. LDi_storeGet w key m = (Val (r, w'), m) \<and> abs_store w' = abs_store w \<and>
    (case r of
       None \<Rightarrow> w' = w \<and> spec_get (abs_store w) key = None
     | Some a \<Rightarrow> store_inv (add_mset a held) w' \<and>
         (\<exists>n. w_heap w' a = Some n \<and> spec_get (abs_store w) key = Some (node_flag n)))"
  using LDi_storeGet_refines[OF assms, of key m] by blast

theorem storeGet_contract_witness:
  "store_inv {#} sample_world \<and>
   (\<exists>n. w_heap sample_held_world 0 = Some n \<and>
      spec_get (abs_store sample_world) ''a'' = Some (node_flag n))"
  using storeGet_contract[OF sample_world_inv, of "''a''" "[]"] sample_world_inv
  by (simp add: sample_get)

text \<open>C27. A put, whatever the allocator does, either fails and changes nothing or installs exactly
  the flags of the payload, marks the store initialized and calls the listeners of each flag in
  order, provided no node of the old table is referred to from outside.\<close>

theorem storePut_contract:
  assumes "store_inv held w" and "distinct (map flag_key flags)"
    and "\<And>a. a \<in> set (flags_of w) \<Longrightarrow> a \<notin># held"
  shows "\<exists>b w' m'. LDi_storePut w flags m = (Val (b, w'), m') \<and> store_inv held w' \<and>
    abs_store w' = (if b then map_of (map (\<lambda>f. (flag_key f, f)) flags) else abs_store w) \<and>
    store_initialized (w_store w') = (b \<or> store_initialized (w_store w)) \<and>
    w_calls w' = w_calls w @ (if b then concat (map (\<lambda>f.
      LDi_listenersDispatch (store_listeners (w_store w)) (flag_key f) False) flags) else []) \<and>
    (m = [] \<longrightarrow> b)"
  using LDi_storePut_refines[OF assms, of m] by blast

theorem storePut_contract_witness:
  "\<exists>b w' m'. LDi_storePut sample_world [sample_flag ''b'' 1 JNull] [True, False] = (Val (b, w'), m') \<and>
     abs_store w' = (if b then [''b'' \<mapsto> sample_flag ''b'' 1 JNull] else abs_store sample_world)"
  using storePut_contract[OF sample_world_inv, of "[sample_flag ''b'' 1 JNull]" "[True, False]"]
  by (fastforce simp: sample_flag_def)

text \<open>C28. The proviso of the previous property is needed: a put frees the nodes of the old table
  whatever their reference count, so the holder of a reference that later gives it back
  touches freed memory.\<close>

theorem storePut_frees_referenced_node:
  assumes "store_inv held w" and "distinct (map flag_key flags)" and "a \<in> set (flags_of w)"
  shows "\<exists>w'. LDi_storePut w flags [] = (Val (True, w'), []) \<and>
    LDi_rc_decrement a w' m = (Fault Undefined, m)"
  using LDi_storePut_frees_held[OF assms] rc_decrement_freed by blast

theorem storePut_frees_referenced_node_witness:
  "store_reachable ({#0#}, sample_held_world) \<and>
   (\<exists>w'. LDi_storePut sample_held_world [] [] = (Val (True, w'), []) \<and>
      LDi_rc_decrement 0 w' [] = (Fault Undefined, []))"
proof -
  have inv: "store_inv {#0#} sample_held_world"
    using LDi_storeGet_refines[OF sample_world_inv, of "''a''" "[]"] by (simp add: sample_get)
  have "flags_of sample_held_world = [0]"
    using LDi_storeGet_refines[OF sample_world_inv, of "''a''" "[]"]
    by (simp add: sample_get sample_world_flags)
  with storePut_frees_referenced_node[OF inv, of "[]" 0 "[]"] sample_held_reachable
  show ?thesis by simp
qed

text \<open>The order in which updates arrive does not matter, nor does receiving some of them
  repeatedly: two sequences of upserts with the same members lead to the same contents, as
  long as no two different updates carry the same key and version.\<close>

theorem upserts_order_independent:
  assumes "store_inv held w" and "set fs = set gs"
    and "\<And>f g. f \<in> set fs \<Longrightarrow> g \<in> set fs \<Longrightarrow> flag_key f = flag_key g \<Longrightarrow>
           flag_version f = flag_version g \<Longrightarrow> f = g"
  shows "abs_store (foldl store_upsert_ok w fs) = abs_store (foldl store_upsert_ok w gs)"
  using ldstore.look_upds_set[OF assms] by blast

theorem upserts_order_independent_witness:
  "abs_store (foldl store_upsert_ok sample_world
     [sample_flag ''a'' 5 JNull, sample_flag ''a'' 4 JNull, sample_flag ''b'' 1 JNull]) =
   abs_store (foldl store_upsert_ok sample_world
     [sample_flag ''b'' 1 JNull, sample_flag ''a'' 4 JNull, sample_flag ''a'' 5 JNull,
      sample_flag ''a'' 4 JNull])"
  by (rule upserts_order_independent[OF sample_world_inv]) (auto simp: sample_flag_def)

text \<open>The version of a stored flag never goes down while updates arrive.\<close>

theorem upserts_version_monotone:
  assumes "store_inv held w" and "abs_store w key = Some g"
  shows "\<exists>h. abs_store (foldl store_upsert_ok w fs) key = Some h \<and> flag_version g \<le> flag_version h"
  using ldstore.look_upds_mono[OF assms] .

theorem upserts_version_monotone_witness:
  "\<exists>h. abs_store (foldl store_upsert_ok sample_world
      [sample_flag ''a'' 0 JNull, sample_flag ''b'' 9 JNull]) ''a'' = Some h \<and> 1 \<le> flag_version h"
  using upserts_version_monotone[OF sample_world_inv, of "''a''" "sample_flag ''a'' 1 (JBool True)"
      "[sample_flag ''a'' 0 JNull, sample_flag ''b'' 9 JNull]"]
  by (simp add: sample_world_abs sample_flag_def)

text \<open>C29. A deletion leaves a tombstone: if it is newer than the stored flag, a read finds nothing
  any more, and no update whose version is not greater brings the flag back.\<close>

theorem delete_not_resurrected:
  assumes inv: "store_inv held w" and ver: "\<And>g. abs_store w key = Some g \<Longrightarrow> flag_version g < sint version"
    and late: "\<And>f. f \<in> set fs \<Longrightarrow> flag_version f \<le> sint version"
  shows "\<exists>w'. LDi_storeDelete garbage w key version [] = (Val (True, w'), []) \<and>
    spec_get (abs_store (foldl store_upsert_ok w' fs)) key = None"
proof -
  let ?tomb = "\<lparr>flag_key = key, flag_value = None, flag_version = sint version,
      flag_flagVersion = garbage, flag_variation = 0, flag_trackEvents = False,
      flag_trackReason = False, flag_reason = None, flag_debugEventsUntilDate = 0,
      flag_deleted = True\<rparr>"
  obtain w' where w': "LDi_storeDelete garbage w key version [] = (Val (True, w'), [])"
      "store_inv held w'" "abs_store w' = spec_upsert (abs_store w) ?tomb"
    using LDi_storeDelete_refines[OF inv, of garbage key version "[]"] by auto
  have tomb: "abs_store w' key = Some ?tomb"
    using ver by (auto simp: w'(3) spec_upsert_def spec_accepts_def split: option.splits)
  obtain h where h: "abs_store (foldl store_upsert_ok w' fs) key = Some h"
    using ldstore.look_upds_mono[OF w'(2) tomb] by blast
  have "h = ?tomb"
    using ldstore.look_upds_source[OF w'(2) h] tomb late by fastforce
  with w'(1) h show ?thesis by (simp add: spec_get_def)
qed

theorem delete_not_resurrected_witness:
  "\<exists>w'. LDi_storeDelete 0 sample_world ''a'' 3 [] = (Val (True, w'), []) \<and>
     spec_get (abs_store (foldl store_upsert_ok w' [sample_flag ''a'' 2 JNull, sample_flag ''b'' 1 JNull])) ''a'' = None"
  by (rule delete_not_resurrected[OF sample_world_inv])
    (auto simp: sample_world_abs sample_flag_def split: if_splits)

end
