(* ===== verification/Decimal.thy ===== *)
theory Decimal
  imports Prelude
begin

text \<open>
  Decimal notation, as the C library prints and reads it: \<open>%d\<close> for the keys of the summary
  counters, \<open>strtod\<close> and \<open>%g\<close> for the numbers of JSON texts. The lemmas show that decimal
  numerals are unambiguous and can be read back.
\<close>

section \<open>Integers\<close>

text \<open>\<open>snprintf\<close> with \<open>%d\<close>.\<close>

definition digit_char :: "nat \<Rightarrow> char" where
  "digit_char d = char_of (48 + d)"

fun nat_to_string :: "nat \<Rightarrow> string" where
  "nat_to_string n =
     (if n < 10 then [digit_char n] else nat_to_string (n div 10) @ [digit_char (n mod 10)])"

definition int_to_string :: "int \<Rightarrow> string" where
  "int_to_string i =
     (if i < 0 then CHR ''-'' # nat_to_string (nat (- i)) else nat_to_string (nat i))"

lemma of_char_digit: "d < 10 \<Longrightarrow> of_char (digit_char d) = 48 + d"
  by (simp add: digit_char_def)

lemma digit_char_inj: "a < 10 \<Longrightarrow> b < 10 \<Longrightarrow> digit_char a = digit_char b \<longleftrightarrow> a = b"
  by (metis add_left_cancel of_char_digit)

declare nat_to_string.simps [simp del]

lemma nat_to_string_chars: "c \<in> set (nat_to_string n) \<Longrightarrow> \<exists>d < 10. c = digit_char d"
proof (induction n rule: nat_to_string.induct)
  case (1 n)
  show ?case
  proof (cases "n < 10")
    case True
    with 1 show ?thesis by (auto simp: nat_to_string.simps[of n])
  next
    case False
    with 1 consider "c \<in> set (nat_to_string (n div 10))" | "c = digit_char (n mod 10)"
      by (auto simp: nat_to_string.simps[of n])
    then show ?thesis by cases (use 1(1)[OF False] in \<open>auto intro: exI[of _ "n mod 10"]\<close>)
  qed
qed

lemma nat_to_string_Nil [simp]: "nat_to_string n \<noteq> []"
  by (simp add: nat_to_string.simps[of n])

lemma nat_to_string_inj: "nat_to_string a = nat_to_string b \<Longrightarrow> a = b"
proof (induction a arbitrary: b rule: nat_to_string.induct)
  case (1 a)
  show ?case
  proof (cases "a < 10")
    case True
    with 1(2) show ?thesis
      by (cases "b < 10") (auto simp: nat_to_string.simps[of a] nat_to_string.simps[of b] digit_char_inj
          dest: sym[of "[]"])
  next
    case False
    show ?thesis
    proof (cases "b < 10")
      case True
      with 1(2) False show ?thesis by (auto simp: nat_to_string.simps[of a] nat_to_string.simps[of b])
    next
      case b: False
      with 1(2) False have "nat_to_string (a div 10) = nat_to_string (b div 10)"
        "digit_char (a mod 10) = digit_char (b mod 10)"
        by (simp_all add: nat_to_string.simps[of a] nat_to_string.simps[of b])
      with 1(1)[OF False] have "a div 10 = b div 10" "a mod 10 = b mod 10"
        by (auto simp: digit_char_inj)
      then show ?thesis by (metis div_mult_mod_eq)
    qed
  qed
qed

lemma nat_to_string_length: "n < 10 ^ Suc k \<Longrightarrow> length (nat_to_string n) \<le> Suc k"
proof (induction k arbitrary: n)
  case (Suc k)
  have "n div 10 < 10 ^ Suc k" using Suc.prems by (simp add: div_less_iff_less_mult)
  from Suc.IH[OF this] show ?case by (simp add: nat_to_string.simps[of n])
qed (simp add: nat_to_string.simps)

lemma int_to_string_length: "is_int i \<Longrightarrow> length (int_to_string i) \<le> 11"
proof -
  assume "is_int i"
  then have "nat (- i) < 10 ^ Suc 9" "nat i < 10 ^ Suc 9"
    by (auto simp: is_int_def INT_MIN_def INT_MAX_def)
  then show ?thesis
    using nat_to_string_length[of "nat (- i)" 9] nat_to_string_length[of "nat i" 9]
    by (simp add: int_to_string_def)
qed

lemma digit_not: "d < 10 \<Longrightarrow> digit_char d \<noteq> CHR '' '' \<and> digit_char d \<noteq> CHR ''-'' \<and> digit_char d \<noteq> CHR ''u''"
  using of_char_digit[of d] by auto

lemma nat_to_string_hd: "hd (nat_to_string n) \<noteq> CHR ''-'' \<and> hd (nat_to_string n) \<noteq> CHR ''u''"
  using nat_to_string_chars[of "hd (nat_to_string n)" n] digit_not by (metis hd_in_set nat_to_string_Nil)

lemma int_to_string_space: "CHR '' '' \<notin> set (int_to_string i)"
  using nat_to_string_chars[of "CHR '' ''"] digit_not by (auto simp: int_to_string_def) metis+

lemma int_to_string_inj: "int_to_string i = int_to_string j \<Longrightarrow> i = j"
proof -
  assume eq: "int_to_string i = int_to_string j"
  show "i = j"
    using eq nat_to_string_hd[of "nat i"] nat_to_string_hd[of "nat j"]
      nat_to_string_inj[of "nat i" "nat j"] nat_to_string_inj[of "nat (- i)" "nat (- j)"]
    by (auto simp: int_to_string_def split: if_splits) (metis list.sel(1))+
qed

lemma nat_to_string_digits_length:
  "10 ^ k \<le> n \<Longrightarrow> n < 10 ^ Suc k \<Longrightarrow> length (nat_to_string n) = Suc k"
proof (induction k arbitrary: n)
  case (Suc k)
  then have "10 ^ k \<le> n div 10" "n div 10 < 10 ^ Suc k" by (simp_all add: div_less_iff_less_mult less_eq_div_iff_mult_less_eq)
  moreover have "\<not> n < 10" using Suc.prems(1) one_le_power[of "10 :: nat" k] unfolding power_Suc by linarith
  ultimately show ?case using Suc.IH[of "n div 10"] by (simp add: nat_to_string.simps[of n])
qed (simp add: nat_to_string.simps)

lemma digit_char_0 [simp]: "digit_char 0 = CHR ''0''"
  by code_simp

lemma nat_to_string_mult:
  "0 < n \<Longrightarrow> nat_to_string (n * 10 ^ j) = nat_to_string n @ replicate j (CHR ''0'')"
proof (induction j)
  case (Suc j)
  have "\<not> n * 10 ^ Suc j < 10" "n * 10 ^ Suc j div 10 = n * 10 ^ j" "n * 10 ^ Suc j mod 10 = 0"
    using Suc.prems by (simp_all add: not_less)
  then have "nat_to_string (n * 10 ^ Suc j) = nat_to_string (n * 10 ^ j) @ [CHR ''0'']"
    by (simp only: nat_to_string.simps[of "n * 10 ^ Suc j"] if_False digit_char_0)
  with Suc show ?case by (simp add: replicate_append_same)
qed simp

section \<open>Reading numbers: \<open>strtod\<close>\<close>

text \<open>
  The longest prefix that is a decimal number, its value and its length. Values are exact, as
  for all doubles here.
\<close>

definition is_digit :: "char \<Rightarrow> bool" where
  "is_digit c \<longleftrightarrow> 48 \<le> (of_char c :: nat) \<and> (of_char c :: nat) \<le> 57"

definition nat_of_digits :: "string \<Rightarrow> nat" where
  "nat_of_digits ds = foldl (\<lambda>n c. 10 * n + (of_char c - 48)) 0 ds"

definition split_sign :: "string \<Rightarrow> bool \<times> nat \<times> string" where
  "split_sign s =
     (case s of
        [] \<Rightarrow> (False, 0, [])
      | c # cs \<Rightarrow>
          (if c = CHR ''-'' then (True, 1, cs)
           else if c = CHR ''+'' then (False, 1, cs) else (False, 0, s)))"

definition split_exponent :: "string \<Rightarrow> int \<times> nat" where
  "split_exponent s =
     (case s of
        [] \<Rightarrow> (0, 0)
      | c # cs \<Rightarrow>
          (if c = CHR ''e'' \<or> c = CHR ''E'' then
             (case split_sign cs of
                (neg, n, r) \<Rightarrow>
                  (let ds = takeWhile is_digit r in
                   if ds = [] then (0, 0)
                   else (if neg then - int (nat_of_digits ds) else int (nat_of_digits ds),
                         1 + n + length ds)))
           else (0, 0)))"

definition split_fraction :: "string \<Rightarrow> string \<times> nat" where
  "split_fraction s =
     (case s of
        [] \<Rightarrow> ([], 0)
      | c # cs \<Rightarrow>
          (if c = CHR ''.'' then (let ds = takeWhile is_digit cs in (ds, Suc (length ds))) else ([], 0)))"

definition strtod :: "string \<Rightarrow> double \<times> nat" where
  "strtod s =
     (case split_sign s of
        (neg, n, r) \<Rightarrow>
          (let ip = takeWhile is_digit r; r = drop (length ip) r in
           case split_fraction r of
             (fp, k) \<Rightarrow>
               (if ip = [] \<and> fp = [] then (0, 0)
                else
                  (case split_exponent (drop k r) of
                     (e, l) \<Rightarrow>
                       (let v = of_nat (nat_of_digits (ip @ fp)) * 10 powi (e - int (length fp))
                        in (if neg then - v else v, n + length ip + k + l))))))"

lemma split_sign_length: "split_sign s = (neg, n, r) \<Longrightarrow> n + length r = length s"
  by (cases s) (auto simp: split_sign_def split: if_splits)

lemma split_fraction_length: "split_fraction s = (fp, k) \<Longrightarrow> k \<le> length s"
  by (cases s) (auto simp: split_fraction_def Let_def length_takeWhile_le split: if_splits)

lemma split_exponent_length: "split_exponent s = (e, l) \<Longrightarrow> l \<le> length s"
proof (cases s)
  case (Cons c cs)
  assume "split_exponent s = (e, l)"
  moreover obtain neg n r where sg: "split_sign cs = (neg, n, r)" by (metis prod_cases3)
  ultimately show ?thesis
    using Cons split_sign_length[OF sg] length_takeWhile_le[of is_digit r]
    by (auto simp: split_exponent_def Let_def split: if_splits)
qed (simp add: split_exponent_def)

lemma strtod_length: "snd (strtod s) \<le> length s"
proof -
  obtain neg n r where sg: "split_sign s = (neg, n, r)" by (metis prod_cases3)
  let ?ip = "takeWhile is_digit r"
  obtain fp k where fr: "split_fraction (drop (length ?ip) r) = (fp, k)" by fastforce
  obtain e l where ex: "split_exponent (drop (k + length ?ip) r) = (e, l)" by fastforce
  show ?thesis
    using split_sign_length[OF sg] split_fraction_length[OF fr] split_exponent_length[OF ex]
      length_takeWhile_le[of is_digit r]
    by (auto simp: strtod_def sg fr ex Let_def)
qed

lemma is_digit_digit_char: "d < 10 \<Longrightarrow> is_digit (digit_char d)"
  by (simp add: is_digit_def of_char_digit)

lemma nat_to_string_is_digit: "c \<in> set (nat_to_string n) \<Longrightarrow> is_digit c"
  using nat_to_string_chars is_digit_digit_char by blast

lemma nat_of_digits_append: "nat_of_digits (xs @ [c]) = 10 * nat_of_digits xs + (of_char c - 48)"
  by (simp add: nat_of_digits_def)

lemma nat_of_digits_nat_to_string [simp]: "nat_of_digits (nat_to_string n) = n"
proof (induction n rule: nat_to_string.induct)
  case (1 n)
  show ?case
  proof (cases "n < 10")
    case True
    then show ?thesis by (simp add: nat_to_string.simps[of n] nat_of_digits_def of_char_digit)
  next
    case False
    have "of_char (digit_char (n mod 10)) = 48 + n mod 10" by (rule of_char_digit) simp
    with 1[OF False] False show ?thesis
      by (simp add: nat_to_string.simps[of n] nat_of_digits_append)
  qed
qed

text \<open>An integer is read back, whatever follows that is not part of a number.\<close>

definition number_char :: "char \<Rightarrow> bool" where
  "number_char c \<longleftrightarrow> is_digit c \<or> c \<in> {CHR ''+'', CHR ''-'', CHR ''e'', CHR ''E'', CHR ''.''}"

lemma strtod_int: "strtod (int_to_string i) = (of_int i, length (int_to_string i))"
proof -
  have tw: "takeWhile is_digit (nat_to_string n) = nat_to_string n" for n
    using nat_to_string_is_digit by (simp add: takeWhile_eq_all_conv)
  have hd: "hd (nat_to_string n) \<noteq> CHR ''-'' \<and> hd (nat_to_string n) \<noteq> CHR ''+''" for n
  proof -
    have "is_digit (hd (nat_to_string n))" using nat_to_string_is_digit[of "hd (nat_to_string n)" n] by simp
    then show ?thesis by (auto simp: is_digit_def)
  qed
  have sg: "split_sign (nat_to_string n) = (False, 0, nat_to_string n)" for n
    using hd[of n] by (cases "nat_to_string n") (simp_all add: split_sign_def)
  show ?thesis
  proof (cases "i < 0")
    case True
    then have "of_nat (nat (- i)) = (- of_int i :: rat)" by (simp add: of_nat_nat)
    with True show ?thesis
      by (simp add: int_to_string_def strtod_def split_sign_def tw split_fraction_def split_exponent_def Let_def)
  next
    case False
    then have "of_nat (nat i) = (of_int i :: rat)" by (simp add: of_nat_nat)
    with False show ?thesis
      by (simp add: int_to_string_def strtod_def sg tw split_fraction_def split_exponent_def Let_def)
  qed
qed

lemma int_to_string_number_char: "c \<in> set (int_to_string i) \<Longrightarrow> number_char c"
  using nat_to_string_is_digit by (auto simp: int_to_string_def number_char_def split: if_splits)

section \<open>Printing numbers: \<open>%g\<close>\<close>

text \<open>
  The decimal exponent of a positive number and its digits before and after the point. A
  double lies between \<open>10 ^ -324\<close> and \<open>10 ^ 309\<close>, so 400 steps always suffice.
\<close>

fun decimal_scale :: "nat \<Rightarrow> double \<Rightarrow> int \<Rightarrow> double \<times> int" where
  "decimal_scale 0 x e = (x, e)"
| "decimal_scale (Suc n) x e =
     (if x \<ge> 10 then decimal_scale n (x / 10) (e + 1)
      else if x < 1 then decimal_scale n (x * 10) (e - 1) else (x, e))"

definition round_even :: "double \<Rightarrow> int" where
  "round_even y =
     (let f = \<lfloor>y\<rfloor>; r = y - of_int f in
      if r < 1 / 2 \<or> (r = 1 / 2 \<and> even f) then f else f + 1)"

text \<open>The first \<open>p\<close> significant digits, rounded, and the exponent of the first digit.\<close>

definition significant :: "nat \<Rightarrow> double \<Rightarrow> nat \<times> int" where
  "significant p x =
     (case decimal_scale 400 x 0 of
        (y, e) \<Rightarrow>
          (let n = nat (round_even (y * 10 ^ (p - 1))) in
           if n = 10 ^ p then (10 ^ (p - 1), e + 1) else (n, e)))"

definition strip_zeros :: "string \<Rightarrow> string" where
  "strip_zeros s = rev (dropWhile (\<lambda>c. c = CHR ''0'') (rev s))"

definition with_point :: "string \<Rightarrow> string \<Rightarrow> string" where
  "with_point ip fp = (if fp = [] then ip else ip @ ''.'' @ fp)"

definition exponent_text :: "int \<Rightarrow> string" where
  "exponent_text e =
     (let ds = nat_to_string (nat \<bar>e\<bar>) in
      ''e'' @ (if e < 0 then ''-'' else ''+'') @ (if length ds < 2 then ''0'' @ ds else ds))"

definition format_pos :: "nat \<Rightarrow> double \<Rightarrow> string" where
  "format_pos p x =
     (case significant p x of
        (n, e) \<Rightarrow>
          (let ds = nat_to_string n in
           if e < -4 \<or> int p \<le> e
           then with_point (take 1 ds) (strip_zeros (drop 1 ds)) @ exponent_text e
           else if 0 \<le> e
           then with_point (take (nat e + 1) ds) (strip_zeros (drop (nat e + 1) ds))
           else with_point ''0'' (strip_zeros (replicate (nat (- e - 1)) (CHR ''0'') @ ds))))"

definition format_g :: "nat \<Rightarrow> double \<Rightarrow> string" where
  "format_g p x =
     (if x = 0 then ''0'' else if x < 0 then ''-'' @ format_pos p (- x) else format_pos p x)"

lemma decimal_scale_pow:
  "10 ^ k \<le> x \<Longrightarrow> x < 10 ^ Suc k \<Longrightarrow> k \<le> n \<Longrightarrow> decimal_scale n x e = (x / 10 ^ k, e + int k)"
proof (induction k arbitrary: n x e)
  case 0
  then show ?case by (cases n) auto
next
  case (Suc k)
  obtain n' where n: "n = Suc n'" "k \<le> n'" using Suc.prems(3) by (cases n) auto
  have "(10 :: rat) * 1 \<le> 10 * 10 ^ k" by (intro mult_left_mono) auto
  with Suc.prems(1) have "x \<ge> 10" unfolding power_Suc by linarith
  moreover have "decimal_scale n' (x / 10) (e + 1) = (x / 10 / 10 ^ k, e + 1 + int k)"
    using Suc.prems n by (intro Suc.IH) (simp_all add: field_simps)
  ultimately show ?case using n by simp
qed

lemma round_even_int [simp]: "round_even (of_int i) = i" "round_even (of_nat n) = int n"
  by (simp_all add: round_even_def)

lemma strip_zeros_replicate [simp]: "strip_zeros (replicate j (CHR ''0'')) = []"
  by (simp add: strip_zeros_def)

text \<open>An integer of at most fifteen digits is printed as its decimal numeral.\<close>

lemma nat_has_digits: "0 < n \<Longrightarrow> \<exists>k. 10 ^ k \<le> n \<and> n < 10 ^ Suc k" for n :: nat
proof (induction n rule: nat_to_string.induct)
  case (1 n)
  show ?case
  proof (cases "n < 10")
    case False
    then have "0 < n div 10" by (simp add: div_greater_zero_iff)
    with 1(1)[OF False] obtain k where "10 ^ k \<le> n div 10" "n div 10 < 10 ^ Suc k" by blast
    then have "10 ^ Suc k \<le> n" "n < 10 ^ Suc (Suc k)"
      by (simp_all add: div_less_iff_less_mult less_eq_div_iff_mult_less_eq)
    then show ?thesis by blast
  qed (use 1 in \<open>auto intro: exI[of _ 0]\<close>)
qed

lemma format_pos_nat:
  assumes "0 < n" and "n < 10 ^ p" and "p \<le> 300"
  shows "format_pos p (of_nat n) = nat_to_string n"
proof -
  obtain k where k: "10 ^ k \<le> n" "n < 10 ^ Suc k" using nat_has_digits[OF assms(1)] by blast
  have kp: "k < p" using k(1) assms(2) by (meson le_less_trans nat_power_less_imp_less zero_less_numeral power_less_imp_less_exp one_less_numeral_iff semiring_norm(76))
  define j where "j = p - 1 - k"
  have p: "p = Suc (k + j)" using kp by (simp add: j_def)
  have bounds: "(10 :: rat) ^ k \<le> of_nat n" "(of_nat n :: rat) < 10 ^ Suc k"
    using k by (metis of_nat_le_iff of_nat_numeral of_nat_power, metis of_nat_less_iff of_nat_numeral of_nat_power)
  have sc: "decimal_scale 400 (of_nat n) 0 = (of_nat n / 10 ^ k, int k)"
    using decimal_scale_pow[OF bounds, of 400 0] kp assms(3) by simp
  have "of_nat n / 10 ^ k * 10 ^ (p - 1) = (of_nat (n * 10 ^ j) :: rat)"
    by (simp add: p power_add)
  then have N: "nat (round_even (of_nat n / 10 ^ k * 10 ^ (p - 1))) = n * 10 ^ j"
    by (simp only: round_even_int nat_int)
  have "n * 10 ^ j < 10 ^ Suc k * 10 ^ j" using k(2) by simp
  then have "n * 10 ^ j \<noteq> 10 ^ p" by (simp add: p power_add)
  then have sig: "significant p (of_nat n) = (n * 10 ^ j, int k)"
    unfolding significant_def sc prod.case Let_def N by simp
  have "length (nat_to_string n) = Suc k" by (rule nat_to_string_digits_length[OF k])
  then show ?thesis
    using kp by (simp add: format_pos_def sig nat_to_string_mult[OF assms(1)] Let_def with_point_def)
qed

lemma format_g_int:
  assumes "\<bar>i\<bar> < 10 ^ p" and "p \<le> 300"
  shows "format_g p (of_int i) = int_to_string i"
proof -
  have "nat \<bar>i\<bar> < 10 ^ p" using assms(1) by (simp add: nat_less_iff)
  moreover have "of_nat (nat (- i)) = (- of_int i :: rat)" if "i < 0" using that by (simp add: of_nat_nat)
  moreover have "of_nat (nat i) = (of_int i :: rat)" if "0 < i" using that by (simp add: of_nat_nat)
  ultimately show ?thesis
    using format_pos_nat[of "nat (- i)" p] format_pos_nat[of "nat i" p] assms(2)
    by (cases "i < 0"; cases "i = 0") (auto simp: format_g_def int_to_string_def nat_to_string.simps[of 0])
qed

text \<open>The printed length of a number in the range of a double.\<close>

lemma decimal_scale_bounds:
  "decimal_scale n x e = (y, e') \<Longrightarrow> 0 < x \<Longrightarrow> x < 10 ^ Suc n \<Longrightarrow>
   0 < y \<and> y < 10 \<and> \<bar>e' - e\<bar> \<le> int n"
proof (induction n arbitrary: x e)
  case (Suc n)
  consider "x \<ge> 10" | "x < 1" | "1 \<le> x" "x < 10" by linarith
  then show ?case
  proof cases
    case 1
    with Suc.prems have "decimal_scale n (x / 10) (e + 1) = (y, e')" "x / 10 < 10 ^ Suc n" by (simp_all add: field_simps)
    from Suc.IH[OF this(1) _ this(2)] 1 show ?thesis by auto
  next
    case 2
    have "(1 :: rat) \<le> 10 ^ n" by simp
    with 2 have "x < 10 ^ n" by (rule less_le_trans)
    then have "x * 10 < 10 ^ Suc n" by simp
    moreover have "decimal_scale n (x * 10) (e - 1) = (y, e')" using 2 Suc.prems by simp
    ultimately show ?thesis using Suc.IH[of "x * 10" "e - 1"] Suc.prems(2) by auto
  qed (use Suc.prems in auto)
qed auto

lemma round_even_le: "y < of_int k \<Longrightarrow> round_even y \<le> k"
proof -
  assume "y < of_int k"
  then have "\<lfloor>y\<rfloor> < k" by (simp add: floor_less_iff)
  then show ?thesis by (simp add: round_even_def Let_def)
qed

lemma significant_bounds:
  assumes "0 < x" and "x < 10 ^ 309" and "0 < p" and "significant p x = (n, e)"
  shows "n < 10 ^ p" and "\<bar>e\<bar> \<le> 401"
proof -
  obtain y e0 where s: "decimal_scale 400 x 0 = (y, e0)" by fastforce
  have "(10 :: rat) ^ 309 \<le> 10 ^ Suc 400" by (rule power_increasing) auto
  then have "x < 10 ^ Suc 400" using assms(2) by linarith
  with decimal_scale_bounds[OF s assms(1)] have y: "0 < y" "y < 10" "\<bar>e0\<bar> \<le> 400" by auto
  obtain k where p: "p = Suc k" using assms(3) by (cases p) auto
  have "y * 10 ^ k < of_int (10 ^ p)" using y(2) by (simp add: p)
  then have "round_even (y * 10 ^ k) \<le> 10 ^ p" by (rule round_even_le)
  then have "nat (round_even (y * 10 ^ k)) \<le> 10 ^ p" by (simp add: nat_le_iff)
  with assms(4) y(3) show "n < 10 ^ p" "\<bar>e\<bar> \<le> 401"
    by (auto simp: significant_def s p Let_def split: if_splits)
qed

lemma nat_to_string_length_le: "n < 10 ^ k \<Longrightarrow> 0 < k \<Longrightarrow> length (nat_to_string n) \<le> k"
proof (cases "n = 0")
  case False
  assume n: "n < 10 ^ k"
  obtain j where j: "10 ^ j \<le> n" "n < 10 ^ Suc j" using nat_has_digits False by blast
  have "(10 :: nat) ^ j < 10 ^ k" using j(1) n by (rule le_less_trans)
  then have "j < k" by (rule power_less_imp_less_exp[rotated]) simp
  with nat_to_string_digits_length[OF j] show ?thesis by simp
qed (simp add: nat_to_string.simps[of 0])

lemma strip_zeros_length: "length (strip_zeros s) \<le> length s"
  unfolding strip_zeros_def using length_dropWhile_le[of _ "rev s"] by simp

lemma with_point_length: "length (with_point ip fp) \<le> length ip + 1 + length fp"
  by (simp add: with_point_def)

lemma exponent_text_length: "\<bar>e\<bar> \<le> 401 \<Longrightarrow> length (exponent_text e) \<le> 5"
proof -
  assume "\<bar>e\<bar> \<le> 401"
  then have "nat \<bar>e\<bar> < 10 ^ 3" by simp
  then have "length (nat_to_string (nat \<bar>e\<bar>)) \<le> 3" by (rule nat_to_string_length_le) simp
  then show ?thesis by (cases "e < 0") (simp_all add: exponent_text_def Let_def)
qed

lemma format_pos_length:
  assumes "0 < x" and "x < 10 ^ 309" and "0 < p"
  shows "length (format_pos p x) \<le> p + 6"
proof -
  obtain n e where s: "significant p x = (n, e)" by fastforce
  note b = significant_bounds[OF assms s]
  define ds where "ds = nat_to_string n"
  have ds: "length ds \<le> p" using nat_to_string_length_le[OF b(1) assms(3)] by (simp add: ds_def)
  have split: "length (with_point (take k ds) (strip_zeros (drop k ds))) \<le> p + 1" for k
    using with_point_length[of "take k ds" "strip_zeros (drop k ds)"] strip_zeros_length[of "drop k ds"] ds by simp
  have frac: "length (with_point ''0'' (strip_zeros (replicate (nat (- e - 1)) (CHR ''0'') @ ds))) \<le> p + 6" if "- 4 \<le> e"
    using with_point_length[of "''0''" "strip_zeros (replicate (nat (- e - 1)) (CHR ''0'') @ ds)"]
      strip_zeros_length[of "replicate (nat (- e - 1)) (CHR ''0'') @ ds"] ds that by simp
  show ?thesis
    using split[of 1] split[of "nat e + 1"] frac exponent_text_length[OF b(2)]
    by (auto simp: format_pos_def s Let_def ds_def[symmetric] simp del: take_Suc drop_Suc)
qed

lemma format_g_length: "\<bar>x\<bar> < 10 ^ 309 \<Longrightarrow> 0 < p \<Longrightarrow> length (format_g p x) \<le> p + 7"
  using format_pos_length[of x p] format_pos_length[of "- x" p] by (auto simp: format_g_def)

text \<open>Only characters that the reader of numbers accepts.\<close>

lemma number_char_digit: "is_digit c \<Longrightarrow> number_char c"
  by (simp add: number_char_def)

lemma strip_zeros_set: "set (strip_zeros s) \<subseteq> set s"
  unfolding strip_zeros_def using set_dropWhileD[of _ _ "rev s"] by auto

lemma number_char_marks [simp]:
  "number_char (CHR ''0'')" "number_char (CHR ''-'')" "number_char (CHR ''+'')"
  "number_char (CHR ''e'')" "number_char (CHR ''.'')"
  by (simp_all add: number_char_def is_digit_def)

lemma exponent_text_chars: "c \<in> set (exponent_text e) \<Longrightarrow> number_char c"
  using number_char_digit[OF nat_to_string_is_digit[of c "nat \<bar>e\<bar>"]]
  by (auto simp: exponent_text_def Let_def split: if_splits)

lemma with_point_chars:
  assumes "\<And>c. c \<in> set ip \<union> set fp \<Longrightarrow> number_char c" and "c \<in> set (with_point ip (strip_zeros fp))"
  shows "number_char c"
  using assms strip_zeros_set[of fp] by (auto simp: with_point_def split: if_splits)

lemma format_pos_chars: "c \<in> set (format_pos p x) \<Longrightarrow> number_char c"
proof -
  assume c: "c \<in> set (format_pos p x)"
  obtain n e where s: "significant p x = (n, e)" by fastforce
  define ds where "ds = nat_to_string n"
  have ds: "d \<in> set ds \<Longrightarrow> number_char d" for d
    using nat_to_string_is_digit number_char_digit by (auto simp: ds_def)
  have split: "d \<in> set (with_point (take k ds) (strip_zeros (drop k ds))) \<Longrightarrow> number_char d" for d k
    using ds by (intro with_point_chars[of "take k ds" "drop k ds" d]) (auto dest: in_set_takeD in_set_dropD)
  have frac: "d \<in> set (with_point ''0'' (strip_zeros (replicate k (CHR ''0'') @ ds))) \<Longrightarrow> number_char d" for d k
    using ds by (intro with_point_chars[of "''0''" "replicate k (CHR ''0'') @ ds" d]) auto
  from c split frac exponent_text_chars show ?thesis
    by (auto simp: format_pos_def s Let_def ds_def[symmetric] simp del: take_Suc drop_Suc split: if_splits)
qed

lemma format_g_chars: "c \<in> set (format_g p x) \<Longrightarrow> number_char c"
  using format_pos_chars by (auto simp: format_g_def split: if_splits)

text \<open>The first character.\<close>

lemma with_point_head: "ip \<noteq> [] \<Longrightarrow> with_point ip fp \<noteq> [] \<and> hd (with_point ip fp) = hd ip"
  by (simp add: with_point_def)

lemma format_pos_head: "format_pos p x \<noteq> [] \<and> is_digit (hd (format_pos p x))"
proof -
  obtain n e where s: "significant p x = (n, e)" by fastforce
  define ds where "ds = nat_to_string n"
  have ds: "ds \<noteq> []" "is_digit (hd ds)"
    using nat_to_string_is_digit[of "hd (nat_to_string n)" n] by (auto simp: ds_def)
  then have hd: "with_point (take (Suc k) ds) fp \<noteq> [] \<and> is_digit (hd (with_point (take (Suc k) ds) fp))" for k fp
    using with_point_head[of "take (Suc k) ds" fp] by (auto simp: hd_take)
  have "with_point ''0'' fp \<noteq> [] \<and> is_digit (hd (with_point ''0'' fp))" for fp
    using with_point_head[of "''0''" fp] by (auto simp: is_digit_def)
  with hd hd[of 0] show ?thesis
    by (auto simp: format_pos_def s Let_def ds_def[symmetric] simp del: take_Suc drop_Suc)
qed

lemma format_g_head: "format_g p x \<noteq> [] \<and> (hd (format_g p x) = CHR ''-'' \<or> is_digit (hd (format_g p x)))"
  using format_pos_head by (auto simp: format_g_def is_digit_def)

end
