(* ===== verification/Cjson_Parse.thy ===== *)
theory Cjson_Parse
  imports Json Decimal
begin

text \<open>
  The JSON reader of \<open>c-sdk-common/src/cJSON.c\<close>, from the bytes of a text to a tree. The input
  is the buffer with its terminator, positions are offsets into it, and every access goes
  through \<open>buffer_at\<close>, which faults outside the buffer; the copy of a string goes through
  \<open>push_byte\<close>, which faults beyond the space that was allocated for it. The loops over the
  elements of an array, the members of an object and the bytes of a string have fuel for as
  many turns as there are bytes; a loop that used it up would end in a fault. Failure of any kind
  (syntax, nesting, memory) is the error return. \<open>valueint\<close>, the saturated copy of a number,
  is not read by the SDK and left out.
\<close>

unbundle bit_operations_syntax

section \<open>The buffer\<close>

definition buffer_at :: "string \<Rightarrow> nat \<Rightarrow> char cmd" where
  "buffer_at bs i = (if i < length bs then cret (bs ! i) else cfault Undefined)"

definition can_read :: "string \<Rightarrow> nat \<Rightarrow> nat \<Rightarrow> bool" where
  "can_read bs off n \<longleftrightarrow> off + n \<le> length bs"

definition can_access_at_index :: "string \<Rightarrow> nat \<Rightarrow> nat \<Rightarrow> bool" where
  "can_access_at_index bs off i \<longleftrightarrow> off + i < length bs"

text \<open>\<open>can_access_at_index(buffer, 0) && buffer_at_offset(buffer)[0] == c\<close>\<close>

definition sees :: "string \<Rightarrow> nat \<Rightarrow> char \<Rightarrow> bool" where
  "sees bs off c \<longleftrightarrow> can_access_at_index bs off 0 \<and> bs ! off = c"

definition sees_text :: "string \<Rightarrow> nat \<Rightarrow> string \<Rightarrow> bool" where
  "sees_text bs off t \<longleftrightarrow> can_read bs off (length t) \<and> take (length t) (drop off bs) = t"

function skip_blanks :: "string \<Rightarrow> nat \<Rightarrow> nat" where
  "skip_blanks bs off =
     (if can_access_at_index bs off 0 \<and> (of_char (bs ! off) :: nat) \<le> 32
      then skip_blanks bs (Suc off) else off)"
  by pat_completeness auto

termination
  by (relation "measure (\<lambda>(bs, off). length bs - off)") (auto simp: can_access_at_index_def)

declare skip_blanks.simps [simp del]

definition buffer_skip_whitespace :: "string \<Rightarrow> nat \<Rightarrow> nat" where
  "buffer_skip_whitespace bs off =
     (let off = skip_blanks bs off in if off = length bs then off - 1 else off)"

definition skip_utf8_bom :: "string \<Rightarrow> nat \<Rightarrow> nat" where
  "skip_utf8_bom bs off =
     (if can_access_at_index bs off 4 \<and> take 3 (drop off bs) = [CHR 0xEF, CHR 0xBB, CHR 0xBF]
      then off + 3 else off)"

section \<open>Numbers\<close>

definition parse_number :: "string \<Rightarrow> nat \<Rightarrow> (json \<times> nat) cmd" where
  "parse_number bs off =
     (let number_c_string = takeWhile number_char (take 63 (drop off bs)) in
      case strtod number_c_string of
        (number, after_end) \<Rightarrow>
          (if after_end = 0 then cnull else cret (JNumber number, off + after_end)))"

section \<open>Strings\<close>

definition hex_digit :: "char \<Rightarrow> nat option" where
  "hex_digit c =
     (let n = of_char c in
      if 48 \<le> n \<and> n \<le> 57 then Some (n - 48)
      else if 65 \<le> n \<and> n \<le> 70 then Some (10 + n - 65)
      else if 97 \<le> n \<and> n \<le> 102 then Some (10 + n - 97)
      else None)"

text \<open>\<open>i\<close> digits are left; an invalid digit makes the result 0.\<close>

primrec hex4_loop :: "nat \<Rightarrow> string \<Rightarrow> nat \<Rightarrow> nat \<Rightarrow> nat cmd" where
  "hex4_loop 0 bs pos h = cret h"
| "hex4_loop (Suc i) bs pos h =
     cbind (buffer_at bs pos) (\<lambda>c.
       case hex_digit c of
         None \<Rightarrow> cret 0
       | Some d \<Rightarrow>
           hex4_loop i bs (Suc pos) (if 0 < i then push_bit 4 (h + d) else h + d))"

definition parse_hex4 :: "string \<Rightarrow> nat \<Rightarrow> nat cmd" where
  "parse_hex4 bs pos = hex4_loop 4 bs pos 0"

text \<open>The loop from the last byte of the encoding to the second.\<close>

primrec utf8_tail :: "nat \<Rightarrow> nat \<Rightarrow> string \<Rightarrow> nat \<times> string" where
  "utf8_tail 0 codepoint out = (codepoint, out)"
| "utf8_tail (Suc n) codepoint out =
     utf8_tail n (drop_bit 6 codepoint) (char_of ((codepoint OR 0x80) AND 0xBF) # out)"

definition utf8_encode :: "nat \<Rightarrow> string option" where
  "utf8_encode codepoint =
     (let spec = (if codepoint < 0x80 then Some (1, 0)
                  else if codepoint < 0x800 then Some (2, 0xC0)
                  else if codepoint < 0x10000 then Some (3, 0xE0)
                  else if codepoint \<le> 0x10FFFF then Some (4, 0xF0)
                  else None)
      in
      case spec of
        None \<Rightarrow> None
      | Some (utf8_length, first_byte_mark) \<Rightarrow>
          (case utf8_tail (utf8_length - 1) codepoint [] of
             (rest, out) \<Rightarrow>
               Some (char_of (if 1 < utf8_length then (rest OR first_byte_mark) AND 0xFF
                              else rest AND 0x7F) # out)))"

text \<open>The result is the length of the sequence, 0 if it is invalid, and the bytes.\<close>

definition utf16_literal_to_utf8 :: "string \<Rightarrow> nat \<Rightarrow> nat \<Rightarrow> (nat \<times> string) cmd" where
  "utf16_literal_to_utf8 bs input_pointer input_end =
     (if input_end - input_pointer < 6 then cret (0, [])
      else
        cbind (parse_hex4 bs (input_pointer + 2)) (\<lambda>first_code.
          if 0xDC00 \<le> first_code \<and> first_code \<le> 0xDFFF then cret (0, [])
          else if 0xD800 \<le> first_code \<and> first_code \<le> 0xDBFF then
            (let second_sequence = input_pointer + 6 in
             if input_end - second_sequence < 6 then cret (0, [])
             else
               cbind (buffer_at bs second_sequence) (\<lambda>c0.
               cbind (buffer_at bs (second_sequence + 1)) (\<lambda>c1.
                 if c0 \<noteq> CHR 0x5C \<or> c1 \<noteq> CHR ''u'' then cret (0, [])
                 else
                   cbind (parse_hex4 bs (second_sequence + 2)) (\<lambda>second_code.
                     if second_code < 0xDC00 \<or> 0xDFFF < second_code then cret (0, [])
                     else
                       (case utf8_encode (0x10000 +
                               (push_bit 10 (first_code AND 0x3FF) OR (second_code AND 0x3FF))) of
                          None \<Rightarrow> cret (0, [])
                        | Some out \<Rightarrow> cret (12, out))))))
          else
            (case utf8_encode first_code of
               None \<Rightarrow> cret (0, [])
             | Some out \<Rightarrow> cret (6, out))))"

text \<open>The first loop of \<open>parse_string\<close>: the closing quote and the number of escapes.\<close>

function string_end :: "string \<Rightarrow> nat \<Rightarrow> nat \<Rightarrow> (nat \<times> nat) option" where
  "string_end bs input_end skipped_bytes =
     (if input_end < length bs \<and> bs ! input_end \<noteq> CHR 0x22 then
        (if bs ! input_end = CHR 0x5C then
           (if length bs \<le> input_end + 1 then None
            else string_end bs (input_end + 2) (Suc skipped_bytes))
         else string_end bs (input_end + 1) skipped_bytes)
      else if length bs \<le> input_end \<or> bs ! input_end \<noteq> CHR 0x22 then None
      else Some (input_end, skipped_bytes))"
  by pat_completeness auto

termination
  by (relation "measure (\<lambda>(bs, i, _). length bs - i)") auto

declare string_end.simps [simp del]

text \<open>Writing into the output, which has \<open>cap\<close> bytes.\<close>

definition push_bytes :: "nat \<Rightarrow> string \<Rightarrow> string \<Rightarrow> string cmd" where
  "push_bytes cap out new =
     (if length out + length new \<le> cap then cret (out @ new) else cfault Undefined)"

definition simple_escape :: "char \<Rightarrow> char option" where
  "simple_escape c =
     (if c = CHR ''b'' then Some (CHR 0x08)
      else if c = CHR ''f'' then Some (CHR 0x0C)
      else if c = CHR ''n'' then Some (CHR 0x0A)
      else if c = CHR ''r'' then Some (CHR 0x0D)
      else if c = CHR ''t'' then Some (CHR 0x09)
      else if c = CHR 0x22 \<or> c = CHR 0x5C \<or> c = CHR ''/'' then Some c
      else None)"

primrec unescape_loop :: "nat \<Rightarrow> string \<Rightarrow> nat \<Rightarrow> nat \<Rightarrow> nat \<Rightarrow> string \<Rightarrow> string cmd" where
  "unescape_loop 0 bs cap input_end input_pointer out =
     (if input_pointer < input_end then cfault OutOfFuel else cret out)"
| "unescape_loop (Suc fuel) bs cap input_end input_pointer out =
     (if input_pointer < input_end then
        cbind (buffer_at bs input_pointer) (\<lambda>c.
          if c \<noteq> CHR 0x5C then
            cbind (push_bytes cap out [c]) (\<lambda>out.
              unescape_loop fuel bs cap input_end (Suc input_pointer) out)
          else if input_end - input_pointer < 1 then cnull
          else
            cbind (buffer_at bs (Suc input_pointer)) (\<lambda>e.
              case simple_escape e of
                Some b \<Rightarrow>
                  cbind (push_bytes cap out [b]) (\<lambda>out.
                    unescape_loop fuel bs cap input_end (input_pointer + 2) out)
              | None \<Rightarrow>
                  (if e = CHR ''u'' then
                     cbind (utf16_literal_to_utf8 bs input_pointer input_end)
                       (\<lambda>(sequence_length, bytes).
                          if sequence_length = 0 then cnull
                          else
                            cbind (push_bytes cap out bytes) (\<lambda>out.
                              unescape_loop fuel bs cap input_end
                                (input_pointer + sequence_length) out))
                   else cnull)))
      else cret out)"

text \<open>
  The string that a caller sees ends at the first zero byte of the output. The space is what
  the first loop computed; the terminator takes the last byte.
\<close>

definition parse_string :: "string \<Rightarrow> nat \<Rightarrow> (string \<times> nat) cmd" where
  "parse_string bs off =
     cbind (buffer_at bs off) (\<lambda>c.
       if c \<noteq> CHR 0x22 then cnull
       else
         (case string_end bs (Suc off) 0 of
            None \<Rightarrow> cnull
          | Some (input_end, skipped_bytes) \<Rightarrow>
              (let allocation_length = (input_end - off) - skipped_bytes in
               cbind LDAlloc (\<lambda>_.
               cbind (unescape_loop (length bs) bs allocation_length input_end (Suc off) []) (\<lambda>out.
                 cret (c_str out, Suc input_end))))))"

section \<open>Values\<close>

type_synonym value_parser = "string \<Rightarrow> nat \<Rightarrow> (json \<times> nat) cmd"

definition CJSON_NESTING_LIMIT :: nat where
  "CJSON_NESTING_LIMIT = 1000"

primrec array_loop :: "nat \<Rightarrow> value_parser \<Rightarrow> string \<Rightarrow> nat \<Rightarrow> json list \<Rightarrow> (json \<times> nat) cmd" where
  "array_loop 0 parse_value bs off items = cfault OutOfFuel"
| "array_loop (Suc fuel) parse_value bs off items =
     cbind LDAlloc (\<lambda>_.
     cbind (parse_value bs (buffer_skip_whitespace bs (Suc off))) (\<lambda>(item, off).
       let off = buffer_skip_whitespace bs off; items = items @ [item] in
       if sees bs off (CHR '','') then array_loop fuel parse_value bs off items
       else if \<not> can_access_at_index bs off 0 \<or> bs ! off \<noteq> CHR '']'' then cnull
       else cret (JArray items, Suc off)))"

text \<open>The offset steps back to the character in front of the first element.\<close>

definition parse_array :: "value_parser \<Rightarrow> value_parser" where
  "parse_array parse_value bs off =
     cbind (buffer_at bs off) (\<lambda>c.
       if c \<noteq> CHR ''['' then cnull
       else
         (let off = buffer_skip_whitespace bs (Suc off) in
          if sees bs off (CHR '']'') then cret (JArray [], Suc off)
          else if \<not> can_access_at_index bs off 0 then cnull
          else array_loop (length bs) parse_value bs (off - 1) []))"

primrec object_loop ::
  "nat \<Rightarrow> value_parser \<Rightarrow> string \<Rightarrow> nat \<Rightarrow> (string \<times> json) list \<Rightarrow> (json \<times> nat) cmd" where
  "object_loop 0 parse_value bs off items = cfault OutOfFuel"
| "object_loop (Suc fuel) parse_value bs off items =
     cbind LDAlloc (\<lambda>_.
     cbind (parse_string bs (buffer_skip_whitespace bs (Suc off))) (\<lambda>(key, off).
       let off = buffer_skip_whitespace bs off in
       if \<not> can_access_at_index bs off 0 \<or> bs ! off \<noteq> CHR '':'' then cnull
       else
         cbind (parse_value bs (buffer_skip_whitespace bs (Suc off))) (\<lambda>(item, off).
           let off = buffer_skip_whitespace bs off; items = items @ [(key, item)] in
           if sees bs off (CHR '','') then object_loop fuel parse_value bs off items
           else if \<not> can_access_at_index bs off 0 \<or> bs ! off \<noteq> CHR ''}'' then cnull
           else cret (JObject items, Suc off))))"

definition parse_object :: "value_parser \<Rightarrow> value_parser" where
  "parse_object parse_value bs off =
     (if \<not> can_access_at_index bs off 0 \<or> bs ! off \<noteq> CHR ''{'' then cnull
      else
        (let off = buffer_skip_whitespace bs (Suc off) in
         if sees bs off (CHR ''}'') then cret (JObject [], Suc off)
         else if \<not> can_access_at_index bs off 0 then cnull
         else object_loop (length bs) parse_value bs (off - 1) []))"

text \<open>\<open>parse_value\<close> with the parsers of arrays and objects at the next depth as arguments.\<close>

definition parse_value_with :: "value_parser \<Rightarrow> value_parser \<Rightarrow> value_parser" where
  "parse_value_with pa po bs off =
     (if sees_text bs off ''null'' then cret (JNull, off + 4)
      else if sees_text bs off ''false'' then cret (JBool False, off + 5)
      else if sees_text bs off ''true'' then cret (JBool True, off + 4)
      else if sees bs off (CHR 0x22)
      then cbind (parse_string bs off) (\<lambda>(s, off). cret (JText s, off))
      else if can_access_at_index bs off 0 \<and> (bs ! off = CHR ''-'' \<or> is_digit (bs ! off))
      then parse_number bs off
      else if sees bs off (CHR ''['') then pa bs off
      else if sees bs off (CHR ''{'') then po bs off
      else cnull)"

text \<open>The argument is the number of further levels that the nesting limit allows.\<close>

fun parse_value :: "nat \<Rightarrow> value_parser" where
  "parse_value 0 bs off = parse_value_with (\<lambda>bs off. cnull) (\<lambda>bs off. cnull) bs off"
| "parse_value (Suc depth) bs off =
     parse_value_with (parse_array (parse_value depth)) (parse_object (parse_value depth)) bs off"

declare parse_value.simps [simp del]

text \<open>The result is the tree and where parsing ended.\<close>

definition cJSON_ParseWithOpts :: "string \<Rightarrow> bool \<Rightarrow> (json \<times> nat) cmd" where
  "cJSON_ParseWithOpts text_bytes require_null_terminated =
     (let bs = text_bytes @ [nul] in
      cbind LDAlloc (\<lambda>_.
      cbind (parse_value CJSON_NESTING_LIMIT bs (buffer_skip_whitespace bs (skip_utf8_bom bs 0)))
        (\<lambda>(item, off).
           if require_null_terminated then
             (let off = buffer_skip_whitespace bs off in
              if length bs \<le> off \<or> bs ! off \<noteq> nul then cnull else cret (item, off))
           else cret (item, off))))"

definition cJSON_Parse :: "string \<Rightarrow> json cmd" where
  "cJSON_Parse s = cbind (cJSON_ParseWithOpts s False) (\<lambda>(item, _). cret item)"

section \<open>Lemmas: positions\<close>

lemma can_access_iff [simp]: "can_access_at_index bs off 0 \<longleftrightarrow> off < length bs"
  by (simp add: can_access_at_index_def)

lemma ensures_buffer_at: "off < length bs \<Longrightarrow> ensures (buffer_at bs off) (\<lambda>c. c = bs ! off)"
  by (simp add: buffer_at_def)

lemma skip_blanks_bounds: "off \<le> skip_blanks bs off \<and> (off \<le> length bs \<longrightarrow> skip_blanks bs off \<le> length bs)"
proof (induction bs off rule: skip_blanks.induct)
  case (1 bs off)
  then show ?case by (subst (1 2) skip_blanks.simps) auto
qed

lemma skip_whitespace_bounds:
  assumes "off \<le> length bs" and "bs \<noteq> []"
  shows "buffer_skip_whitespace bs off < length bs" and "off \<le> Suc (buffer_skip_whitespace bs off)"
  using skip_blanks_bounds[of off bs] assms
  by (cases "length bs"; auto simp: buffer_skip_whitespace_def Let_def)+

text \<open>A character that is not a blank is never skipped.\<close>

lemma skip_whitespace_sees:
  assumes "off \<le> length bs" and "bs \<noteq> []" and "last bs = nul"
    and "sees bs (buffer_skip_whitespace bs off) c" and "32 < (of_char c :: nat)"
  shows "off \<le> buffer_skip_whitespace bs off"
proof (cases "skip_blanks bs off = length bs")
  case True
  then have "c = bs ! (length bs - 1)"
    using assms(4) by (simp add: buffer_skip_whitespace_def sees_def)
  then have "c = nul" using assms(2,3) by (simp add: last_conv_nth)
  with assms(5) show ?thesis by simp
qed (use skip_blanks_bounds[of off bs] in \<open>simp add: buffer_skip_whitespace_def\<close>)

section \<open>Lemmas: strings stay inside their buffers\<close>

lemma utf8_tail_length: "length (snd (utf8_tail n cp out)) = n + length out"
  by (induction n arbitrary: cp out) auto

lemma utf8_encode_length:
  "utf8_encode cp = Some out \<Longrightarrow> 1 \<le> length out \<and> length out \<le> 4 \<and> (cp < 0x10000 \<longrightarrow> length out \<le> 3)"
  using utf8_tail_length[of 1 cp "[]"] utf8_tail_length[of 2 cp "[]"] utf8_tail_length[of 3 cp "[]"]
  by (auto simp: utf8_encode_def Let_def split: if_splits prod.splits)

lemma hex_digit_bound: "hex_digit c = Some d \<Longrightarrow> d < 16"
  by (auto simp: hex_digit_def Let_def split: if_splits)

lemma hex4_loop_safe:
  "pos + Suc j \<le> length bs \<Longrightarrow> j \<le> 3 \<Longrightarrow> k < 16 ^ (3 - j) \<Longrightarrow>
   ensures (hex4_loop (Suc j) bs pos (16 * k)) (\<lambda>h. h < 16 ^ 4)"
proof (induction j arbitrary: pos k)
  case 0
  have "16 * k + d < 16 ^ 4" if "hex_digit c = Some d" for c d
    using hex_digit_bound[OF that] 0(3) by simp
  then show ?case
    unfolding hex4_loop.simps using 0(1)
    by (intro ensures_cbind[OF ensures_buffer_at]) (auto split: option.split)
next
  case (Suc j)
  have step: "ensures (hex4_loop (Suc j) bs (Suc pos) (push_bit 4 (16 * k + d))) (\<lambda>h. h < 16 ^ 4)"
    if "hex_digit c = Some d" for c d
  proof -
    have "3 - j = Suc (3 - Suc j)" using Suc.prems(2) by simp
    then have "16 * k + d < 16 ^ (3 - j)" using Suc.prems(3) hex_digit_bound[OF that] by simp
    moreover have "push_bit 4 (16 * k + d) = 16 * (16 * k + d)" by (simp add: push_bit_eq_mult)
    ultimately show ?thesis using Suc.IH[of "Suc pos" "16 * k + d"] Suc.prems by simp
  qed
  show ?case
    unfolding hex4_loop.simps(2)[of "Suc j"] using Suc.prems(1) step
    by (intro ensures_cbind[OF ensures_buffer_at]) (auto split: option.split)
qed

lemma parse_hex4_safe: "pos + 4 \<le> length bs \<Longrightarrow> ensures (parse_hex4 bs pos) (\<lambda>h. h < 0x10000)"
  using hex4_loop_safe[of pos 3 bs 0] by (simp add: parse_hex4_def)

lemma utf16_safe:
  assumes "e < length bs"
  shows "ensures (utf16_literal_to_utf8 bs i e) (\<lambda>(n, out). n = 0 \<or>
    (n = 6 \<and> i + 6 \<le> e \<and> length out \<le> 3) \<or> (n = 12 \<and> i + 12 \<le> e \<and> length out \<le> 4))"
  unfolding utf16_literal_to_utf8_def Let_def
  using assms
  by (intro ensures_if ensures_cbind[OF parse_hex4_safe] ensures_cbind[OF ensures_buffer_at])
    (auto split: option.split dest: utf8_encode_length)

subsection \<open>The space for a string suffices\<close>

text \<open>
  The first loop steps over escapes by pairs; the second can leave this rhythm after a
  malformed \<open>\u\<close> sequence. \<open>quote_state\<close> says where the first loop stands at a position the
  second has reached: at a pair's start, or (\<open>w\<close>) inside a pair; \<open>k\<close> escapes are left.
\<close>

lemma string_end_shift: "string_end bs i s = map_option (\<lambda>(e, k). (e, k + s)) (string_end bs i 0)"
proof (induction "length bs - i" arbitrary: i s rule: less_induct)
  case less
  have IH: "string_end bs j t = map_option (\<lambda>(e, k). (e, k + t)) (string_end bs j 0)"
    if "i < j" "i < length bs" for j t
    using that by (intro less) simp
  have two: "string_end bs (i + 2) (Suc s) = map_option (\<lambda>(e, k). (e, k + s)) (string_end bs (i + 2) (Suc 0))"
    if "i < length bs"
    using IH[of "i + 2" "Suc s"] IH[of "i + 2" "Suc 0"] that
    by (auto simp: option.map_comp comp_def case_prod_unfold)
  show ?case
    using IH[of "i + 1" s] two by (subst (1 2) string_end.simps) auto
qed

definition quote_state :: "string \<Rightarrow> nat \<Rightarrow> nat \<Rightarrow> nat \<Rightarrow> bool \<Rightarrow> bool" where
  "quote_state bs e i k w \<longleftrightarrow>
     (if w then i < e \<and> string_end bs (Suc i) 0 = Some (e, k) else string_end bs i 0 = Some (e, k))"

lemma string_end_bounds: "string_end bs i s = Some (e, k) \<Longrightarrow> i \<le> e \<and> e < length bs"
proof (induction bs i s arbitrary: e k rule: string_end.induct)
  case (1 bs i s)
  from 1(3) 1(1)[of e k] 1(2)[of e k] show ?case
    unfolding string_end.simps[of bs i s] by (auto split: if_splits)
qed

lemma quote_advance:
  assumes "quote_state bs e i k w" and "i < e"
  shows "\<exists>k' w'. quote_state bs e (Suc i) k' w' \<and> k' \<le> k \<and> 2 * (k - k') + of_bool w \<le> 1 + of_bool w' \<and>
    (bs ! i \<noteq> CHR 0x5C \<longrightarrow> k' = k)"
proof (cases w)
  case True
  with assms show ?thesis by (intro exI[of _ k] exI[of _ False]) (auto simp: quote_state_def)
next
  case w: False
  then have se: "string_end bs i 0 = Some (e, k)" using assms by (simp add: quote_state_def)
  have len: "i < length bs" using string_end_bounds[OF se] assms(2) by simp
  show ?thesis
  proof (cases "bs ! i = CHR 0x5C")
    case True
    with se len have "string_end bs (i + 2) (Suc 0) = Some (e, k)"
      by (subst (asm) string_end.simps) (auto split: if_splits)
    then obtain k' where k': "string_end bs (i + 2) 0 = Some (e, k')" "k = Suc k'"
      using string_end_shift[of bs "i + 2" "Suc 0"] by (cases "string_end bs (i + 2) 0") auto
    with True w string_end_bounds[OF k'(1)] show ?thesis
      by (intro exI[of _ k'] exI[of _ True]) (auto simp: quote_state_def)
  next
    case False
    with se len assms(2) have "string_end bs (i + 1) 0 = Some (e, k)"
      by (subst (asm) string_end.simps) (auto split: if_splits)
    with False show ?thesis by (intro exI[of _ k] exI[of _ False]) (auto simp: quote_state_def)
  qed
qed

lemma quote_advance_many:
  assumes "quote_state bs e i k w" and "i + n \<le> e"
  shows "\<exists>k' w'. quote_state bs e (i + n) k' w' \<and> k' \<le> k \<and> 2 * (k - k') + of_bool w \<le> n + of_bool w'"
  using assms
proof (induction n arbitrary: i k w)
  case (Suc n)
  obtain k1 w1 where 1: "quote_state bs e (Suc i) k1 w1" "k1 \<le> k" "2 * (k - k1) + of_bool w \<le> 1 + of_bool w1"
    using quote_advance[OF Suc.prems(1)] Suc.prems(2) by auto
  obtain k2 w2 where 2: "quote_state bs e (Suc i + n) k2 w2" "k2 \<le> k1" "2 * (k1 - k2) + of_bool w1 \<le> n + of_bool w2"
    using Suc.IH[OF 1(1)] Suc.prems(2) by auto
  with 1 show ?case by (intro exI[of _ k2] exI[of _ w2]) auto
next
  case 0
  then show ?case by (intro exI[of _ k] exI[of _ w]) simp
qed

lemma quote_state_count:
  assumes "quote_state bs e i k w" and "i \<le> e"
  shows "2 * k + of_bool w \<le> e - i"
proof -
  obtain k' w' where q: "quote_state bs e e k' w'" "2 * (k - k') + of_bool w \<le> e - i + of_bool w'" "k' \<le> k"
    using quote_advance_many[OF assms(1), of "e - i"] assms(2) by auto
  from q(1) have "\<not> w'" "string_end bs e 0 = Some (e, k')" by (auto simp: quote_state_def split: if_splits)
  moreover from this(2) have "k' = 0"
    using string_end_bounds[of bs "e + 1" 0 e k'] string_end_bounds[of bs "e + 2" 1 e k']
    by (subst (asm) string_end.simps) (auto split: if_splits)
  ultimately show ?thesis using q(2) by simp
qed

text \<open>What was written and what may still come fits into the space.\<close>

definition space_inv :: "string \<Rightarrow> nat \<Rightarrow> nat \<Rightarrow> nat \<Rightarrow> string \<Rightarrow> bool" where
  "space_inv bs cap e i out \<longleftrightarrow>
     (i < e \<longrightarrow> (\<exists>k w. quote_state bs e i k w \<and> length out + (e - i) + 1 \<le> cap + k))"

lemma space_step:
  assumes inv: "space_inv bs cap e i out" and i: "i < e"
    and n: "i + n \<le> e" "length new + (n + 1) div 2 \<le> n \<or> n = 1 \<and> length new = 1 \<and> bs ! i \<noteq> CHR 0x5C"
  shows "length out + length new \<le> cap" and "space_inv bs cap e (i + n) (out @ new)"
proof -
  obtain k w where k: "quote_state bs e i k w" "length out + (e - i) + 1 \<le> cap + k"
    using inv i by (auto simp: space_inv_def)
  obtain k' w' where k': "quote_state bs e (i + n) k' w'" "length new + (k - k') \<le> n" "k' \<le> k"
  proof (cases "n = 1 \<and> length new = 1 \<and> bs ! i \<noteq> CHR 0x5C")
    case True
    with quote_advance[OF k(1) i] that show ?thesis by fastforce
  next
    case False
    obtain k' w' where q: "quote_state bs e (i + n) k' w'" "k' \<le> k" "2 * (k - k') + of_bool w \<le> n + of_bool w'"
      using quote_advance_many[OF k(1) n(1)] by blast
    then have "k - k' \<le> (n + 1) div 2" by (cases w') auto
    moreover have "length new + (n + 1) div 2 \<le> n" using False n(2) by blast
    ultimately have "length new + (k - k') \<le> n" by linarith
    with q that show ?thesis by blast
  qed
  have "2 * k' \<le> e - (i + n)" using quote_state_count[OF k'(1) n(1)] by simp
  with k k' n(1) show "length out + length new \<le> cap" by linarith
  have "length (out @ new) + (e - (i + n)) + 1 \<le> cap + k'" using k k' n(1) by simp
  with k'(1) show "space_inv bs cap e (i + n) (out @ new)" unfolding space_inv_def by blast
qed

text \<open>An escape at the very end of the literal may also step over the closing quote.\<close>

lemma space_step_pair:
  assumes "space_inv bs cap e i out" and "i < e"
  shows "length out + 1 \<le> cap" and "space_inv bs cap e (i + 2) (out @ [b])"
proof -
  have "length out + 1 \<le> cap \<and> space_inv bs cap e (i + 2) (out @ [b])"
  proof (cases "i + 2 \<le> e")
    case True
    with space_step[OF assms True, of "[b]"] show ?thesis by simp
  next
    case False
    obtain k w where k: "quote_state bs e i k w" "length out + (e - i) + 1 \<le> cap + k"
      using assms by (auto simp: space_inv_def)
    with quote_state_count[OF k(1)] assms(2) False show ?thesis by (auto simp: space_inv_def)
  qed
  then show "length out + 1 \<le> cap" and "space_inv bs cap e (i + 2) (out @ [b])" by blast+
qed

lemma ensures_push:
  "length out + length new \<le> cap \<Longrightarrow> ensures (push_bytes cap out new) (\<lambda>r. r = out @ new)"
  by (simp add: push_bytes_def)

lemma unescape_safe:
  assumes "e < length bs" and "space_inv bs cap e i out" and "e - i \<le> fuel"
  shows "ensures (unescape_loop fuel bs cap e i out) (\<lambda>_. True)"
  using assms(2,3)
proof (induction fuel arbitrary: i out)
  case (Suc fuel)
  show ?case
  proof (cases "i < e")
    case i: True
    note inv = Suc.prems(1)
    have plain: "ensures (cbind (push_bytes cap out [bs ! i]) (\<lambda>out. unescape_loop fuel bs cap e (Suc i) out)) (\<lambda>_. True)"
      if "bs ! i \<noteq> CHR 0x5C"
      using space_step[OF inv i, of 1 "[bs ! i]"] that i Suc.prems(2)
      by (intro ensures_cbind[OF ensures_push] Suc.IH) auto
    have pair: "ensures (cbind (push_bytes cap out [b]) (\<lambda>out. unescape_loop fuel bs cap e (i + 2) out)) (\<lambda>_. True)" for b
      using space_step_pair(1)[OF inv i] space_step_pair(2)[OF inv i, of b] Suc.prems(2)
      by (intro ensures_cbind[OF ensures_push] Suc.IH) auto
    have unicode: "ensures (cbind (utf16_literal_to_utf8 bs i e) (\<lambda>(n, bytes). if n = 0 then cnull
        else cbind (push_bytes cap out bytes) (\<lambda>out. unescape_loop fuel bs cap e (i + n) out))) (\<lambda>_. True)"
    proof (rule ensures_cbind[OF utf16_safe[OF assms(1)]])
      fix r :: "nat \<times> string"
      obtain n bytes where r: "r = (n, bytes)" by fastforce
      assume "case r of (n, out) \<Rightarrow> n = 0 \<or> n = 6 \<and> i + 6 \<le> e \<and> length out \<le> 3 \<or>
        n = 12 \<and> i + 12 \<le> e \<and> length out \<le> 4"
      with r have n: "n = 0 \<or> i + n \<le> e \<and> length bytes + (n + 1) div 2 \<le> n \<and> 6 \<le> n" by auto
      have "ensures (cbind (push_bytes cap out bytes) (\<lambda>out. unescape_loop fuel bs cap e (i + n) out)) (\<lambda>_. True)"
        if "0 < n"
        using n that space_step[OF inv i, of n bytes] Suc.prems(2)
        by (intro ensures_cbind[OF ensures_push] Suc.IH) auto
      then show "ensures (case r of (n, bytes) \<Rightarrow> if n = 0 then cnull
          else cbind (push_bytes cap out bytes) (\<lambda>out. unescape_loop fuel bs cap e (i + n) out)) (\<lambda>_. True)"
        using r by simp
    qed
    show ?thesis
      using i assms(1) plain pair unicode
      by (auto intro!: ensures_cbind[OF ensures_buffer_at] split: option.split)
  qed simp
qed simp

lemma parse_string_safe:
  assumes "off < length bs"
  shows "ensures (parse_string bs off) (\<lambda>(s, off'). off < off' \<and> off' \<le> length bs \<and> nul \<notin> set s)"
proof -
  have body: "ensures (cbind (unescape_loop (length bs) bs (e - off - k) e (Suc off) [])
      (\<lambda>out. cret (c_str out, Suc e))) (\<lambda>(s, off'). off < off' \<and> off' \<le> length bs \<and> nul \<notin> set s)"
    if se: "string_end bs (Suc off) 0 = Some (e, k)" for e k
  proof -
    have b: "Suc off \<le> e" "e < length bs" using string_end_bounds[OF se] by auto
    have q: "quote_state bs e (Suc off) k False" using se by (simp add: quote_state_def)
    have "2 * k \<le> e - Suc off" using quote_state_count[OF q b(1)] by simp
    with q b have "space_inv bs (e - off - k) e (Suc off) []"
      unfolding space_inv_def by (intro impI exI[of _ k] exI[of _ False]) simp
    from unescape_safe[OF b(2) this, of "length bs"] b show ?thesis
      by (intro ensures_cbind[where P = "\<lambda>_. True"]) auto
  qed
  show ?thesis
    unfolding parse_string_def Let_def
    using assms body
    by (intro ensures_cbind[OF ensures_buffer_at] ensures_if) (auto split: option.split intro!: ensures_alloc)
qed

section \<open>Lemmas: values\<close>

text \<open>A tree whose strings are C strings and which is nested at most \<open>depth\<close> levels deep.\<close>

fun json_within :: "nat \<Rightarrow> json \<Rightarrow> bool" where
  "json_within depth (JText s) \<longleftrightarrow> nul \<notin> set s"
| "json_within depth (JArray xs) \<longleftrightarrow> (0 < depth \<and> (\<forall>x \<in> set xs. json_within (depth - 1) x))"
| "json_within depth (JObject xs) \<longleftrightarrow>
     (0 < depth \<and> (\<forall>(k, x) \<in> set xs. nul \<notin> set k \<and> json_within (depth - 1) x))"
| "json_within depth _ \<longleftrightarrow> True"

text \<open>
  A parser of values that, started inside the buffer, stays inside, does not fault and makes
  progress.
\<close>

definition parsed :: "string \<Rightarrow> nat \<Rightarrow> nat \<Rightarrow> json \<times> nat \<Rightarrow> bool" where
  "parsed bs depth off r \<longleftrightarrow> off < snd r \<and> snd r \<le> length bs \<and> json_within depth (fst r)"

definition value_safe :: "string \<Rightarrow> nat \<Rightarrow> value_parser \<Rightarrow> bool" where
  "value_safe bs depth pv \<longleftrightarrow> (\<forall>off < length bs. ensures (pv bs off) (parsed bs depth off))"

lemma parsed_Pair [simp]:
  "parsed bs depth off (j, off') \<longleftrightarrow> off < off' \<and> off' \<le> length bs \<and> json_within depth j"
  by (simp add: parsed_def)

lemma parsed_mono: "parsed bs depth off' r \<Longrightarrow> off \<le> off' \<Longrightarrow> parsed bs depth off r"
  by (simp add: parsed_def)

lemma parse_number_safe:
  "off \<le> length bs \<Longrightarrow> ensures (parse_number bs off) (parsed bs depth off)"
proof -
  assume off: "off \<le> length bs"
  let ?s = "takeWhile number_char (take 63 (drop off bs))"
  have "length ?s \<le> length bs - off"
    using length_takeWhile_le[of number_char "take 63 (drop off bs)"] by simp
  with off strtod_length[of ?s] show ?thesis by (auto simp: parse_number_def Let_def split: prod.splits)
qed

lemma array_loop_safe:
  assumes pv: "value_safe bs depth pv" and bs: "bs \<noteq> []" "last bs = nul"
  shows "off < length bs \<Longrightarrow> length bs - off \<le> fuel \<Longrightarrow> json_within (Suc depth) (JArray items) \<Longrightarrow>
    ensures (array_loop fuel pv bs off items) (parsed bs (Suc depth) off)"
proof (induction fuel arbitrary: off items)
  case (Suc fuel)
  let ?start = "buffer_skip_whitespace bs (Suc off)"
  have start: "?start < length bs" "off \<le> ?start"
    using skip_whitespace_bounds[of "Suc off" bs] Suc.prems(1) bs(1) by auto
  have step: "ensures (let off = buffer_skip_whitespace bs off'; items = items @ [item] in
       if sees bs off (CHR '','') then array_loop fuel pv bs off items
       else if \<not> can_access_at_index bs off 0 \<or> bs ! off \<noteq> CHR '']'' then cnull
       else cret (JArray items, Suc off)) (parsed bs (Suc depth) off)"
    if "?start < off'" "off' \<le> length bs" "json_within depth item" for item off'
  proof -
    let ?off = "buffer_skip_whitespace bs off'"
    have b: "?off < length bs" "off' \<le> Suc ?off" using skip_whitespace_bounds[OF that(2) bs(1)] by auto
    have "off' \<le> ?off" if "sees bs ?off (CHR '','')"
      using skip_whitespace_sees[OF \<open>off' \<le> length bs\<close> bs that] by simp
    then show ?thesis
      using that start b Suc.prems(2,3)
      by (auto simp: Let_def intro!: ensures_mono[OF Suc.IH] elim!: parsed_mono)
  qed
  have "ensures (pv bs ?start) (parsed bs depth ?start)"
    using pv start by (simp add: value_safe_def)
  then show ?case
    unfolding array_loop.simps
    by (intro ensures_alloc, elim ensures_cbind) (use step in auto)
qed simp

lemma object_loop_safe:
  assumes pv: "value_safe bs depth pv" and bs: "bs \<noteq> []" "last bs = nul"
  shows "off < length bs \<Longrightarrow> length bs - off \<le> fuel \<Longrightarrow> json_within (Suc depth) (JObject items) \<Longrightarrow>
    ensures (object_loop fuel pv bs off items) (parsed bs (Suc depth) off)"
proof (induction fuel arbitrary: off items)
  case (Suc fuel)
  let ?start = "buffer_skip_whitespace bs (Suc off)"
  have start: "?start < length bs" "off \<le> ?start"
    using skip_whitespace_bounds[of "Suc off" bs] Suc.prems(1) bs(1) by auto
  have step: "ensures (let off = buffer_skip_whitespace bs off'; items = items @ [(key, item)] in
       if sees bs off (CHR '','') then object_loop fuel pv bs off items
       else if \<not> can_access_at_index bs off 0 \<or> bs ! off \<noteq> CHR ''}'' then cnull
       else cret (JObject items, Suc off)) (parsed bs (Suc depth) off)"
    if "?start < off'" "off' \<le> length bs" "nul \<notin> set key" "json_within depth item" for key item off'
  proof -
    let ?off = "buffer_skip_whitespace bs off'"
    have b: "?off < length bs" "off' \<le> Suc ?off" using skip_whitespace_bounds[OF that(2) bs(1)] by auto
    have "off' \<le> ?off" if "sees bs ?off (CHR '','')"
      using skip_whitespace_sees[OF \<open>off' \<le> length bs\<close> bs that] by simp
    then show ?thesis
      using that start b Suc.prems(2,3)
      by (auto simp: Let_def intro!: ensures_mono[OF Suc.IH] elim!: parsed_mono)
  qed
  have member: "ensures (let off = buffer_skip_whitespace bs off' in
       if \<not> can_access_at_index bs off 0 \<or> bs ! off \<noteq> CHR '':'' then cnull
       else cbind (pv bs (buffer_skip_whitespace bs (Suc off))) (\<lambda>(item, off).
           let off = buffer_skip_whitespace bs off; items = items @ [(key, item)] in
           if sees bs off (CHR '','') then object_loop fuel pv bs off items
           else if \<not> can_access_at_index bs off 0 \<or> bs ! off \<noteq> CHR ''}'' then cnull
           else cret (JObject items, Suc off))) (parsed bs (Suc depth) off)"
    if "?start < off'" "off' \<le> length bs" "nul \<notin> set key" for key off'
  proof -
    let ?off = "buffer_skip_whitespace bs off'"
    let ?val = "buffer_skip_whitespace bs (Suc ?off)"
    have b: "?off < length bs" "off' \<le> Suc ?off" using skip_whitespace_bounds[OF that(2) bs(1)] by auto
    have v: "?val < length bs" "?off \<le> ?val" using skip_whitespace_bounds[of "Suc ?off" bs] b bs(1) by auto
    have "ensures (pv bs ?val) (parsed bs depth ?val)"
      using pv v by (simp add: value_safe_def)
    then show ?thesis
      unfolding Let_def[of ?off]
      by (intro ensures_if, simp, elim ensures_cbind) (use step that b v in auto)
  qed
  show ?case
    unfolding object_loop.simps
    by (intro ensures_alloc ensures_cbind[OF parse_string_safe[OF start(1)]]) (use member in auto)
qed simp


lemma sees_iff: "sees bs off c \<longleftrightarrow> off < length bs \<and> bs ! off = c"
  by (simp add: sees_def)

lemma parse_array_safe:
  assumes "value_safe bs depth pv" and "bs \<noteq> []" and "last bs = nul"
  shows "value_safe bs (Suc depth) (parse_array pv)"
  unfolding value_safe_def
proof (intro allI impI)
  fix off
  assume off: "off < length bs"
  let ?first = "buffer_skip_whitespace bs (Suc off)"
  have b: "?first < length bs" "off \<le> ?first"
    using skip_whitespace_bounds[of "Suc off" bs] off assms(2) by auto
  have "off \<le> ?first - 1" if "off \<noteq> ?first" using b that by simp
  moreover have "ensures (array_loop (length bs) pv bs (?first - 1) []) (parsed bs (Suc depth) off)"
    if "off \<noteq> ?first"
    using that b by (auto intro!: ensures_mono[OF array_loop_safe[OF assms]] elim!: parsed_mono)
  moreover have "off \<noteq> ?first" if "bs ! off = CHR ''[''"
    using skip_whitespace_sees[of "Suc off" bs "CHR ''[''"] that off assms b by (auto simp: sees_iff)
  ultimately show "ensures (parse_array pv bs off) (parsed bs (Suc depth) off)"
    unfolding parse_array_def Let_def using off b
    by (intro ensures_cbind[OF ensures_buffer_at] ensures_if) (auto simp: sees_iff)
qed

lemma parse_object_safe:
  assumes "value_safe bs depth pv" and "bs \<noteq> []" and "last bs = nul"
  shows "value_safe bs (Suc depth) (parse_object pv)"
  unfolding value_safe_def
proof (intro allI impI)
  fix off
  assume off: "off < length bs"
  let ?first = "buffer_skip_whitespace bs (Suc off)"
  have b: "?first < length bs" "off \<le> ?first"
    using skip_whitespace_bounds[of "Suc off" bs] off assms(2) by auto
  have "off \<le> ?first - 1" if "off \<noteq> ?first" using b that by simp
  moreover have "ensures (object_loop (length bs) pv bs (?first - 1) []) (parsed bs (Suc depth) off)"
    if "off \<noteq> ?first"
    using that b by (auto intro!: ensures_mono[OF object_loop_safe[OF assms]] elim!: parsed_mono)
  moreover have "off \<noteq> ?first" if "bs ! off = CHR ''{''"
    using skip_whitespace_sees[of "Suc off" bs "CHR ''{''"] that off assms b by (auto simp: sees_iff)
  ultimately show "ensures (parse_object pv bs off) (parsed bs (Suc depth) off)"
    unfolding parse_object_def Let_def using off b
    by (intro ensures_if) (auto simp: sees_iff)
qed

lemma parse_value_with_safe:
  assumes "value_safe bs depth pa" and "value_safe bs depth po"
  shows "value_safe bs depth (parse_value_with pa po)"
  unfolding value_safe_def
proof (intro allI impI)
  fix off
  assume off: "off < length bs"
  note num = parse_number_safe[OF less_imp_le[OF off], of depth]
  show "ensures (parse_value_with pa po bs off) (parsed bs depth off)"
    unfolding parse_value_with_def using off num assms
    by (intro ensures_if ensures_cbind[OF parse_string_safe[OF off]])
      (auto simp: sees_text_def can_read_def value_safe_def)
qed

lemma parse_value_safe:
  assumes "bs \<noteq> []" and "last bs = nul"
  shows "value_safe bs depth (parse_value depth)"
proof (induction depth)
  case 0
  have "value_safe bs 0 (\<lambda>bs off. cnull)" by (simp add: value_safe_def)
  from parse_value_with_safe[OF this this] show ?case by (simp add: value_safe_def parse_value.simps)
next
  case (Suc depth)
  from parse_value_with_safe[OF parse_array_safe[OF Suc assms] parse_object_safe[OF Suc assms]]
  show ?case by (simp add: value_safe_def parse_value.simps)
qed

lemma skip_utf8_bom_le: "bs \<noteq> [] \<Longrightarrow> skip_utf8_bom bs 0 \<le> length bs"
  by (simp add: skip_utf8_bom_def can_access_at_index_def)

lemma parse_lenient_safe:
  "ensures (cJSON_ParseWithOpts s False)
     (\<lambda>(j, off). 0 < off \<and> off \<le> length s + 1 \<and> json_within CJSON_NESTING_LIMIT j)"
proof -
  let ?bs = "s @ [nul]"
  let ?start = "buffer_skip_whitespace ?bs (skip_utf8_bom ?bs 0)"
  have start: "?start < length ?bs" using skip_utf8_bom_le[of ?bs] by (intro skip_whitespace_bounds(1)) simp_all
  have "ensures (parse_value CJSON_NESTING_LIMIT ?bs ?start) (parsed ?bs CJSON_NESTING_LIMIT ?start)"
    using parse_value_safe[of ?bs CJSON_NESTING_LIMIT] start by (simp add: value_safe_def)
  then show ?thesis
    unfolding cJSON_ParseWithOpts_def Let_def
    by (intro ensures_alloc, elim ensures_cbind) auto
qed

text \<open>Where strict parsing accepts, only blanks follow the value.\<close>

lemma skip_whitespace_end:
  assumes "nul \<notin> set s" and "off \<le> length s + 1" and "(s @ [nul]) ! buffer_skip_whitespace (s @ [nul]) off = nul"
  shows "buffer_skip_whitespace (s @ [nul]) off = length s"
proof -
  let ?n = "buffer_skip_whitespace (s @ [nul]) off"
  have "?n < length (s @ [nul])" using skip_whitespace_bounds(1)[of off "s @ [nul]"] assms(2) by simp
  moreover have "\<not> ?n < length s" using assms(1,3) by (metis nth_append nth_mem)
  ultimately show ?thesis by simp
qed

lemma parse_strict_safe:
  assumes "nul \<notin> set s"
  shows "ensures (cJSON_ParseWithOpts s True) (\<lambda>(j, off). off = length s \<and> json_within CJSON_NESTING_LIMIT j)"
proof -
  have "cJSON_ParseWithOpts s True =
      cbind (cJSON_ParseWithOpts s False) (\<lambda>(item, off).
        let off = buffer_skip_whitespace (s @ [nul]) off in
        if length (s @ [nul]) \<le> off \<or> (s @ [nul]) ! off \<noteq> nul then cnull else cret (item, off))"
    by (rule ext) (auto simp: cJSON_ParseWithOpts_def Let_def cbind_def cret_def split: result.splits prod.splits)
  moreover have "ensures (let off = buffer_skip_whitespace (s @ [nul]) off in
        if length (s @ [nul]) \<le> off \<or> (s @ [nul]) ! off \<noteq> nul then cnull else cret (item, off))
      (\<lambda>(j, off). off = length s \<and> json_within CJSON_NESTING_LIMIT j)"
    if "off \<le> length s + 1" "json_within CJSON_NESTING_LIMIT item" for off item
    using skip_whitespace_end[OF assms that(1)] that(2) by (auto simp: Let_def)
  ultimately show ?thesis
    by (auto intro!: ensures_cbind[OF parse_lenient_safe])
qed

text \<open>An invalid unicode escape is taken for U+0000, which then ends the string.\<close>

lemma invalid_unicode_escape:
  assumes "i + 6 \<le> e" and "e \<le> length bs" and "hex_digit (bs ! (i + 2)) = None"
  shows "utf16_literal_to_utf8 bs i e m = (Val (6, [nul]), m)"
proof -
  have "hex4_loop (Suc 3) bs (i + 2) 0 = cret 0"
    unfolding hex4_loop.simps using assms by (simp add: buffer_at_def fun_eq_iff cbind_def cret_def)
  then have "parse_hex4 bs (i + 2) = cret 0" by (simp add: parse_hex4_def)
  moreover have "utf8_encode 0 = Some [nul]" using char_of_char[of nul, where ?'a = nat] by (simp add: utf8_encode_def)
  ultimately show ?thesis
    using assms(1) by (simp add: utf16_literal_to_utf8_def cbind_def cret_def)
qed

section \<open>Lemmas: the tree does not depend on the allocator\<close>

lemma steady_parse_string [intro!]: "steady (parse_string bs off)"
proof -
  have at: "steady (buffer_at bs i)" for i by (auto simp: buffer_at_def)
  have "steady (hex4_loop n bs pos h)" for n pos h by (induction n arbitrary: pos h) (auto intro!: at)
  then have "steady (utf16_literal_to_utf8 bs i e)" for i e
    unfolding utf16_literal_to_utf8_def parse_hex4_def Let_def by (auto intro!: at)
  then have "steady (unescape_loop n bs cap e i out)" for n cap e i out
    by (induction n arbitrary: i out) (auto intro!: at simp: push_bytes_def)
  then show ?thesis unfolding parse_string_def Let_def by (auto intro!: at)
qed

lemma steady_loops:
  assumes "\<And>off. steady (pv bs off)"
  shows "steady (array_loop n pv bs off items)" and "steady (object_loop n pv bs off members)"
  using assms by (induction n arbitrary: off items members) (auto simp: Let_def)

lemma steady_parse_value [intro!]: "steady (parse_value depth bs off)"
proof -
  have num: "steady (parse_number bs off)" for off unfolding parse_number_def Let_def by auto
  have "steady (parse_value_with pa po bs off)" if "\<And>off. steady (pa bs off)" "\<And>off. steady (po bs off)" for pa po off
    unfolding parse_value_with_def using that num by auto
  moreover have "steady (parse_array pv bs off)" "steady (parse_object pv bs off)" if "\<And>off. steady (pv bs off)" for pv off
    unfolding parse_array_def parse_object_def Let_def buffer_at_def using steady_loops[of pv bs, OF that] by auto
  ultimately show ?thesis
    by (induction depth arbitrary: off) (auto simp: parse_value.simps)
qed

lemma steady_cJSON_Parse [intro!]: "steady (cJSON_Parse s)"
  unfolding cJSON_Parse_def cJSON_ParseWithOpts_def Let_def by auto

section \<open>Properties\<close>

text \<open>C13. Whatever text the service or the application hands over and however the allocator
  answers, \<open>cJSON_ParseWithOpts\<close> terminates, reads only inside the text and its terminator, and
  writes no string beyond the space it allocated for it. The position it reports lies behind at
  least one character and at most behind the terminator; the tree it returns is nested at most
  \<open>CJSON_NESTING_LIMIT\<close> deep and all its strings are C strings. The strict mode accepts only when
  it has consumed the whole text.\<close>

theorem cJSON_Parse_safe:
  "ensures (cJSON_Parse s) (json_within CJSON_NESTING_LIMIT) \<and>
   ensures (cJSON_ParseWithOpts s False)
     (\<lambda>(j, off). 0 < off \<and> off \<le> length s + 1 \<and> json_within CJSON_NESTING_LIMIT j) \<and>
   ensures (cJSON_ParseWithOpts (c_str s) True)
     (\<lambda>(j, off). off = length (c_str s) \<and> json_within CJSON_NESTING_LIMIT j)"
proof (intro conjI)
  show "ensures (cJSON_Parse s) (json_within CJSON_NESTING_LIMIT)"
    unfolding cJSON_Parse_def by (rule ensures_cbind[OF parse_lenient_safe]) auto
qed (use parse_lenient_safe parse_strict_safe in auto)

end
