(* ===== verification/Cjson_Print.thy ===== *)
theory Cjson_Print
  imports Cjson_Parse
begin

text \<open>
  The JSON writer of \<open>c-sdk-common/src/cJSON.c\<close>, from a tree to the bytes of a text. The print
  buffer is modelled byte by byte: a byte is unknown until it is written, a write outside the
  buffer, \<open>strlen\<close> over an unknown byte and copying from behind the end of the buffer are
  faults. The SDK installs its own allocator without a reallocation function
  (\<open>cJSON_InitHooks\<close>), so growing is a new allocation and a copy.

  The reference is \<open>json_text\<close>, the text of a tree as a function of the tree. The lemmas show
  that the writer never leaves its buffer, that what it returns is the reference text, and that
  it does return it when memory suffices and the text is shorter than \<open>INT_MAX\<close>.
\<close>

section \<open>The buffer\<close>

record printbuffer =
  pb_buffer :: "char option list"
  pb_offset :: nat
  pb_depth :: nat
  pb_noalloc :: bool
  pb_format :: bool

abbreviation pb_length :: "printbuffer \<Rightarrow> nat" where
  "pb_length p \<equiv> length (pb_buffer p)"

text \<open>
  The result points to the offset of the buffer that is returned. \<open>LDGlobalInit\<close> installs \<open>LDAlloc\<close> and
  \<open>LDFree\<close> as hooks, whereupon \<open>cJSON_InitHooks\<close> sets \<open>reallocate\<close> to \<open>NULL\<close>: the buffer grows by a new allocation and a copy.
\<close>

definition ensure :: "printbuffer \<Rightarrow> nat \<Rightarrow> printbuffer cmd" where
  "ensure p needed =
     (if 0 < pb_length p \<and> pb_length p \<le> pb_offset p then cnull
      else if INT_MAX < int needed then cnull
      else
        (let needed = needed + pb_offset p + 1 in
         if needed \<le> pb_length p then cret p
         else if pb_noalloc p then cnull
         else if INT_MAX div 2 < int needed \<and> INT_MAX < int needed then cnull
         else
           (let newsize = (if INT_MAX div 2 < int needed then nat INT_MAX else needed * 2) in
            cbind LDAlloc (\<lambda>_.
              if pb_length p < pb_offset p + 1 then cfault Undefined
              else cret (p\<lparr>pb_buffer :=
                take (pb_offset p + 1) (pb_buffer p) @ replicate (newsize - (pb_offset p + 1)) None\<rparr>)))))"

text \<open>Writing bytes from a position on.\<close>

definition put_at :: "nat \<Rightarrow> string \<Rightarrow> printbuffer \<Rightarrow> printbuffer cmd" where
  "put_at i bytes p =
     (if i + length bytes \<le> pb_length p
      then cret (p\<lparr>pb_buffer := take i (pb_buffer p) @ map Some bytes @ drop (i + length bytes) (pb_buffer p)\<rparr>)
      else cfault Undefined)"

primrec c_strlen :: "char option list \<Rightarrow> nat cmd" where
  "c_strlen [] = cfault Undefined"
| "c_strlen (b # bs) =
     (case b of
        None \<Rightarrow> cfault Undefined
      | Some c \<Rightarrow> if c = nul then cret 0 else cbind (c_strlen bs) (\<lambda>n. cret (Suc n)))"

definition update_offset :: "printbuffer \<Rightarrow> printbuffer cmd" where
  "update_offset p =
     cbind (c_strlen (drop (pb_offset p) (pb_buffer p))) (\<lambda>n. cret (p\<lparr>pb_offset := pb_offset p + n\<rparr>))"

definition advance :: "nat \<Rightarrow> printbuffer \<Rightarrow> printbuffer" where
  "advance n p = p\<lparr>pb_offset := pb_offset p + n\<rparr>"

section \<open>Numbers\<close>

text \<open>
  \<open>(d * 0) != 0\<close> holds for the infinities, which stand for all numbers beyond the range of a
  double.
\<close>

definition beyond_double :: "double \<Rightarrow> bool" where
  "beyond_double d \<longleftrightarrow> 10 ^ 309 \<le> \<bar>d\<bar>"

definition number_text :: "double \<Rightarrow> string" where
  "number_text d =
     (if beyond_double d then ''null''
      else
        (let short = format_g 15 d; r = strtod short in
         if snd r = 0 \<or> fst r \<noteq> d then format_g 17 d else short))"

text \<open>\<open>sprintf\<close> writes the text and its terminator into 26 bytes.\<close>

definition print_number :: "double \<Rightarrow> printbuffer \<Rightarrow> printbuffer cmd" where
  "print_number d p =
     (let number_buffer = number_text d; n = length number_buffer in
      if 26 < n + 1 then cfault Undefined
      else
        cbind (ensure p (n + 1)) (\<lambda>p.
        cbind (put_at (pb_offset p) (number_buffer @ [nul]) p) (\<lambda>p.
          cret (advance n p))))"

section \<open>Strings\<close>

definition short_escapes :: "(char \<times> char) list" where
  "short_escapes =
     [(CHR 0x22, CHR 0x22), (CHR 0x5C, CHR 0x5C), (CHR 0x08, CHR ''b''), (CHR 0x0C, CHR ''f''),
      (CHR 0x0A, CHR ''n''), (CHR 0x0D, CHR ''r''), (CHR 0x09, CHR ''t'')]"

primrec escape_count :: "string \<Rightarrow> nat" where
  "escape_count [] = 0"
| "escape_count (c # cs) =
     (if map_of short_escapes c \<noteq> None then 1 else if (of_char c :: nat) < 32 then 5 else 0) + escape_count cs"

definition hex_char :: "nat \<Rightarrow> char" where
  "hex_char d = (if d < 10 then char_of (48 + d) else char_of (87 + d))"

text \<open>\<open>u%04x\<close> of a byte\<close>

definition unicode_text :: "char \<Rightarrow> string" where
  "unicode_text c =
     ''u00'' @ [hex_char (of_char c div 16), hex_char (of_char c mod 16)]"

text \<open>The loop that copies and escapes; \<open>sprintf\<close> also writes a terminator.\<close>

primrec escape_loop :: "string \<Rightarrow> nat \<Rightarrow> printbuffer \<Rightarrow> printbuffer cmd" where
  "escape_loop [] output_pointer p = cret p"
| "escape_loop (c # cs) output_pointer p =
     (if 31 < (of_char c :: nat) \<and> c \<noteq> CHR 0x22 \<and> c \<noteq> CHR 0x5C
      then cbind (put_at output_pointer [c] p) (escape_loop cs (Suc output_pointer))
      else
        cbind (put_at output_pointer [CHR 0x5C] p) (\<lambda>p.
          case map_of short_escapes c of
            Some e \<Rightarrow> cbind (put_at (Suc output_pointer) [e] p) (escape_loop cs (output_pointer + 2))
          | None \<Rightarrow>
              cbind (put_at (Suc output_pointer) (unicode_text c @ [nul]) p)
                (escape_loop cs (output_pointer + 6))))"

definition print_string_ptr :: "cstring \<Rightarrow> printbuffer \<Rightarrow> printbuffer cmd" where
  "print_string_ptr input p =
     (case input of
        None \<Rightarrow>
          cbind (ensure p 3) (\<lambda>p. put_at (pb_offset p) [CHR 0x22, CHR 0x22, nul] p)
      | Some s \<Rightarrow>
          (let chars = c_str s; escape_characters = escape_count chars;
               output_length = length chars + escape_characters
           in
           cbind (ensure p (output_length + 3)) (\<lambda>p.
             let output = pb_offset p in
             if escape_characters = 0
             then put_at output (CHR 0x22 # chars @ [CHR 0x22, nul]) p
             else
               cbind (put_at output [CHR 0x22] p) (\<lambda>p.
               cbind (escape_loop chars (output + 1) p) (\<lambda>p.
                 put_at (output + output_length + 1) [CHR 0x22, nul] p)))))"

section \<open>Values\<close>

definition put_literal :: "string \<Rightarrow> printbuffer \<Rightarrow> printbuffer cmd" where
  "put_literal t p =
     cbind (ensure p (length t + 1)) (\<lambda>p. put_at (pb_offset p) (t @ [nul]) p)"

definition when_format :: "printbuffer \<Rightarrow> string \<Rightarrow> string" where
  "when_format p t = (if pb_format p then t else [])"

text \<open>The separator behind an element, where another follows.\<close>

definition array_separator :: "bool \<Rightarrow> printbuffer \<Rightarrow> printbuffer cmd" where
  "array_separator has_next p =
     (if has_next then
        (let n = (if pb_format p then 2 else 1) in
         cbind (ensure p (n + 1)) (\<lambda>p.
         cbind (put_at (pb_offset p) ('','' @ when_format p '' '' @ [nul]) p) (\<lambda>p.
           cret (advance n p))))
      else cret p)"

text \<open>The brackets of an array around the loop over its elements.\<close>

definition print_array :: "(printbuffer \<Rightarrow> printbuffer cmd) \<Rightarrow> printbuffer \<Rightarrow> printbuffer cmd" where
  "print_array elements p =
     cbind (ensure p 1) (\<lambda>p.
     cbind (put_at (pb_offset p) ''['' p) (\<lambda>p.
     cbind (elements ((advance 1 p)\<lparr>pb_depth := pb_depth p + 1\<rparr>)) (\<lambda>p.
     cbind (ensure p 2) (\<lambda>p.
     cbind (put_at (pb_offset p) ('']'' @ [nul]) p) (\<lambda>p.
       cret (p\<lparr>pb_depth := pb_depth p - 1\<rparr>))))))"

definition member_indent :: "printbuffer \<Rightarrow> printbuffer cmd" where
  "member_indent p =
     (if pb_format p then
        cbind (ensure p (pb_depth p)) (\<lambda>p.
        cbind (put_at (pb_offset p) (replicate (pb_depth p) (CHR 0x09)) p) (\<lambda>p.
          cret (advance (pb_depth p) p)))
      else cret p)"

definition member_colon :: "printbuffer \<Rightarrow> printbuffer cmd" where
  "member_colon p =
     (let n = (if pb_format p then 2 else 1) in
      cbind (ensure p n) (\<lambda>p.
      cbind (put_at (pb_offset p) ('':'' @ when_format p [CHR 0x09]) p) (\<lambda>p.
        cret (advance n p))))"

definition member_separator :: "bool \<Rightarrow> printbuffer \<Rightarrow> printbuffer cmd" where
  "member_separator has_next p =
     (let n = (if pb_format p then 1 else 0) + (if has_next then 1 else 0) in
      cbind (ensure p (n + 1)) (\<lambda>p.
      cbind (put_at (pb_offset p) ((if has_next then '','' else []) @ when_format p [CHR 0x0A] @ [nul]) p) (\<lambda>p.
        cret (advance n p))))"

definition print_object :: "(printbuffer \<Rightarrow> printbuffer cmd) \<Rightarrow> printbuffer \<Rightarrow> printbuffer cmd" where
  "print_object members p =
     (let n = (if pb_format p then 2 else 1) in
      cbind (ensure p (n + 1)) (\<lambda>p.
      cbind (put_at (pb_offset p) (''{'' @ when_format p [CHR 0x0A]) p) (\<lambda>p.
      cbind (members ((advance n p)\<lparr>pb_depth := pb_depth p + 1\<rparr>)) (\<lambda>p.
      cbind (ensure p (if pb_format p then pb_depth p + 1 else 2)) (\<lambda>p.
      cbind (put_at (pb_offset p)
          (when_format p (replicate (pb_depth p - 1) (CHR 0x09)) @ ''}'' @ [nul]) p) (\<lambda>p.
        cret (p\<lparr>pb_depth := pb_depth p - 1\<rparr>)))))))"

text \<open>The loops over the children of an array and of an object recur with \<open>print_value\<close>.\<close>

fun print_value :: "json \<Rightarrow> printbuffer \<Rightarrow> printbuffer cmd"
  and array_elements :: "json list \<Rightarrow> printbuffer \<Rightarrow> printbuffer cmd"
  and object_members :: "(string \<times> json) list \<Rightarrow> printbuffer \<Rightarrow> printbuffer cmd" where
  "print_value JNull p = put_literal ''null'' p"
| "print_value (JBool b) p = put_literal (if b then ''true'' else ''false'') p"
| "print_value (JNumber d) p = print_number d p"
| "print_value (JText s) p = print_string_ptr (Some s) p"
| "print_value (JArray xs) p = print_array (array_elements xs) p"
| "print_value (JObject ms) p = print_object (object_members ms) p"
| "array_elements [] p = cret p"
| "array_elements (x # xs) p =
     cbind (print_value x p) (\<lambda>p.
     cbind (update_offset p) (\<lambda>p.
     cbind (array_separator (xs \<noteq> []) p) (\<lambda>p.
       array_elements xs p)))"
| "object_members [] p = cret p"
| "object_members ((k, x) # ms) p =
     cbind (member_indent p) (\<lambda>p.
     cbind (print_string_ptr (Some k) p) (\<lambda>p.
     cbind (update_offset p) (\<lambda>p.
     cbind (member_colon p) (\<lambda>p.
     cbind (print_value x p) (\<lambda>p.
     cbind (update_offset p) (\<lambda>p.
     cbind (member_separator (ms \<noteq> []) p) (\<lambda>p.
       object_members ms p)))))))"

definition new_printbuffer :: "nat \<Rightarrow> bool \<Rightarrow> bool \<Rightarrow> printbuffer" where
  "new_printbuffer n noalloc format =
     \<lparr>pb_buffer = replicate n None, pb_offset = 0, pb_depth = 0, pb_noalloc = noalloc, pb_format = format\<rparr>"

text \<open>What a caller sees of a buffer: the string at its start.\<close>

definition buffer_string :: "printbuffer \<Rightarrow> string cmd" where
  "buffer_string p =
     cbind (c_strlen (pb_buffer p)) (\<lambda>n. cret (map the (take n (pb_buffer p))))"

definition print :: "json \<Rightarrow> bool \<Rightarrow> string cmd" where
  "print item format =
     cbind LDAlloc (\<lambda>_.
     cbind (print_value item (new_printbuffer 256 False format)) (\<lambda>p.
     cbind (update_offset p) (\<lambda>p.
     cbind LDAlloc (\<lambda>_.
       buffer_string (p\<lparr>pb_buffer :=
         (take (min (pb_length p) (pb_offset p + 1)) (pb_buffer p))[pb_offset p := Some nul]\<rparr>)))))"

definition cJSON_Print :: "json \<Rightarrow> string cmd" where
  "cJSON_Print item = print item True"

definition cJSON_PrintUnformatted :: "json \<Rightarrow> string cmd" where
  "cJSON_PrintUnformatted item = print item False"

definition cJSON_PrintBuffered :: "json \<Rightarrow> int \<Rightarrow> bool \<Rightarrow> string cmd" where
  "cJSON_PrintBuffered item prebuffer fmt =
     (if prebuffer < 0 then cnull
      else
        cbind LDAlloc (\<lambda>_.
        cbind (print_value item (new_printbuffer (nat prebuffer) False fmt)) buffer_string))"

definition cJSON_PrintPreallocated :: "json \<Rightarrow> char option list \<Rightarrow> bool \<Rightarrow> string cmd" where
  "cJSON_PrintPreallocated item buf fmt =
     cbind (print_value item ((new_printbuffer 0 True fmt)\<lparr>pb_buffer := buf\<rparr>)) buffer_string"

section \<open>The reference: the text of a tree\<close>

definition char_text :: "char \<Rightarrow> string" where
  "char_text c =
     (if 31 < (of_char c :: nat) \<and> c \<noteq> CHR 0x22 \<and> c \<noteq> CHR 0x5C then [c]
      else CHR 0x5C # (case map_of short_escapes c of Some e \<Rightarrow> [e] | None \<Rightarrow> unicode_text c))"

definition string_text :: "string \<Rightarrow> string" where
  "string_text s = [CHR 0x22] @ concat (map char_text (c_str s)) @ [CHR 0x22]"

definition tabs :: "bool \<Rightarrow> nat \<Rightarrow> string" where
  "tabs format depth = (if format then replicate depth (CHR 0x09) else [])"

definition pretty :: "bool \<Rightarrow> char \<Rightarrow> string" where
  "pretty format c = (if format then [c] else [])"

fun value_text :: "bool \<Rightarrow> nat \<Rightarrow> json \<Rightarrow> string"
  and elements_text :: "bool \<Rightarrow> nat \<Rightarrow> json list \<Rightarrow> string"
  and members_text :: "bool \<Rightarrow> nat \<Rightarrow> (string \<times> json) list \<Rightarrow> string" where
  "value_text f d JNull = ''null''"
| "value_text f d (JBool b) = (if b then ''true'' else ''false'')"
| "value_text f d (JNumber x) = number_text x"
| "value_text f d (JText s) = string_text s"
| "value_text f d (JArray xs) = ''['' @ elements_text f (d + 1) xs @ '']''"
| "value_text f d (JObject ms) =
     ''{'' @ pretty f (CHR 0x0A) @ members_text f (d + 1) ms @ tabs f d @ ''}''"
| "elements_text f d [] = []"
| "elements_text f d (x # xs) =
     value_text f d x @ (if xs \<noteq> [] then '','' @ pretty f (CHR '' '') else []) @ elements_text f d xs"
| "members_text f d [] = []"
| "members_text f d ((k, x) # ms) =
     tabs f d @ string_text k @ ('':'' @ pretty f (CHR 0x09)) @ value_text f d x
       @ ((if ms \<noteq> [] then '','' else []) @ pretty f (CHR 0x0A)) @ members_text f d ms"

definition json_text :: "bool \<Rightarrow> json \<Rightarrow> string" where
  "json_text format j = value_text format 0 j"

section \<open>Lemmas: the buffer\<close>

definition holds :: "printbuffer \<Rightarrow> string \<Rightarrow> bool" where
  "holds p t \<longleftrightarrow> take (length t) (pb_buffer p) = map Some t"

definition settings :: "printbuffer \<Rightarrow> nat \<times> bool \<times> bool" where
  "settings p = (pb_depth p, pb_noalloc p, pb_format p)"

text \<open>
  \<open>ready\<close>: the offset stands behind the output so far. \<open>printed\<close>: the output so far is
  terminated, the offset may still stand in front of its last part.
\<close>

definition ready :: "printbuffer \<Rightarrow> string \<Rightarrow> bool" where
  "ready p out \<longleftrightarrow> pb_offset p = length out \<and> holds p out \<and> length out < pb_length p"

definition printed :: "printbuffer \<Rightarrow> string \<Rightarrow> bool" where
  "printed p out \<longleftrightarrow> pb_offset p \<le> length out \<and> holds p (out @ [nul])"

lemma holds_length: "holds p t \<Longrightarrow> length t \<le> pb_length p"
  unfolding holds_def by (metis length_map length_take min.cobounded1)

lemma holds_prefix: "holds p (t @ u) \<Longrightarrow> holds p t"
  unfolding holds_def by (metis append_eq_conv_conj length_append length_map map_append min.absorb1 le_add1 take_take)

lemma settings_eq:
  "settings q = settings p \<longleftrightarrow> pb_depth q = pb_depth p \<and> pb_noalloc q = pb_noalloc p \<and> pb_format q = pb_format p"
  by (auto simp: settings_def)

lemma ensure_spec:
  assumes "ready p out" and "b \<Longrightarrow> int (length out + n + 1) \<le> INT_MAX \<and> \<not> pb_noalloc p"
  shows "outcome b (ensure p n) (\<lambda>q. ready q out \<and> length out + n < pb_length q \<and> settings q = settings p)"
proof -
  note r = assms(1)[unfolded ready_def holds_def]
  let ?m = "n + pb_offset p + 1"
  have grow: "ready (p\<lparr>pb_buffer := take (Suc (length out)) (pb_buffer p) @ rest\<rparr>) out" for rest
    using r by (auto simp: ready_def holds_def min_def)
  have size: "?m \<le> (if INT_MAX div 2 < int ?m then nat INT_MAX else ?m * 2)"
    if "\<not> (INT_MAX div 2 < int ?m \<and> INT_MAX < int ?m)" using that by auto
  show ?thesis
    unfolding ensure_def Let_def
    using r assms(2) grow size
    by (auto simp: settings_eq assms(1) intro!: outcome_alloc)
qed

lemma put_spec:
  assumes "holds p pre" and "length (pre @ bytes) \<le> pb_length p"
  shows "outcome b (put_at (length pre) bytes p) (\<lambda>q. holds q (pre @ bytes) \<and> pb_length q = pb_length p
    \<and> pb_offset q = pb_offset p \<and> settings q = settings p)"
  using assms holds_length[OF assms(1)]
  by (auto simp: put_at_def holds_def settings_eq)

lemma emit:
  assumes "ready p out" and "b \<Longrightarrow> int (length out + n + 1) \<le> INT_MAX \<and> \<not> pb_noalloc p"
    and "\<And>q. settings q = settings p \<Longrightarrow> g q = bytes" and "length bytes \<le> n"
    and "\<And>q. holds q (out @ bytes) \<Longrightarrow> length (out @ bytes) < pb_length q \<Longrightarrow> pb_offset q = length out \<Longrightarrow>
      settings q = settings p \<Longrightarrow> outcome b (k q) Q"
  shows "outcome b (cbind (ensure p n) (\<lambda>p. cbind (put_at (pb_offset p) (g p) p) k)) Q"
proof (rule outcome_cbind[OF ensure_spec[OF assms(1,2)]])
  fix q
  assume q: "ready q out \<and> length out + n < pb_length q \<and> settings q = settings p"
  then have "pb_offset q = length out" "holds q out" "g q = bytes" using assms(3) by (auto simp: ready_def)
  moreover have "length (out @ bytes) \<le> pb_length q" using q assms(4) by simp
  ultimately show "outcome b (cbind (put_at (pb_offset q) (g q) q) k) Q"
    using q assms(4) by (auto intro!: outcome_cbind[OF put_spec] assms(5))
qed simp

lemma cbind_cret [simp]: "cbind c cret = c"
  by (rule ext) (auto simp: cbind_def cret_def split: result.splits prod.splits)

text \<open>A piece of text with its terminator, the offset left where it was.\<close>

lemma emit_string:
  assumes "ready p out" and "b \<Longrightarrow> int (length out + n + 1) \<le> INT_MAX \<and> \<not> pb_noalloc p"
    and "length t + 1 \<le> n"
  shows "outcome b (cbind (ensure p n) (\<lambda>p. put_at (pb_offset p) (t @ [nul]) p))
    (\<lambda>q. printed q (out @ t) \<and> settings q = settings p)"
  using emit[OF assms(1,2), of b "\<lambda>_. t @ [nul]" "t @ [nul]" cret "\<lambda>q. printed q (out @ t) \<and> settings q = settings p"]
    assms(3)
  by (auto simp: printed_def)

lemma c_strlen_spec:
  "take (length t + 1) bs = map Some (t @ [nul]) \<Longrightarrow> nul \<notin> set t \<Longrightarrow> c_strlen bs = cret (length t)"
proof (induction t arbitrary: bs)
  case Nil
  then show ?case by (cases bs) auto
next
  case (Cons c t)
  then obtain bs' where "bs = Some c # bs'" "take (length t + 1) bs' = map Some (t @ [nul])"
    by (cases bs) auto
  with Cons show ?case by (auto simp: fun_eq_iff cbind_def cret_def)
qed

lemma update_offset_spec:
  assumes "printed p out" and "nul \<notin> set out"
  shows "outcome b (update_offset p) (\<lambda>q. ready q out \<and> settings q = settings p)"
proof -
  let ?t = "drop (pb_offset p) out"
  have h: "take (length out + 1) (pb_buffer p) = map Some (out @ [nul])" and o: "pb_offset p \<le> length out"
    using assms(1) by (auto simp: printed_def holds_def)
  have "take (length ?t + 1) (drop (pb_offset p) (pb_buffer p)) = drop (pb_offset p) (take (length out + 1) (pb_buffer p))"
    using o by (simp add: drop_take Suc_diff_le)
  also have "\<dots> = map Some (?t @ [nul])" using o unfolding h by (simp add: drop_map)
  finally have "c_strlen (drop (pb_offset p) (pb_buffer p)) = cret (length ?t)"
    using assms(2) by (intro c_strlen_spec) (auto dest: in_set_dropD)
  moreover have "holds p out" "length out < pb_length p"
    using assms(1) holds_prefix holds_length[of p "out @ [nul]"] by (auto simp: printed_def)
  ultimately show ?thesis
    unfolding update_offset_def using o
    by (auto simp: ready_def holds_def settings_eq intro!: outcome_cbind[where P = "\<lambda>n. n = length ?t"])
qed

section \<open>Lemmas: strings and numbers\<close>

lemma short_escapes_printable:
  assumes "31 < (of_char c :: nat)" and "c \<noteq> CHR 0x22" and "c \<noteq> CHR 0x5C"
  shows "map_of short_escapes c = None"
proof -
  have "c \<noteq> CHR 0x08" "c \<noteq> CHR 0x0C" "c \<noteq> CHR 0x0A" "c \<noteq> CHR 0x0D" "c \<noteq> CHR 0x09"
    using assms(1) by auto
  with assms(2,3) show ?thesis by (simp add: short_escapes_def)
qed

lemma char_text_length:
  "length (char_text c) = 1 + (if map_of short_escapes c \<noteq> None then 1 else if (of_char c :: nat) < 32 then 5 else 0)"
proof (cases "31 < (of_char c :: nat) \<and> c \<noteq> CHR 0x22 \<and> c \<noteq> CHR 0x5C")
  case True
  with short_escapes_printable[of c] show ?thesis by (simp add: char_text_def)
next
  case False
  then show ?thesis
    by (auto simp: char_text_def unicode_text_def short_escapes_def split: option.split)
qed

lemma chars_text_length: "length (concat (map char_text cs)) = length cs + escape_count cs"
  by (induction cs) (auto simp: char_text_length)

lemma chars_text_plain: "escape_count cs = 0 \<Longrightarrow> concat (map char_text cs) = cs"
proof (induction cs)
  case (Cons c cs)
  then have "31 < (of_char c :: nat)" "map_of short_escapes c = None" by (auto split: if_splits)
  then have "char_text c = [c]" by (auto simp: char_text_def short_escapes_def split: if_splits)
  with Cons show ?case by (simp split: if_splits)
qed simp

lemma string_text_length: "length (string_text s) = length (c_str s) + escape_count (c_str s) + 2"
  by (simp add: string_text_def chars_text_length)

text \<open>The escaping loop has room for the rest, the closing quote and the terminator.\<close>

lemma escape_loop_spec:
  assumes "holds p pre" and "length pre + length (concat (map char_text cs)) + 2 \<le> pb_length p"
  shows "outcome b (escape_loop cs (length pre) p) (\<lambda>q. holds q (pre @ concat (map char_text cs)) \<and>
    pb_length q = pb_length p \<and> pb_offset q = pb_offset p \<and> settings q = settings p)"
  using assms
proof (induction cs arbitrary: pre p)
  case (Cons c cs)
  let ?Q = "\<lambda>q. holds q (pre @ concat (map char_text (c # cs))) \<and>
    pb_length q = pb_length p \<and> pb_offset q = pb_offset p \<and> settings q = settings p"
  have rest: "outcome b (escape_loop cs (length pre + length (char_text c)) q) ?Q"
    if "holds q (pre @ char_text c)" "pb_length q = pb_length p" "pb_offset q = pb_offset p" "settings q = settings p" for q
    using Cons.IH[OF that(1)] Cons.prems(2) that by (auto intro: outcome_mono)
  show ?case
  proof (cases "31 < (of_char c :: nat) \<and> c \<noteq> CHR 0x22 \<and> c \<noteq> CHR 0x5C")
    case True
    then have t: "char_text c = [c]" by (simp add: char_text_def)
    with Cons.prems(2) have room: "length (pre @ [c]) \<le> pb_length p" by simp
    from True rest[unfolded t] show ?thesis
      by (auto intro!: outcome_cbind[OF put_spec[OF Cons.prems(1) room]])
  next
    case False
    let ?e = "case map_of short_escapes c of Some e \<Rightarrow> [e] | None \<Rightarrow> unicode_text c"
    have t: "char_text c = CHR 0x5C # ?e" using False by (simp add: char_text_def)
    have room: "length (pre @ [CHR 0x5C]) \<le> pb_length p" using Cons.prems(2) by (simp add: t)
    have esc: "outcome b (case map_of short_escapes c of
          Some e \<Rightarrow> cbind (put_at (Suc (length pre)) [e] q) (escape_loop cs (length pre + 2))
        | None \<Rightarrow> cbind (put_at (Suc (length pre)) (unicode_text c @ [nul]) q) (escape_loop cs (length pre + 6))) ?Q"
      if q: "holds q (pre @ [CHR 0x5C])" "pb_length q = pb_length p" "pb_offset q = pb_offset p" "settings q = settings p" for q
    proof (cases "map_of short_escapes c")
      case None
      have "length ((pre @ [CHR 0x5C]) @ unicode_text c @ [nul]) \<le> pb_length q"
        using Cons.prems(2) q(2) None by (simp add: t unicode_text_def)
      note put = put_spec[OF q(1) this]
      have "holds r (pre @ char_text c)" if "holds r ((pre @ [CHR 0x5C]) @ unicode_text c @ [nul])" for r
        using holds_prefix[of r "pre @ char_text c" "[nul]"] that None by (simp add: t)
      moreover have "length (char_text c) = 6" by (simp add: t None unicode_text_def)
      ultimately have "outcome b (cbind (put_at (length (pre @ [CHR 0x5C])) (unicode_text c @ [nul]) q)
          (escape_loop cs (length pre + 6))) ?Q"
        using rest q by (intro outcome_cbind[OF put]) auto
      then show ?thesis by (simp add: None)
    next
      case (Some e)
      have "length ((pre @ [CHR 0x5C]) @ [e]) \<le> pb_length q"
        using Cons.prems(2) q(2) Some by (simp add: t)
      from put_spec[OF q(1) this] rest Some q show ?thesis by (auto simp: t intro!: outcome_cbind)
    qed
    show ?thesis
      using False esc by (auto intro!: outcome_cbind[OF put_spec[OF Cons.prems(1) room]])
  qed
qed simp

lemma number_text_length: "length (number_text d) \<le> 24"
  using format_g_length[of d 15] format_g_length[of d 17]
  by (auto simp: number_text_def beyond_double_def Let_def)

lemma nul_not_number_char: "\<not> number_char nul"
  by (simp add: number_char_def is_digit_def)

lemma nul_not_in_number_text: "nul \<notin> set (number_text d)"
  using format_g_chars[of nul] nul_not_number_char by (auto simp: number_text_def Let_def)

lemma print_number_spec:
  assumes "ready p out" and "b \<Longrightarrow> int (length (out @ number_text d) + 2) \<le> INT_MAX \<and> \<not> pb_noalloc p"
  shows "outcome b (print_number d p) (\<lambda>q. printed q (out @ number_text d) \<and> settings q = settings p)"
proof -
  let ?t = "number_text d"
  have "outcome b (cbind (ensure p (length ?t + 1)) (\<lambda>p. cbind (put_at (pb_offset p) (?t @ [nul]) p)
      (\<lambda>p. cret (advance (length ?t) p)))) (\<lambda>q. printed q (out @ ?t) \<and> settings q = settings p)"
    using assms(2)
    by (intro emit[OF assms(1), where bytes = "?t @ [nul]"])
      (auto simp: advance_def printed_def holds_def settings_eq)
  with number_text_length[of d] show ?thesis by (simp add: print_number_def Let_def)
qed

lemma print_string_spec:
  assumes "ready p out" and "b \<Longrightarrow> int (length (out @ string_text s) + 2) \<le> INT_MAX \<and> \<not> pb_noalloc p"
  shows "outcome b (print_string_ptr (Some s) p) (\<lambda>q. printed q (out @ string_text s) \<and> settings q = settings p)"
proof -
  define cs where "cs = c_str s"
  define n where "n = length cs + escape_count cs"
  have st: "string_text s = [CHR 0x22] @ concat (map char_text cs) @ [CHR 0x22]"
    and len: "length (concat (map char_text cs)) = n"
    by (simp_all add: string_text_def cs_def n_def chars_text_length)
  have b: "b \<Longrightarrow> int (length out + (n + 3) + 1) \<le> INT_MAX \<and> \<not> pb_noalloc p"
    using assms(2) len by (auto simp: st)
  let ?Q = "\<lambda>q. printed q (out @ string_text s) \<and> settings q = settings p"
  show ?thesis
  proof (cases "escape_count cs = 0")
    case True
    then have t: "string_text s @ [nul] = CHR 0x22 # cs @ [CHR 0x22, nul]" by (simp add: st chars_text_plain)
    have "outcome b (cbind (ensure p (n + 3)) (\<lambda>p. put_at (pb_offset p) (string_text s @ [nul]) p)) ?Q"
      using len by (intro emit_string[OF assms(1) b]) (auto simp: st)
    with True show ?thesis by (simp add: print_string_ptr_def Let_def cs_def[symmetric] n_def t)
  next
    case False
    have tail: "outcome b (cbind (escape_loop cs (length out + 1) q) (\<lambda>p. put_at (length out + n + 1) [CHR 0x22, nul] p)) ?Q"
      if q: "holds q (out @ [CHR 0x22])" "length out + (n + 3) < pb_length q" "pb_offset q = length out"
        "settings q = settings p" for q
    proof -
      have "outcome b (escape_loop cs (length (out @ [CHR 0x22])) q) (\<lambda>r. holds r ((out @ [CHR 0x22]) @ concat (map char_text cs)) \<and>
          pb_length r = pb_length q \<and> pb_offset r = pb_offset q \<and> settings r = settings q)"
        using q(2) len by (intro escape_loop_spec[OF q(1)]) auto
      moreover have "outcome b (put_at (length out + n + 1) [CHR 0x22, nul] r) ?Q"
        if "holds r ((out @ [CHR 0x22]) @ concat (map char_text cs))" "pb_length r = pb_length q"
          "pb_offset r = pb_offset q" "settings r = settings q" for r
        using put_spec[OF that(1), of "[CHR 0x22, nul]" b] that q len
        by (auto simp: printed_def st elim!: outcome_mono)
      ultimately show ?thesis by (auto intro: outcome_cbind)
    qed
    have "outcome b (cbind (ensure p (n + 3)) (\<lambda>p. cbind (put_at (pb_offset p) [CHR 0x22] p) (\<lambda>q.
        cbind (escape_loop cs (pb_offset p + 1) q) (\<lambda>r. put_at (pb_offset p + n + 1) [CHR 0x22, nul] r)))) ?Q"
    proof (rule outcome_cbind[OF ensure_spec[OF assms(1) b]])
      fix q
      assume q: "ready q out \<and> length out + (n + 3) < pb_length q \<and> settings q = settings p"
      then have h: "holds q out" "length (out @ [CHR 0x22]) \<le> pb_length q" "pb_offset q = length out"
        by (auto simp: ready_def)
      from q h tail show "outcome b (cbind (put_at (pb_offset q) [CHR 0x22] q) (\<lambda>r.
          cbind (escape_loop cs (pb_offset q + 1) r) (\<lambda>r. put_at (pb_offset q + n + 1) [CHR 0x22, nul] r))) ?Q"
        by (auto intro!: outcome_cbind[OF put_spec[OF h(1,2)]])
    qed auto
    with False show ?thesis by (simp add: print_string_ptr_def Let_def cs_def[symmetric] n_def)
  qed
qed

section \<open>Lemmas: values\<close>

lemma hex_char_not_nul: "d < 16 \<Longrightarrow> hex_char d \<noteq> nul"
proof
  assume "d < 16" "hex_char d = nul"
  then have "(of_char (hex_char d) :: nat) = 0" by simp
  with \<open>d < 16\<close> show False by (auto simp: hex_char_def split: if_splits)
qed

lemma nul_not_in_char_text: "c \<noteq> nul \<Longrightarrow> nul \<notin> set (char_text c)"
proof -
  assume c: "c \<noteq> nul"
  have "(of_char c :: nat) < 256" by simp
  then have d: "(of_char c :: nat) div 16 < 16" by (simp add: div_less_iff_less_mult)
  have "nul \<notin> set (unicode_text c)"
    using hex_char_not_nul[OF d] hex_char_not_nul[of "of_char c mod 16"] by (auto simp: unicode_text_def)
  with c show ?thesis by (auto simp: char_text_def short_escapes_def)
qed

lemma nul_not_in_string_text: "nul \<notin> set (string_text s)"
proof -
  have "nul \<notin> set (char_text c)" if "c \<in> set (c_str s)" for c
    using that by (intro nul_not_in_char_text) (metis c_str_nul)
  then show ?thesis by (auto simp: string_text_def)
qed

lemma nul_not_in_layout: "nul \<notin> set (tabs f d)" "c \<noteq> nul \<Longrightarrow> nul \<notin> set (pretty f c)"
  by (simp_all add: tabs_def pretty_def)

lemma nul_not_in_text:
  "nul \<notin> set (value_text f d j)" "nul \<notin> set (elements_text f d xs)" "nul \<notin> set (members_text f d ms)"
  by (induction f d j and f d xs and f d ms rule: value_text_elements_text_members_text.induct)
    (auto simp: nul_not_in_number_text nul_not_in_string_text nul_not_in_layout)

text \<open>The output with the next piece still fits.\<close>

definition fits :: "bool \<Rightarrow> printbuffer \<Rightarrow> string \<Rightarrow> bool" where
  "fits b p out \<longleftrightarrow> (b \<longrightarrow> int (length out + 2) \<le> INT_MAX \<and> \<not> pb_noalloc p)"

lemma fits_prefix: "fits b p (out @ t) \<Longrightarrow> settings q = settings p \<Longrightarrow> fits b q out"
  by (auto simp: fits_def settings_eq)

lemma fits_emit: "fits b p (out @ t) \<Longrightarrow> n \<le> length t + 1 \<Longrightarrow> b \<Longrightarrow>
    int (length out + n + 1) \<le> INT_MAX \<and> \<not> pb_noalloc p"
  by (auto simp: fits_def)

lemma settings_advance [simp]: "settings (advance n p) = settings p"
  by (simp add: settings_def advance_def)

lemma ready_advance:
  assumes "holds p (out @ t @ u)" and "pb_offset p = length out" and "length (out @ t) < pb_length p"
  shows "ready (advance (length t) p) (out @ t)"
  using holds_prefix[of p "out @ t" u] assms by (simp add: ready_def advance_def holds_def)

lemma emit_advance:
  assumes "ready p out" and "fits b p (out @ t)" and "\<And>q. settings q = settings p \<Longrightarrow> g q = t"
    and "n \<le> length t + 1" and "length t \<le> n" and "\<And>q. settings q = settings p \<Longrightarrow> m q = length t"
  shows "outcome b (cbind (ensure p n) (\<lambda>p. cbind (put_at (pb_offset p) (g p) p) (\<lambda>p. cret (advance (m p) p))))
    (\<lambda>q. ready q (out @ t) \<and> settings q = settings p)"
  using assms(3-6)
  by (intro emit[OF assms(1) fits_emit[OF assms(2)], where bytes = t]) (auto intro!: ready_advance[where u = "[]"])

lemma emit_advance_nul:
  assumes "ready p out" and "fits b p (out @ t)" and "\<And>q. settings q = settings p \<Longrightarrow> g q = t @ [nul]"
    and "n = length t + 1" and "\<And>q. settings q = settings p \<Longrightarrow> m q = length t"
  shows "outcome b (cbind (ensure p n) (\<lambda>p. cbind (put_at (pb_offset p) (g p) p) (\<lambda>p. cret (advance (m p) p))))
    (\<lambda>q. ready q (out @ t) \<and> settings q = settings p)"
  using assms(3-5)
  by (intro emit[OF assms(1) fits_emit[OF assms(2)], where bytes = "t @ [nul]"])
    (auto intro!: ready_advance[where u = "[nul]"])

lemma array_separator_spec:
  assumes "ready p out" and "fits b p (out @ t)" and "t = (if h then '','' @ pretty (pb_format p) (CHR '' '') else [])"
  shows "outcome b (array_separator h p) (\<lambda>q. ready q (out @ t) \<and> settings q = settings p)"
proof (cases h)
  case True
  show ?thesis
    unfolding array_separator_def Let_def if_P[OF True]
    by (rule emit_advance_nul[OF assms(1,2)]) (auto simp: assms(3) True pretty_def settings_eq when_format_def)
qed (use assms in \<open>simp add: array_separator_def\<close>)

lemma member_indent_spec:
  assumes "ready p out" and "fits b p (out @ tabs (pb_format p) (pb_depth p))"
  shows "outcome b (member_indent p) (\<lambda>q. ready q (out @ tabs (pb_format p) (pb_depth p)) \<and> settings q = settings p)"
proof (cases "pb_format p")
  case True
  show ?thesis
    unfolding member_indent_def if_P[OF True]
    by (rule emit_advance[OF assms]) (auto simp: True tabs_def settings_eq)
qed (use assms in \<open>simp add: member_indent_def tabs_def\<close>)

lemma member_colon_spec:
  assumes "ready p out" and "fits b p (out @ t)" and "t = '':'' @ pretty (pb_format p) (CHR 0x09)"
  shows "outcome b (member_colon p) (\<lambda>q. ready q (out @ t) \<and> settings q = settings p)"
  unfolding member_colon_def Let_def
  by (rule emit_advance[OF assms(1,2)]) (auto simp: assms(3) pretty_def settings_eq when_format_def)

lemma member_separator_spec:
  assumes "ready p out" and "fits b p (out @ t)"
    and "t = (if h then '','' else []) @ pretty (pb_format p) (CHR 0x0A)"
  shows "outcome b (member_separator h p) (\<lambda>q. ready q (out @ t) \<and> settings q = settings p)"
  unfolding member_separator_def Let_def
  by (rule emit_advance_nul[OF assms(1,2)]) (auto simp: assms(3) pretty_def settings_eq when_format_def)

definition enters :: "printbuffer \<Rightarrow> printbuffer \<Rightarrow> bool" where
  "enters p q \<longleftrightarrow> pb_depth q = pb_depth p + 1 \<and> pb_noalloc q = pb_noalloc p \<and> pb_format q = pb_format p"

lemma fits_enters: "fits b p (out @ t) \<Longrightarrow> enters p q \<Longrightarrow> fits b q out"
  by (auto simp: fits_def enters_def)

lemma print_array_spec:
  assumes "ready p out" and "fits b p (out @ ''['' @ t @ '']'')"
    and body: "\<And>q. ready q (out @ ''['') \<Longrightarrow> enters p q \<Longrightarrow>
      outcome b (elements q) (\<lambda>r. ready r (out @ ''['' @ t) \<and> settings r = settings q)"
  shows "outcome b (print_array elements p) (\<lambda>q. printed q (out @ ''['' @ t @ '']'') \<and> settings q = settings p)"
proof -
  have close: "outcome b (cbind (ensure r 2) (\<lambda>p. cbind (put_at (pb_offset p) ('']'' @ [nul]) p)
      (\<lambda>p. cret (p\<lparr>pb_depth := pb_depth p - 1\<rparr>)))) (\<lambda>q. printed q (out @ ''['' @ t @ '']'') \<and> settings q = settings p)"
    if r: "ready r (out @ ''['' @ t)" "enters p r" for r
    using fits_enters[of b p "(out @ ''['' @ t)" "'']''" r] assms(2) r(2)
    by (intro emit[OF r(1), where bytes = "'']'' @ [nul]"])
      (auto simp: fits_def printed_def holds_def settings_eq enters_def)
  show ?thesis
    unfolding print_array_def
  proof (rule emit[OF assms(1), where bytes = "''[''"])
    fix q
    assume q: "holds q (out @ ''['')" "length (out @ ''['') < pb_length q" "pb_offset q = length out"
      "settings q = settings p"
    let ?q = "(advance 1 q)\<lparr>pb_depth := pb_depth q + 1\<rparr>"
    have "ready ?q (out @ ''['')" "enters p ?q"
      using q by (auto simp: ready_def advance_def holds_def enters_def settings_eq)
    from body[OF this] close this(2)
    show "outcome b (cbind (elements ?q) (\<lambda>p. cbind (ensure p 2) (\<lambda>p. cbind (put_at (pb_offset p) ('']'' @ [nul]) p)
        (\<lambda>p. cret (p\<lparr>pb_depth := pb_depth p - 1\<rparr>))))) (\<lambda>q. printed q (out @ ''['' @ t @ '']'') \<and> settings q = settings p)"
      by (elim outcome_cbind) (auto simp: enters_def settings_eq)
  qed (use assms(2) in \<open>auto simp: fits_def\<close>)
qed

lemma print_object_spec:
  assumes "ready p out"
    and "fits b p (out @ ''{'' @ pretty f (CHR 0x0A) @ t @ tabs f d @ ''}'')"
    and fd: "f = pb_format p" "d = pb_depth p"
    and body: "\<And>q. ready q (out @ ''{'' @ pretty f (CHR 0x0A)) \<Longrightarrow> enters p q \<Longrightarrow>
      outcome b (members q) (\<lambda>r. ready r (out @ ''{'' @ pretty f (CHR 0x0A) @ t) \<and> settings r = settings q)"
  shows "outcome b (print_object members p)
    (\<lambda>q. printed q (out @ ''{'' @ pretty f (CHR 0x0A) @ t @ tabs f d @ ''}'') \<and> settings q = settings p)"
proof -
  let ?head = "''{'' @ pretty f (CHR 0x0A)"
  let ?Q = "\<lambda>q. printed q (out @ ''{'' @ pretty f (CHR 0x0A) @ t @ tabs f d @ ''}'') \<and> settings q = settings p"
  have close: "outcome b (cbind (ensure r (if pb_format r then pb_depth r + 1 else 2)) (\<lambda>p. cbind (put_at (pb_offset p)
      (when_format p (replicate (pb_depth p - 1) (CHR 0x09)) @ ''}'' @ [nul]) p)
      (\<lambda>p. cret (p\<lparr>pb_depth := pb_depth p - 1\<rparr>)))) ?Q"
    if r: "ready r (out @ ''{'' @ pretty f (CHR 0x0A) @ t)" "enters p r" for r
    using assms(2) r(2)
    by (intro emit[OF r(1), where bytes = "tabs f d @ ''}'' @ [nul]"])
      (auto simp: fits_def fd printed_def holds_def settings_eq enters_def when_format_def tabs_def)
  show ?thesis
    unfolding print_object_def Let_def
  proof (rule emit[OF assms(1), where bytes = ?head])
    fix q
    assume q: "holds q (out @ ?head)" "length (out @ ?head) < pb_length q" "pb_offset q = length out"
      "settings q = settings p"
    let ?q = "(advance (if pb_format p then 2 else 1) q)\<lparr>pb_depth := pb_depth q + 1\<rparr>"
    have "ready ?q (out @ ?head)" "enters p ?q"
      using q by (auto simp: ready_def advance_def holds_def enters_def settings_eq pretty_def fd)
    from body[OF this] close this(2)
    show "outcome b (cbind (members ?q) (\<lambda>p. cbind (ensure p (if pb_format p then pb_depth p + 1 else 2)) (\<lambda>p.
        cbind (put_at (pb_offset p) (when_format p (replicate (pb_depth p - 1) (CHR 0x09)) @ ''}'' @ [nul]) p)
        (\<lambda>p. cret (p\<lparr>pb_depth := pb_depth p - 1\<rparr>))))) ?Q"
      by (elim outcome_cbind) (auto simp: enters_def settings_eq)
  qed (use assms(2) in \<open>auto simp: fits_def fd pretty_def when_format_def settings_eq\<close>)
qed

lemma put_literal_spec:
  assumes "ready p out" and "fits b p (out @ t)"
  shows "outcome b (put_literal t p) (\<lambda>q. printed q (out @ t) \<and> settings q = settings p)"
  unfolding put_literal_def by (rule emit_string[OF assms(1) fits_emit[OF assms(2)]]) auto

text \<open>
  A part of the writer that, in a given setting, appends a given text: \<open>prints\<close> advances the
  offset over it, \<open>prints_value\<close> leaves it terminated.
\<close>

definition prints :: "bool \<Rightarrow> nat \<times> bool \<times> bool \<Rightarrow> (printbuffer \<Rightarrow> printbuffer cmd) \<Rightarrow> string \<Rightarrow> bool" where
  "prints b S c t \<longleftrightarrow> (\<forall>p out. settings p = S \<longrightarrow> ready p out \<longrightarrow> nul \<notin> set out \<longrightarrow> fits b p (out @ t) \<longrightarrow>
     outcome b (c p) (\<lambda>q. ready q (out @ t) \<and> settings q = S))"

definition prints_value :: "bool \<Rightarrow> nat \<times> bool \<times> bool \<Rightarrow> (printbuffer \<Rightarrow> printbuffer cmd) \<Rightarrow> string \<Rightarrow> bool" where
  "prints_value b S c t \<longleftrightarrow> (\<forall>p out. settings p = S \<longrightarrow> ready p out \<longrightarrow> nul \<notin> set out \<longrightarrow> fits b p (out @ t) \<longrightarrow>
     outcome b (c p) (\<lambda>q. printed q (out @ t) \<and> settings q = S))"

lemma printsD:
  "prints b S c t \<Longrightarrow> settings p = S \<Longrightarrow> ready p out \<Longrightarrow> nul \<notin> set out \<Longrightarrow> fits b p (out @ t) \<Longrightarrow>
   outcome b (c p) (\<lambda>q. ready q (out @ t) \<and> settings q = S)"
  by (simp add: prints_def)

lemma prints_cret: "prints b S (\<lambda>p. cret p) []"
  by (simp add: prints_def)

lemma prints_bind:
  assumes "prints b S c t" and "nul \<notin> set t" and "prints b S k u"
  shows "prints b S (\<lambda>p. cbind (c p) k) (t @ u)"
  unfolding prints_def
proof (intro allI impI)
  fix p out
  assume p: "settings p = S" "ready p out" "nul \<notin> set out" "fits b p (out @ t @ u)"
  then have "outcome b (c p) (\<lambda>q. ready q (out @ t) \<and> settings q = S)"
    using assms(1) fits_prefix[of b p "out @ t" u p] by (simp add: prints_def)
  then show "outcome b (cbind (c p) k) (\<lambda>q. ready q (out @ t @ u) \<and> settings q = S)"
  proof (rule outcome_cbind)
    fix q
    assume "ready q (out @ t) \<and> settings q = S"
    with assms(2) p show "outcome b (k q) (\<lambda>q. ready q (out @ t @ u) \<and> settings q = S)"
      using printsD[OF assms(3), of q "out @ t"] fits_prefix[of b p "out @ t @ u" "[]" q] by simp
  qed
qed

lemma prints_update: "prints_value b S c t \<Longrightarrow> nul \<notin> set t \<Longrightarrow> prints b S (\<lambda>p. cbind (c p) update_offset) t"
  unfolding prints_def prints_value_def
  by (intro allI impI, rule outcome_cbind, blast) (auto intro!: outcome_mono[OF update_offset_spec])

lemma cbind_assoc: "cbind (cbind c f) g = cbind c (\<lambda>a. cbind (f a) g)"
  by (rule ext) (auto simp: cbind_def split: result.splits prod.splits)

lemma prints_element:
  assumes "prints_value b S c t" and "nul \<notin> set t" and "prints b S k u"
  shows "prints b S (\<lambda>p. cbind (c p) (\<lambda>p. cbind (update_offset p) k)) (t @ u)"
  using prints_bind[OF prints_update[OF assms(1,2)] assms(2,3)] by (simp add: cbind_assoc)

lemma printsI:
  assumes "\<And>p out. ready p out \<Longrightarrow> fits b p (out @ t) \<Longrightarrow> f = pb_format p \<Longrightarrow> d = pb_depth p \<Longrightarrow>
    outcome b (c p) (\<lambda>q. ready q (out @ t) \<and> settings q = settings p)"
  shows "prints b (d, na, f) c t"
  unfolding prints_def
proof (intro allI impI)
  fix p out
  assume "settings p = (d, na, f)" "ready p out" "fits b p (out @ t)"
  with assms[of p out] show "outcome b (c p) (\<lambda>q. ready q (out @ t) \<and> settings q = (d, na, f))"
    by (simp add: settings_def)
qed

lemma prints_parts:
  "prints b (d, na, f) (array_separator h) (if h then '','' @ pretty f (CHR '' '') else [])"
  "prints b (d, na, f) member_indent (tabs f d)"
  "prints b (d, na, f) member_colon ('':'' @ pretty f (CHR 0x09))"
  "prints b (d, na, f) (member_separator h) ((if h then '','' else []) @ pretty f (CHR 0x0A))"
proof -
  show "prints b (d, na, f) (array_separator h) (if h then '','' @ pretty f (CHR '' '') else [])"
    by (rule printsI) (rule array_separator_spec; simp)
  show "prints b (d, na, f) member_indent (tabs f d)"
    by (rule printsI) (simp only: member_indent_spec)
  show "prints b (d, na, f) member_colon ('':'' @ pretty f (CHR 0x09))"
    by (rule printsI) (rule member_colon_spec; simp)
  show "prints b (d, na, f) (member_separator h) ((if h then '','' else []) @ pretty f (CHR 0x0A))"
    by (rule printsI) (rule member_separator_spec; simp)
qed

lemma prints_scalars:
  "prints_value b S (put_literal t) t"
  "prints_value b S (print_number x) (number_text x)"
  "prints_value b S (print_string_ptr (Some s)) (string_text s)"
  unfolding prints_value_def
  by (auto intro!: put_literal_spec print_number_spec print_string_spec simp: fits_def)

lemma enters_settings: "settings p = (d, na, f) \<Longrightarrow> enters p q \<longleftrightarrow> settings q = (d + 1, na, f)"
  by (auto simp: enters_def settings_def)

lemma prints_array:
  assumes "prints b (d + 1, na, f) elements t"
  shows "prints_value b (d, na, f) (print_array elements) (''['' @ t @ '']'')"
  unfolding prints_value_def
proof (intro allI impI)
  fix p out
  assume p: "settings p = (d, na, f)" "ready p out" "nul \<notin> set out" "fits b p (out @ ''['' @ t @ '']'')"
  have "outcome b (elements q) (\<lambda>r. ready r (out @ ''['' @ t) \<and> settings r = settings q)"
    if "ready q (out @ ''['')" "enters p q" for q
    using printsD[OF assms _ that(1)] that(2) p fits_enters[OF _ that(2), of b "out @ ''['' @ t" "'']''"]
    by (simp add: enters_settings[OF p(1)])
  from print_array_spec[OF p(2,4) this] p(1)
  show "outcome b (print_array elements p) (\<lambda>q. printed q (out @ ''['' @ t @ '']'') \<and> settings q = (d, na, f))" by simp
qed

lemma prints_object:
  assumes "prints b (d + 1, na, f) members t"
  shows "prints_value b (d, na, f) (print_object members) (''{'' @ pretty f (CHR 0x0A) @ t @ tabs f d @ ''}'')"
  unfolding prints_value_def
proof (intro allI impI)
  fix p out
  assume p: "settings p = (d, na, f)" "ready p out" "nul \<notin> set out"
    "fits b p (out @ ''{'' @ pretty f (CHR 0x0A) @ t @ tabs f d @ ''}'')"
  then have fd: "f = pb_format p" "d = pb_depth p" by (auto simp: settings_def)
  have "outcome b (members q) (\<lambda>r. ready r (out @ ''{'' @ pretty f (CHR 0x0A) @ t) \<and> settings r = settings q)"
    if "ready q (out @ ''{'' @ pretty f (CHR 0x0A))" "enters p q" for q
    using printsD[OF assms _ that(1)] that(2) p
      fits_enters[OF _ that(2), of b "out @ ''{'' @ pretty f (CHR 0x0A) @ t" "tabs f d @ ''}''"]
    by (simp add: enters_settings[OF p(1)] nul_not_in_layout)
  from print_object_spec[OF p(2,4) fd this] p(1)
  show "outcome b (print_object members p)
    (\<lambda>q. printed q (out @ ''{'' @ pretty f (CHR 0x0A) @ t @ tabs f d @ ''}'') \<and> settings q = (d, na, f))" by simp
qed

lemma prints_json:
  "prints_value b (d, na, f) (print_value j) (value_text f d j)"
  "prints b (d, na, f) (array_elements xs) (elements_text f d xs)"
  "prints b (d, na, f) (object_members ms) (members_text f d ms)"
proof (induction f d j and f d xs and f d ms rule: value_text_elements_text_members_text.induct)
  case (8 f d x xs)
  show ?case
    unfolding array_elements.simps elements_text.simps
    using nul_not_in_text nul_not_in_layout
    by (intro prints_element prints_bind prints_parts 8) auto
next
  case (10 f d k x ms)
  show ?case
    unfolding object_members.simps members_text.simps
    using nul_not_in_text nul_not_in_layout nul_not_in_string_text
    by (intro prints_element prints_bind prints_parts prints_scalars 10) auto
qed (use prints_array prints_object in \<open>auto intro: prints_scalars prints_cret\<close>)

lemma ready_new: "0 < n \<Longrightarrow> ready (new_printbuffer n na f) []"
  by (simp add: ready_def new_printbuffer_def holds_def)

lemma settings_new: "settings (new_printbuffer n na f) = (0, na, f)"
  by (simp add: settings_def new_printbuffer_def)

lemma print_value_new:
  assumes "0 < n" and "b \<Longrightarrow> int (length (json_text f j)) + 2 \<le> INT_MAX \<and> \<not> na"
  shows "outcome b (print_value j (new_printbuffer n na f)) (\<lambda>q. printed q (json_text f j))"
proof -
  have "fits b (new_printbuffer n na f) ([] @ value_text f 0 j)"
    using assms(2) by (auto simp: fits_def json_text_def new_printbuffer_def)
  with prints_json(1)[of b 0 na f j] ready_new[OF assms(1), of na f] settings_new[of n na f]
  show ?thesis unfolding prints_value_def json_text_def by (fastforce elim!: outcome_mono)
qed

lemma buffer_string_spec:
  assumes "holds p (t @ [nul])" and "nul \<notin> set t"
  shows "buffer_string p = cret t"
proof -
  have h: "take (length t + 1) (pb_buffer p) = map Some (t @ [nul])" using assms(1) by (simp add: holds_def)
  have "take (length t) (pb_buffer p) = map Some t" using holds_prefix[OF assms(1)] by (simp add: holds_def)
  then show ?thesis
    using c_strlen_spec[OF h assms(2)]
    by (simp add: buffer_string_def fun_eq_iff cbind_def cret_def comp_def)
qed

lemma print_spec:
  assumes "b \<Longrightarrow> int (length (json_text f j)) + 2 \<le> INT_MAX"
  shows "outcome b (print j f) (\<lambda>t. t = json_text f j)"
proof -
  let ?t = "json_text f j"
  have n: "nul \<notin> set ?t" by (simp add: json_text_def nul_not_in_text)
  have tail: "outcome b (cbind (update_offset p) (\<lambda>p. cbind LDAlloc (\<lambda>_. buffer_string (p\<lparr>pb_buffer :=
      (take (min (pb_length p) (pb_offset p + 1)) (pb_buffer p))[pb_offset p := Some nul]\<rparr>)))) (\<lambda>t. t = ?t)"
    if "printed p ?t" for p
  proof (rule outcome_cbind[OF update_offset_spec[OF that n]])
    fix q
    assume q: "ready q ?t \<and> settings q = settings p"
    let ?q = "q\<lparr>pb_buffer := (take (min (pb_length q) (pb_offset q + 1)) (pb_buffer q))[pb_offset q := Some nul]\<rparr>"
    have h: "take (length ?t) (pb_buffer q) = map Some ?t" "length ?t < pb_length q" "pb_offset q = length ?t"
      using q by (auto simp: ready_def holds_def)
    then have "min (pb_length q) (pb_offset q + 1) = Suc (length ?t)" by simp
    with h have "holds ?q (?t @ [nul])"
      by (simp add: holds_def take_Suc_conv_app_nth list_update_append)
    from buffer_string_spec[OF this n] show "outcome b (cbind LDAlloc (\<lambda>_. buffer_string ?q)) (\<lambda>t. t = ?t)"
      by (intro outcome_alloc) simp
  qed
  show ?thesis
    unfolding print_def
    using assms tail by (intro outcome_alloc outcome_cbind[OF print_value_new]) auto
qed

section \<open>Lemmas: the text does not depend on the allocator\<close>

lemma steady_put [intro!]: "steady (put_at i bytes p)" "steady (ensure p n)"
  by (auto simp: put_at_def ensure_def Let_def)

lemma steady_strlen [intro!]: "steady (c_strlen bs)"
  by (induction bs) auto

lemma steady_strings [intro!]: "steady (update_offset p)" "steady (print_string_ptr s p)"
    "steady (print_number d p)" "steady (put_literal t p)"
proof -
  have "steady (escape_loop cs i p)" for cs i p by (induction cs arbitrary: i p) auto
  then show "steady (print_string_ptr s p)" by (auto simp: print_string_ptr_def Let_def)
qed (auto simp: update_offset_def print_number_def put_literal_def Let_def)

lemma steady_print_value [intro!]:
  "steady (print_value j p)" "steady (array_elements xs p)" "steady (object_members ms p)"
proof (induction j p and xs p and ms p rule: print_value_array_elements_object_members.induct)
  case (5 xs p)
  then show ?case by (auto simp: print_array_def)
next
  case (6 ms p)
  then show ?case by (auto simp: print_object_def Let_def)
qed (auto simp: array_separator_def member_indent_def member_colon_def member_separator_def Let_def)

lemma steady_print [intro!]: "steady (print j f)"
  unfolding print_def buffer_string_def by auto

section \<open>Lemmas: the length of a text\<close>

text \<open>The buffer never grows beyond \<open>INT_MAX\<close> bytes.\<close>

abbreviation in_bounds :: "printbuffer \<Rightarrow> bool" where
  "in_bounds p \<equiv> int (pb_length p) \<le> INT_MAX"

lemma ensure_in_bounds: "in_bounds p \<Longrightarrow> yields (ensure p n) in_bounds"
  unfolding ensure_def Let_def
  by (auto intro!: yields_any simp: INT_MAX_def)

lemma put_at_in_bounds: "in_bounds p \<Longrightarrow> yields (put_at i bytes p) in_bounds"
  unfolding put_at_def by auto

lemma update_offset_in_bounds: "in_bounds p \<Longrightarrow> yields (update_offset p) in_bounds"
  unfolding update_offset_def by (auto intro!: yields_any)

lemma escape_loop_in_bounds: "in_bounds p \<Longrightarrow> yields (escape_loop cs i p) in_bounds"
  by (induction cs arbitrary: i p) (auto intro!: yields_cbind[OF put_at_in_bounds] split: option.split)

lemma advance_in_bounds [simp]: "in_bounds (advance n p) \<longleftrightarrow> in_bounds p"
  by (simp add: advance_def)

lemmas bound_steps = yields_cbind[OF ensure_in_bounds] yields_cbind[OF put_at_in_bounds]
  yields_cbind[OF update_offset_in_bounds] yields_cbind[OF escape_loop_in_bounds] put_at_in_bounds

lemma print_parts_in_bounds:
  assumes "in_bounds p"
  shows "yields (put_literal t p) in_bounds" "yields (print_number d p) in_bounds" "yields (print_string_ptr s p) in_bounds"
    "yields (array_separator b p) in_bounds" "yields (member_indent p) in_bounds" "yields (member_colon p) in_bounds"
    "yields (member_separator b p) in_bounds"
  using assms
  by (auto simp: put_literal_def print_number_def print_string_ptr_def array_separator_def member_indent_def
      member_colon_def member_separator_def Let_def intro!: bound_steps split: option.split)

lemma print_value_in_bounds:
  "in_bounds p \<Longrightarrow> yields (print_value j p) in_bounds"
  "in_bounds p \<Longrightarrow> yields (array_elements xs p) in_bounds"
  "in_bounds p \<Longrightarrow> yields (object_members ms p) in_bounds"
proof (induction j p and xs p and ms p rule: print_value_array_elements_object_members.induct)
  case (5 xs p)
  show ?case
    unfolding print_value.simps print_array_def
    by (rule bound_steps(1)[OF \<open>in_bounds p\<close>], rule bound_steps(2), assumption, rule yields_cbind[OF 5(1)])
      (auto intro!: bound_steps)
next
  case (6 ms p)
  show ?case
    unfolding print_value.simps print_object_def Let_def
    by (rule bound_steps(1)[OF \<open>in_bounds p\<close>], rule bound_steps(2), assumption, rule yields_cbind[OF 6(1)])
      (auto intro!: bound_steps)
qed (auto intro!: print_parts_in_bounds yields_cbind[OF print_parts_in_bounds(3)] yields_cbind[OF print_parts_in_bounds(4)]
    yields_cbind[OF print_parts_in_bounds(5)] yields_cbind[OF print_parts_in_bounds(6)] yields_cbind[OF print_parts_in_bounds(7)]
    bound_steps(3) intro: yields_cbind)

lemma buffer_string_length: "yields (buffer_string p) (\<lambda>t. length t \<le> pb_length p)"
  unfolding buffer_string_def by (rule yields_any) simp

lemma print_length: "yields (print j f) (\<lambda>t. int (length t) \<le> INT_MAX)"
proof -
  have start: "in_bounds (new_printbuffer 256 False f)" by (simp add: new_printbuffer_def INT_MAX_def)
  show ?thesis
    unfolding print_def
  proof (rule yields_any, rule yields_cbind[OF print_value_in_bounds(1)[OF start]],
      rule yields_cbind[OF update_offset_in_bounds], assumption, rule yields_any)
    fix q
    assume "in_bounds q"
    then show "yields (buffer_string (q\<lparr>pb_buffer :=
        (take (min (pb_length q) (pb_offset q + 1)) (pb_buffer q))[pb_offset q := Some nul]\<rparr>)) (\<lambda>t. int (length t) \<le> INT_MAX)"
      by (intro yields_mono[OF buffer_string_length]) simp
  qed
qed

section \<open>Properties\<close>

text \<open>C14. \<open>cJSON_Print\<close> and \<open>cJSON_PrintUnformatted\<close> never write or read outside the buffers they
  allocate, however the allocator answers and however large the tree is: the result is the text
  of the tree, formatted or compact, or no text at all. If memory suffices and the text is shorter
  than \<open>INT_MAX - 1\<close> the text is returned.\<close>

theorem cJSON_Print_correct:
  "ensures (cJSON_Print j) (\<lambda>t. t = json_text True j) \<and>
   ensures (cJSON_PrintUnformatted j) (\<lambda>t. t = json_text False j) \<and>
   (int (length (json_text True j)) \<le> INT_MAX - 2 \<longrightarrow> cJSON_Print j [] = (Val (json_text True j), [])) \<and>
   (int (length (json_text False j)) \<le> INT_MAX - 2 \<longrightarrow> cJSON_PrintUnformatted j [] = (Val (json_text False j), []))"
  using print_spec[of False, THEN outcome_ensures] print_spec[of True, THEN outcome_value]
  by (auto simp: cJSON_Print_def cJSON_PrintUnformatted_def)

theorem cJSON_Print_correct_witness:
  "cJSON_PrintUnformatted (JObject [(''on'', JArray [JBool True, JNull, JText ''a''])]) [] =
     (Val (json_text False (JObject [(''on'', JArray [JBool True, JNull, JText ''a''])])), [])"
  using cJSON_Print_correct[of "JObject [(''on'', JArray [JBool True, JNull, JText ''a''])]"]
  by (simp add: json_text_def string_text_def c_str_def char_text_def short_escapes_def pretty_def tabs_def INT_MAX_def)

lemma ensure_no_room: "pb_buffer p = [] \<Longrightarrow> pb_noalloc p \<Longrightarrow> ensure p n = cnull"
  by (auto simp: ensure_def Let_def)

lemma cbind_cnull [simp]: "cbind cnull f = cnull"
  by (simp add: fun_eq_iff cbind_def cnull_def)

lemma print_value_no_room:
  assumes "pb_buffer p = []" and "pb_noalloc p"
  shows "print_value j p = cnull"
proof -
  have "\<not> 26 < length (number_text d) + 1" for d using number_text_length[of d] by simp
  with ensure_no_room[OF assms] show ?thesis
    by (cases j) (simp_all add: put_literal_def print_number_def print_string_ptr_def print_array_def
        print_object_def Let_def)
qed

lemma ready_given: "buf \<noteq> [] \<Longrightarrow> ready (new_printbuffer 0 True f\<lparr>pb_buffer := buf\<rparr>) []"
  by (simp add: ready_def new_printbuffer_def holds_def)

text \<open>Printing into storage of the caller, of any size and with any contents, writes nothing
  outside it; either the text with its terminator is there or the call fails. The buffered printer
  with a prepared buffer of at least one byte is as safe as the plain one. (With a size of 0 it
  copies a byte from behind its buffer, see \<open>cJSON_PrintBuffered_empty\<close>.)\<close>

theorem cJSON_PrintPreallocated_safe:
  "ensures (cJSON_PrintPreallocated j buf f) (\<lambda>t. t = json_text f j) \<and>
   (prebuffer \<noteq> 0 \<longrightarrow> ensures (cJSON_PrintBuffered j prebuffer f) (\<lambda>t. t = json_text f j))"
proof (intro conjI impI)
  have n: "nul \<notin> set (json_text f j)" by (simp add: json_text_def nul_not_in_text)
  have out: "ensures (cbind c buffer_string) (\<lambda>t. t = json_text f j)"
    if "outcome False c (\<lambda>q. printed q (json_text f j))" for c
    using outcome_ensures[OF that] buffer_string_spec[OF _ n]
    by (elim ensures_cbind) (auto simp: printed_def)
  show "ensures (cJSON_PrintPreallocated j buf f) (\<lambda>t. t = json_text f j)"
  proof (cases "buf = []")
    case True
    then show ?thesis
      using print_value_no_room[of "new_printbuffer 0 True f\<lparr>pb_buffer := []\<rparr>" j]
      by (simp add: cJSON_PrintPreallocated_def new_printbuffer_def)
  next
    case False
    let ?p = "new_printbuffer 0 True f\<lparr>pb_buffer := buf\<rparr>"
    have "settings ?p = (0, True, f)" "fits False ?p ([] @ value_text f 0 j)"
      by (simp_all add: settings_def new_printbuffer_def fits_def)
    with prints_json(1)[of False 0 True f j] ready_given[OF False]
    have "outcome False (print_value j ?p) (\<lambda>q. printed q (json_text f j))"
      unfolding prints_value_def json_text_def by (fastforce elim!: outcome_mono)
    from out[OF this] show ?thesis by (simp add: cJSON_PrintPreallocated_def)
  qed
  assume "prebuffer \<noteq> 0"
  then show "ensures (cJSON_PrintBuffered j prebuffer f) (\<lambda>t. t = json_text f j)"
    unfolding cJSON_PrintBuffered_def
    by (intro ensures_if ensures_alloc out print_value_new) auto
qed

theorem cJSON_PrintPreallocated_safe_witness:
  "ensures (cJSON_PrintBuffered (JArray [JNull, JBool False]) 8 True) (\<lambda>t. t = ''[null, false]'')"
  using cJSON_PrintPreallocated_safe[of "JArray [JNull, JBool False]" "[]" True 8]
  by (simp add: json_text_def pretty_def)

lemma cJSON_PrintBuffered_empty: "fst (cJSON_PrintBuffered JNull 0 f []) = Fault Undefined"
  by (simp add: cJSON_PrintBuffered_def put_literal_def ensure_def new_printbuffer_def INT_MAX_def cmd_simps)

end
