(* ===== verification/Cjson.thy ===== *)
theory Cjson
  imports Cjson_Print
begin

text \<open>
  The JSON reader and writer together: what the writer prints, compact or formatted, the reader
  reads back as the same tree, if the tree is nested at most \<open>CJSON_NESTING_LIMIT\<close> deep, its
  strings are C strings and its numbers survive their decimal notation (all integers below
  \<open>10 ^ 15\<close> do).
\<close>

section \<open>Text in the SDK\<close>

definition LDJSONSerialize :: "json_ptr \<Rightarrow> string cmd" where
  "LDJSONSerialize json = (case json of None \<Rightarrow> cnull | Some j \<Rightarrow> cJSON_PrintUnformatted j)"

definition LDJSONDeserialize :: "cstring \<Rightarrow> json cmd" where
  "LDJSONDeserialize text_bytes = (case text_bytes of None \<Rightarrow> cnull | Some t \<Rightarrow> cJSON_Parse t)"

text \<open>The tree of a text, if it has one: what the reader returns when memory suffices.\<close>

definition json_of :: "string \<Rightarrow> json_ptr" where
  "json_of t = (case fst (cJSON_Parse t []) of Val j \<Rightarrow> Some j | _ \<Rightarrow> None)"

section \<open>Trees that survive\<close>

definition number_reads :: "double \<Rightarrow> bool" where
  "number_reads d \<longleftrightarrow> \<not> beyond_double d \<and> strtod (number_text d) = (d, length (number_text d))"

fun numbers_read :: "json \<Rightarrow> bool" where
  "numbers_read (JNumber d) \<longleftrightarrow> number_reads d"
| "numbers_read (JArray xs) \<longleftrightarrow> (\<forall>x \<in> set xs. numbers_read x)"
| "numbers_read (JObject ms) \<longleftrightarrow> (\<forall>(k, x) \<in> set ms. numbers_read x)"
| "numbers_read _ \<longleftrightarrow> True"

lemma number_text_int:
  assumes "\<bar>i\<bar> < 10 ^ 15"
  shows "number_text (of_int i) = int_to_string i"
proof -
  have "\<bar>of_int i :: rat\<bar> < of_int (10 ^ 15)" using assms by (metis of_int_abs of_int_less_iff)
  also have "\<dots> \<le> (10 :: rat) ^ 309" by (simp add: power_increasing)
  finally have "\<not> beyond_double (of_int i)" by (simp add: beyond_double_def)
  moreover have "int_to_string i \<noteq> []" by (auto simp: int_to_string_def)
  ultimately show ?thesis
    using format_g_int[OF assms] by (simp add: number_text_def strtod_int Let_def)
qed

lemma number_reads_int:
  assumes "\<bar>i\<bar> < 10 ^ 15"
  shows "number_reads (of_int i)"
proof -
  have "\<bar>of_int i :: rat\<bar> < of_int (10 ^ 15)" using assms by (metis of_int_abs of_int_less_iff)
  also have "\<dots> \<le> (10 :: rat) ^ 309" by (simp add: power_increasing)
  finally show ?thesis
    using number_text_int[OF assms] by (simp add: number_reads_def beyond_double_def strtod_int)
qed

lemma number_reads_small [simp]:
  "number_reads 0" "number_reads 1" "number_reads (- 1)" "(numeral n :: int) < 10 ^ 15 \<Longrightarrow> number_reads (numeral n)"
  using number_reads_int[of 0] number_reads_int[of 1] number_reads_int[of "- 1"] number_reads_int[of "numeral n"]
  by simp_all

section \<open>Lemmas: positions\<close>

abbreviation blank :: "char \<Rightarrow> bool" where
  "blank c \<equiv> (of_char c :: nat) \<le> 32"

lemma skip_blanks_over:
  "\<forall>c \<in> set w. blank c \<Longrightarrow> \<not> blank c \<Longrightarrow>
   skip_blanks (pre @ w @ c # rest) (length pre) = length pre + length w"
proof (induction w arbitrary: pre)
  case Nil
  then show ?case by (subst skip_blanks.simps) simp
next
  case (Cons a w)
  then show ?case
    using Cons.IH[of "pre @ [a]"] by (subst skip_blanks.simps) (simp add: nth_append)
qed

lemma skip_over:
  assumes "bs = pre @ w @ c # rest" and "\<forall>c \<in> set w. blank c" and "\<not> blank c"
  shows "buffer_skip_whitespace bs (length pre) = length pre + length w"
  using skip_blanks_over[OF assms(2,3), of pre rest] assms(1) by (simp add: buffer_skip_whitespace_def)

lemma skip_none:
  assumes "bs = pre @ c # rest" and "\<not> blank c"
  shows "buffer_skip_whitespace bs (length pre) = length pre"
  using skip_over[of bs pre "[]"] assms by simp

section \<open>Lemmas: numbers and strings read back\<close>

lemma takeWhile_prefix: "\<forall>c \<in> set t. P c \<Longrightarrow> rest = [] \<or> \<not> P (hd rest) \<Longrightarrow> takeWhile P (t @ rest) = t"
  by (cases rest) auto

lemma number_text_chars:
  assumes "\<not> beyond_double d" and "c \<in> set (number_text d)"
  shows "number_char c"
  using assms format_g_chars[of c] by (auto simp: number_text_def Let_def split: if_splits)

lemma number_text_head:
  assumes "\<not> beyond_double d"
  shows "number_text d \<noteq> [] \<and> (hd (number_text d) = CHR ''-'' \<or> is_digit (hd (number_text d)))"
  using assms format_g_head by (simp add: number_text_def Let_def)

lemma parse_number_back:
  assumes "bs = pre @ number_text d @ rest" and "rest \<noteq> []" and "\<not> number_char (hd rest)" and "number_reads d"
  shows "parse_number bs (length pre) [] = (Val (JNumber d, length pre + length (number_text d)), [])"
proof -
  let ?t = "number_text d"
  have r: "\<not> beyond_double d" "strtod ?t = (d, length ?t)" using assms(4) by (auto simp: number_reads_def)
  have "take 63 (drop (length pre) bs) = ?t @ take (63 - length ?t) rest"
    using number_text_length[of d] assms(1) by simp
  moreover have "takeWhile number_char (?t @ take (63 - length ?t) rest) = ?t"
    using number_text_chars[OF r(1)] assms(2,3) by (intro takeWhile_prefix) (auto simp: hd_take)
  moreover have "?t \<noteq> []" using number_text_head[OF r(1)] by simp
  ultimately show ?thesis using r(2) by (simp add: parse_number_def Let_def cret_def)
qed

lemma hex_digit_hex_char: "d < 16 \<Longrightarrow> hex_digit (hex_char d) = Some d"
  by (auto simp: hex_digit_def hex_char_def Let_def)

lemma hex_char_plain: "d < 16 \<Longrightarrow> hex_char d \<noteq> CHR 0x22 \<and> hex_char d \<noteq> CHR 0x5C"
  using hex_digit_hex_char[of d] by (auto simp: hex_digit_def Let_def split: if_splits)

lemma simple_escape_short: "map_of short_escapes c = Some e \<Longrightarrow> simple_escape e = Some c"
  by (auto simp: short_escapes_def simple_escape_def split: if_splits)

lemma short_escape_not_u: "map_of short_escapes c = Some e \<Longrightarrow> e \<noteq> CHR ''u''"
  by (auto simp: short_escapes_def split: if_splits)

lemma utf8_encode_ascii: "n < 128 \<Longrightarrow> utf8_encode n = Some [char_of n]"
proof -
  assume n: "n < 128"
  have "n AND 0x7F = take_bit 7 n" by (simp add: take_bit_eq_mask mask_eq_exp_minus_1)
  with n show ?thesis by (simp add: utf8_encode_def take_bit_nat_eq_self)
qed

lemma parse_hex4_back:
  assumes "bs = pre @ [CHR ''0'', CHR ''0'', hex_char a, hex_char b] @ rest" and "a < 16" and "b < 16"
  shows "parse_hex4 bs (length pre) m = (Val (16 * a + b), m)"
proof -
  have at: "bs ! (length pre + k) = ([CHR ''0'', CHR ''0'', hex_char a, hex_char b] @ rest) ! k"
    "length pre + k < length bs" if "k < 4" for k
    using that assms(1) by (auto simp: nth_append)
  have z: "hex_digit (CHR ''0'') = Some 0" by (simp add: hex_digit_def)
  show ?thesis
    using at[of 0] at[of 1] at[of 2] at[of 3]
    by (simp add: parse_hex4_def numeral_eq_Suc buffer_at_def cbind_def cret_def z
        hex_digit_hex_char[OF assms(2)] hex_digit_hex_char[OF assms(3)] push_bit_eq_mult)
qed

text \<open>The first loop of the string reader finds the closing quote.\<close>

lemma string_end_plain:
  assumes "\<forall>c \<in> set t. c \<noteq> CHR 0x22 \<and> c \<noteq> CHR 0x5C"
  shows "string_end (pre @ t @ rest) (length pre) k = string_end (pre @ t @ rest) (length pre + length t) k"
  using assms
proof (induction t arbitrary: pre)
  case (Cons c t)
  then have "string_end (pre @ (c # t) @ rest) (length pre) k = string_end (pre @ (c # t) @ rest) (length pre + 1) k"
    by (subst string_end.simps) (simp add: nth_append)
  with Cons.IH[of "pre @ [c]"] Cons.prems show ?case by simp
qed simp

lemma string_end_escape:
  "string_end (pre @ [CHR 0x5C, e] @ rest) (length pre) k = string_end (pre @ [CHR 0x5C, e] @ rest) (length pre + 2) (Suc k)"
  by (subst string_end.simps) (simp add: nth_append)

lemma string_end_chars:
  "\<exists>k'. string_end (pre @ concat (map char_text cs) @ [CHR 0x22] @ rest) (length pre) k =
     Some (length pre + length (concat (map char_text cs)), k')"
proof (induction cs arbitrary: pre k)
  case Nil
  show ?case by (subst string_end.simps) simp
next
  case (Cons c cs)
  let ?tail = "concat (map char_text cs) @ [CHR 0x22] @ rest"
  have step: "\<exists>k'. string_end (pre @ char_text c @ ?tail) (length pre) k = string_end (pre @ char_text c @ ?tail) (length pre + length (char_text c)) k'"
  proof (cases "31 < (of_char c :: nat) \<and> c \<noteq> CHR 0x22 \<and> c \<noteq> CHR 0x5C")
    case True
    then show ?thesis using string_end_plain[of "[c]" pre ?tail k] by (auto simp: char_text_def)
  next
    case False
    show ?thesis
    proof (cases "map_of short_escapes c")
      case None
      define h where "h = [CHR ''0'', CHR ''0'', hex_char (of_char c div 16), hex_char (of_char c mod 16)]"
      have "(of_char c :: nat) < 256" by simp
      then have "(of_char c :: nat) div 16 < 16" by (simp add: div_less_iff_less_mult)
      then have "\<forall>c \<in> set h. c \<noteq> CHR 0x22 \<and> c \<noteq> CHR 0x5C"
        using hex_char_plain[of "of_char c div 16"] hex_char_plain[of "of_char c mod 16"] by (auto simp: h_def)
      note h = string_end_plain[OF this, of "pre @ [CHR 0x5C, CHR ''u'']" ?tail "Suc k"]
      have t: "char_text c = [CHR 0x5C, CHR ''u''] @ h"
        unfolding char_text_def if_not_P[OF False] None by (simp add: unicode_text_def h_def)
      have "string_end (pre @ char_text c @ ?tail) (length pre) k =
          string_end (pre @ char_text c @ ?tail) (length pre + length (char_text c)) (Suc k)"
        using h string_end_escape[of pre "CHR ''u''" "h @ ?tail" k] by (simp add: t)
      then show ?thesis by blast
    next
      case (Some e)
      have t: "char_text c = [CHR 0x5C, e]" unfolding char_text_def if_not_P[OF False] Some by simp
      show ?thesis using string_end_escape[of pre e ?tail k] by (auto simp: t)
    qed
  qed
  then obtain k' where "string_end (pre @ char_text c @ ?tail) (length pre) k = string_end (pre @ char_text c @ ?tail) (length pre + length (char_text c)) k'"
    by blast
  with Cons.IH[of "pre @ char_text c" k'] show ?case by (auto simp: add.assoc)
qed

text \<open>The second loop undoes the escapes, one character at a time.\<close>

lemma utf16_back:
  assumes "bs = pre @ [CHR 0x5C] @ unicode_text c @ rest" and "length pre + 6 \<le> e" and "(of_char c :: nat) < 32"
  shows "utf16_literal_to_utf8 bs (length pre) e m = (Val (6, [c]), m)"
proof -
  have "bs = (pre @ [CHR 0x5C, CHR ''u'']) @
      [CHR ''0'', CHR ''0'', hex_char (of_char c div 16), hex_char (of_char c mod 16)] @ rest"
    by (simp add: assms(1) unicode_text_def)
  from parse_hex4_back[OF this, of m] assms(3)
  have "parse_hex4 bs (length pre + 2) m = (Val (of_char c), m)" by (simp add: div_less_iff_less_mult)
  moreover have "utf8_encode (of_char c) = Some [c]" using utf8_encode_ascii[of "of_char c"] assms(3) by simp
  ultimately show ?thesis
    using assms(2,3) by (simp add: utf16_literal_to_utf8_def cbind_def cret_def)
qed

lemma unescape_step:
  assumes bs: "bs = pre @ char_text c @ rest" and e: "length pre + length (char_text c) \<le> e"
  shows "unescape_loop (Suc fuel) bs cap e (length pre) out m =
    cbind (push_bytes cap out [c]) (\<lambda>out. unescape_loop fuel bs cap e (length pre + length (char_text c)) out) m"
proof (cases "31 < (of_char c :: nat) \<and> c \<noteq> CHR 0x22 \<and> c \<noteq> CHR 0x5C")
  case True
  then have t: "char_text c = [c]" by (simp add: char_text_def)
  with bs e have "buffer_at bs (length pre) = cret c" "length pre < e" by (auto simp: buffer_at_def)
  with True show ?thesis by (simp add: t cbind_def cret_def)
next
  case False
  let ?e = "case map_of short_escapes c of Some e \<Rightarrow> [e] | None \<Rightarrow> unicode_text c"
  have t: "char_text c = [CHR 0x5C] @ ?e" using False by (simp add: char_text_def)
  then have at: "buffer_at bs (length pre) = cret (CHR 0x5C)" and lt: "length pre < e"
    using bs e by (auto simp: buffer_at_def nth_append)
  show ?thesis
  proof (cases "map_of short_escapes c")
    case None
    have e2: "buffer_at bs (Suc (length pre)) = cret (CHR ''u'')"
      using bs by (simp add: t None unicode_text_def buffer_at_def nth_append)
    have len: "length (char_text c) = 6" by (simp add: t None unicode_text_def)
    have "\<not> (c = CHR 0x22 \<or> c = CHR 0x5C)" using None by (auto simp: short_escapes_def)
    with False have small: "(of_char c :: nat) < 32" by simp
    have "bs = pre @ [CHR 0x5C] @ unicode_text c @ rest" using bs by (simp add: t None)
    from utf16_back[OF this _ small, of e m] e len
    have u: "utf16_literal_to_utf8 bs (length pre) e m = (Val (6, [c]), m)" by simp
    have s: "simple_escape (CHR ''u'') = None" by (simp add: simple_escape_def)
    show ?thesis using at e2 lt u by (simp add: len s cbind_def cret_def)
  next
    case (Some b)
    then have "buffer_at bs (Suc (length pre)) = cret b" "length (char_text c) = 2"
      using bs by (simp_all add: t buffer_at_def nth_append)
    with at lt simple_escape_short[OF Some] show ?thesis by (simp add: cbind_def cret_def)
  qed
qed

lemma unescape_back:
  assumes "bs = pre @ concat (map char_text cs) @ rest" and "e = length pre + length (concat (map char_text cs))"
    and "length cs \<le> fuel"
  shows "unescape_loop fuel bs cap e (length pre) out m \<in> {(Fault Undefined, m), (Val (out @ cs), m)}"
  using assms
proof (induction cs arbitrary: fuel pre out)
  case Nil
  then show ?case by (cases fuel) (auto simp: cret_def)
next
  case (Cons c cs)
  then obtain f where f: "fuel = Suc f" "length cs \<le> f" by (cases fuel) auto
  have bs: "bs = pre @ char_text c @ (concat (map char_text cs) @ rest)" using Cons.prems(1) by simp
  have le: "length pre + length (char_text c) \<le> e" using Cons.prems(2) by simp
  have "unescape_loop f bs cap e (length (pre @ char_text c)) (out @ [c]) m
      \<in> {(Fault Undefined, m), (Val ((out @ [c]) @ cs), m)}"
    using Cons.prems f by (intro Cons.IH) simp_all
  then show ?case
    unfolding f(1) unescape_step[OF bs le]
    by (auto simp: push_bytes_def cbind_def cret_def cfault_def)
qed

lemma parse_string_back:
  assumes "bs = pre @ string_text s @ rest" and "nul \<notin> set s"
  shows "parse_string bs (length pre) [] = (Val (s, length pre + length (string_text s)), [])"
proof -
  let ?t = "concat (map char_text s)"
  have st: "string_text s = [CHR 0x22] @ ?t @ [CHR 0x22]" using c_str_id[OF assms(2)] by (simp add: string_text_def)
  have bs: "bs = (pre @ [CHR 0x22]) @ ?t @ [CHR 0x22] @ rest" using assms(1) st by simp
  obtain k where k: "string_end bs (Suc (length pre)) 0 = Some (Suc (length pre) + length ?t, k)"
    using string_end_chars[of "pre @ [CHR 0x22]" s rest 0] bs by auto
  let ?e = "Suc (length pre) + length ?t"
  have lt: "length pre < length bs" "length s \<le> length bs" "buffer_at bs (length pre) = cret (CHR 0x22)"
    using bs chars_text_length[of s] by (auto simp: buffer_at_def)
  have "unescape_loop (length bs) bs (?e - length pre - k) ?e (length (pre @ [CHR 0x22])) [] []
      \<in> {(Fault Undefined, []), (Val ([] @ s), [])}"
    using bs lt(2) by (intro unescape_back[where rest = "[CHR 0x22] @ rest"]) simp_all
  then have "parse_string bs (length pre) [] \<in> {(Fault Undefined, []), (Val (s, Suc ?e), [])}"
    using lt k c_str_id[OF assms(2)] by (auto simp: parse_string_def Let_def cbind_def cret_def)
  moreover have "fst (parse_string bs (length pre) []) \<noteq> Fault Undefined"
    using parse_string_safe[OF lt(1)] ensures_no_fault no_faultD by blast
  ultimately show ?thesis using st by auto
qed

section \<open>Lemmas: values read back\<close>

definition reads_back :: "nat \<Rightarrow> bool \<Rightarrow> nat \<Rightarrow> json \<Rightarrow> bool" where
  "reads_back depth f d j \<longleftrightarrow> (\<forall>pre c rest. \<not> number_char c \<longrightarrow>
     parse_value depth (pre @ value_text f d j @ c # rest) (length pre) [] =
       (Val (j, length pre + length (value_text f d j)), []))"

lemma reads_backD:
  "reads_back depth f d j \<Longrightarrow> bs = pre @ value_text f d j @ c # rest \<Longrightarrow> \<not> number_char c \<Longrightarrow>
   parse_value depth bs (length pre) [] = (Val (j, length pre + length (value_text f d j)), [])"
  by (simp add: reads_back_def)

lemma sees_at: "bs = pre @ c # rest \<Longrightarrow> sees bs (length pre) x \<longleftrightarrow> x = c"
  by (auto simp: sees_iff)

lemma sees_text_at: "bs = pre @ c # rest \<Longrightarrow> sees_text bs (length pre) (x # xs) \<Longrightarrow> x = c"
  by (auto simp: sees_text_def)

lemma not_number_chars [simp]:
  "\<not> number_char (CHR '','')" "\<not> number_char (CHR '']'')" "\<not> number_char (CHR ''}'')"
  "\<not> number_char (CHR 0x0A)" "\<not> number_char nul"
  by (simp_all add: number_char_def is_digit_def)

lemma array_loop_back:
  assumes "xs \<noteq> []" and "\<forall>x \<in> set xs. reads_back depth f d x"
    and "bs = pre @ elements_text f d xs @ CHR '']'' # rest"
    and "buffer_skip_whitespace bs (Suc off) = length pre" and "length xs \<le> fuel"
    and heads: "\<forall>x \<in> set xs. \<exists>c r. value_text f d x = c # r \<and> \<not> blank c"
  shows "array_loop fuel (parse_value depth) bs off items [] =
    (Val (JArray (items @ xs), length pre + length (elements_text f d xs) + 1), [])"
  using assms
proof (induction xs arbitrary: fuel pre off items)
  case (Cons x xs)
  obtain n where n: "fuel = Suc n" "length xs \<le> n" using Cons.prems(5) by (cases fuel) auto
  let ?v = "value_text f d x"
  let ?here = "length (pre @ ?v)"
  have x: "reads_back depth f d x" using Cons.prems(2) by simp
  show ?case
  proof (cases "xs = []")
    case True
    then have bs: "bs = pre @ ?v @ CHR '']'' # rest" using Cons.prems(3) by simp
    then have "buffer_skip_whitespace bs ?here = ?here" by (intro skip_none[of _ _ "CHR '']''" rest]) simp_all
    with reads_backD[OF x bs] Cons.prems(4) True sees_at[of bs "pre @ ?v" "CHR '']''" rest "CHR '',''"] bs
    show ?thesis by (simp add: n(1) cbind_def cret_def Let_def nth_append)
  next
    case False
    let ?sp = "pretty f (CHR '' '')"
    let ?more = "elements_text f d xs @ CHR '']'' # rest"
    have bs: "bs = pre @ ?v @ CHR '','' # ?sp @ ?more" using Cons.prems(3) False by simp
    have here: "buffer_skip_whitespace bs ?here = ?here"
      using bs by (intro skip_none[of _ _ "CHR '',''" "?sp @ ?more"]) simp_all
    obtain y ys where xs: "xs = y # ys" using False by (cases xs) auto
    obtain c r where c: "?more = c # r" "\<not> blank c" using Cons.prems(6) xs by fastforce
    have next_: "buffer_skip_whitespace bs (Suc ?here) = length (pre @ ?v @ '','' @ ?sp)"
      using skip_over[of bs "pre @ ?v @ '',''" ?sp c r] c bs by (simp add: pretty_def)
    have "array_loop n (parse_value depth) bs ?here (items @ [x]) [] = (Val (JArray ((items @ [x]) @ xs),
        length (pre @ ?v @ '','' @ ?sp) + length (elements_text f d xs) + 1), [])"
      using False Cons.prems bs next_ n(2) by (intro Cons.IH) auto
    with reads_backD[OF x bs] Cons.prems(4) here sees_at[of bs "pre @ ?v" "CHR '',''" "?sp @ ?more" "CHR '',''"] bs False
    show ?thesis by (simp add: n(1) cbind_def cret_def Let_def)
  qed
qed simp

lemma blank_layout: "\<forall>c \<in> set (tabs f d). blank c" "\<forall>c \<in> set (pretty f (CHR 0x0A)). blank c"
    "\<forall>c \<in> set (pretty f (CHR 0x09)). blank c"
  by (simp_all add: tabs_def pretty_def)

lemma string_text_head: "\<exists>r. string_text k = CHR 0x22 # r"
  by (simp add: string_text_def)

lemma object_member_back:
  assumes x: "reads_back depth f d x" and head: "value_text f d x = c # r" "\<not> blank c"
    and bs: "bs = pre @ string_text k @ ('':'' @ pretty f (CHR 0x09)) @ value_text f d x @ a # rest"
    and "nul \<notin> set k" and "\<not> number_char a" and "buffer_skip_whitespace bs (Suc off) = length pre"
    and here: "here = length (pre @ string_text k @ ('':'' @ pretty f (CHR 0x09)) @ value_text f d x)"
  shows "object_loop (Suc n) (parse_value depth) bs off items [] =
    (let off = buffer_skip_whitespace bs here; items = items @ [(k, x)] in
     if sees bs off (CHR '','') then object_loop n (parse_value depth) bs off items
     else if \<not> can_access_at_index bs off 0 \<or> bs ! off \<noteq> CHR ''}'' then cnull
     else cret (JObject items, Suc off)) []"
proof -
  let ?colon = "pre @ string_text k"
  have key: "parse_string bs (length pre) [] = (Val (k, length ?colon), [])"
    using parse_string_back[OF bs assms(5)] by simp
  have colon: "buffer_skip_whitespace bs (length ?colon) = length ?colon"
    using bs by (intro skip_none[of _ _ "CHR '':''"]) simp_all
  have at: "length ?colon < length bs" "bs ! length ?colon = CHR '':''" using bs by (simp_all add: nth_append)
  let ?val = "?colon @ '':'' @ pretty f (CHR 0x09)"
  have "buffer_skip_whitespace bs (length (?colon @ '':'')) = length (?colon @ '':'') + length (pretty f (CHR 0x09))"
    using bs head blank_layout(3) by (intro skip_over[of _ _ _ c "r @ a # rest"]) simp_all
  then have val: "buffer_skip_whitespace bs (Suc (length ?colon)) = length ?val" by simp
  have "bs = ?val @ value_text f d x @ a # rest" using bs by simp
  from reads_backD[OF x this assms(6)] have v: "parse_value depth bs (length ?val) [] = (Val (x, here), [])"
    by (simp add: here)
  show ?thesis
    using assms(7) key colon at val v by (simp add: cbind_def Let_def)
qed

lemma object_loop_back:
  assumes "ms \<noteq> []" and "\<forall>(k, x) \<in> set ms. nul \<notin> set k \<and> reads_back depth f d x"
    and "bs = pre @ members_text f d ms @ tabs f d' @ CHR ''}'' # rest"
    and "buffer_skip_whitespace bs (Suc off) = length pre + length (tabs f d)" and "length ms \<le> fuel"
    and heads: "\<forall>(k, x) \<in> set ms. \<exists>c r. value_text f d x = c # r \<and> \<not> blank c"
  shows "object_loop fuel (parse_value depth) bs off items [] =
    (Val (JObject (items @ ms), length pre + length (members_text f d ms) + length (tabs f d') + 1), [])"
  using assms
proof (induction ms arbitrary: fuel pre off items)
  case (Cons m ms)
  obtain k x where m: "m = (k, x)" by fastforce
  obtain n where n: "fuel = Suc n" "length ms \<le> n" using Cons.prems(5) by (cases fuel) auto
  obtain c r where c: "value_text f d x = c # r" "\<not> blank c" using Cons.prems(6) m by auto
  have x: "reads_back depth f d x" "nul \<notin> set k" using Cons.prems(2) m by auto
  let ?nl = "pretty f (CHR 0x0A)"
  define pre' where "pre' = pre @ tabs f d"
  define front where "front = pre' @ string_text k @ ('':'' @ pretty f (CHR 0x09)) @ value_text f d x"
  have here: "length front = length (pre' @ string_text k @ ('':'' @ pretty f (CHR 0x09)) @ value_text f d x)"
    by (simp add: front_def)
  have start: "buffer_skip_whitespace bs (Suc off) = length pre'" using Cons.prems(4) by (simp add: pre'_def)
  show ?case
  proof (cases "ms = []")
    case True
    then have bs: "bs = front @ (?nl @ tabs f d') @ CHR ''}'' # rest"
      using Cons.prems(3) m by (simp add: front_def pre'_def)
    obtain a q where a: "(?nl @ tabs f d') @ CHR ''}'' # rest = a # q" "\<not> number_char a"
      by (cases f) (auto simp: pretty_def tabs_def)
    have "bs = pre' @ string_text k @ ('':'' @ pretty f (CHR 0x09)) @ value_text f d x @ a # q"
      using bs unfolding a(1) by (simp add: front_def)
    note step = object_member_back[OF x(1) c this x(2) a(2) start here]
    have "buffer_skip_whitespace bs (length front) = length front + length (?nl @ tabs f d')"
      using bs blank_layout by (intro skip_over[of _ _ _ "CHR ''}''" rest]) auto
    then have skip: "buffer_skip_whitespace bs (length front) = length (front @ ?nl @ tabs f d')" by simp
    have "sees bs (length (front @ ?nl @ tabs f d')) z \<longleftrightarrow> z = CHR ''}''" for z
      using bs by (intro sees_at[of _ _ _ rest]) simp
    then have "\<not> sees bs (length (front @ ?nl @ tabs f d')) (CHR '','')"
      "length (front @ ?nl @ tabs f d') < length bs" "bs ! length (front @ ?nl @ tabs f d') = CHR ''}''"
      by (auto simp: sees_iff)
    then show ?thesis
      unfolding n(1) step[of n items] skip Let_def
      using True m by (simp add: cret_def front_def pre'_def)
  next
    case False
    let ?more = "members_text f d ms @ tabs f d' @ CHR ''}'' # rest"
    have bs: "bs = front @ CHR '','' # ?nl @ ?more"
      using Cons.prems(3) m False by (simp add: front_def pre'_def)
    then have "bs = pre' @ string_text k @ ('':'' @ pretty f (CHR 0x09)) @ value_text f d x @ CHR '','' # ?nl @ ?more"
      by (simp add: front_def)
    note step = object_member_back[OF x(1) c this x(2) not_number_chars(1) start here]
    have stay: "buffer_skip_whitespace bs (length front) = length front"
      using bs by (intro skip_none[of _ _ "CHR '',''"]) simp_all
    have comma: "sees bs (length front) (CHR '','')" using bs sees_at by blast
    obtain k1 x1 ms' where ms: "ms = (k1, x1) # ms'" using False by (cases ms) auto
    obtain q where q: "?more = tabs f d @ CHR 0x22 # q" using string_text_head[of k1] ms by auto
    have "buffer_skip_whitespace bs (length (front @ '','')) = length (front @ '','') + length (?nl @ tabs f d)"
      using bs q blank_layout by (intro skip_over[of _ _ _ "CHR 0x22" q]) auto
    then have "object_loop n (parse_value depth) bs (length front) (items @ [m]) [] = (Val (JObject ((items @ [m]) @ ms),
        length (front @ '','' @ ?nl) + length (members_text f d ms) + length (tabs f d') + 1), [])"
      using False Cons.prems bs n(2) by (intro Cons.IH) auto
    then show ?thesis
      unfolding n(1) step[of n items] stay Let_def
      using comma False m by (simp add: front_def pre'_def)
  qed
qed simp

lemma value_head:
  assumes "numbers_read j"
  shows "\<exists>c r. value_text f d j = c # r \<and> \<not> blank c \<and> c \<noteq> CHR '']'' \<and> c \<noteq> CHR ''}'' \<and> c \<noteq> CHR 0xEF"
proof (cases j)
  case (JNumber x)
  then have "\<not> beyond_double x" using assms by (simp add: number_reads_def)
  from number_text_head[OF this] obtain c r where c: "number_text x = c # r" "c = CHR ''-'' \<or> is_digit c"
    by (cases "number_text x") auto
  then have "\<not> blank c \<and> c \<noteq> CHR '']'' \<and> c \<noteq> CHR ''}'' \<and> c \<noteq> CHR 0xEF" by (auto simp: is_digit_def)
  with c JNumber show ?thesis by simp
qed (auto simp: string_text_def)

lemma parse_value_unfold:
  "parse_value depth bs off = parse_value_with
     (case depth of 0 \<Rightarrow> \<lambda>bs off. cnull | Suc n \<Rightarrow> parse_array (parse_value n))
     (case depth of 0 \<Rightarrow> \<lambda>bs off. cnull | Suc n \<Rightarrow> parse_object (parse_value n)) bs off"
  by (cases depth) (simp_all add: parse_value.simps)

lemma dispatch_literal:
  assumes "bs = pre @ t @ rest"
  shows "t = ''null'' \<Longrightarrow> parse_value_with pa po bs (length pre) = cret (JNull, length pre + 4)"
    and "t = ''false'' \<Longrightarrow> parse_value_with pa po bs (length pre) = cret (JBool False, length pre + 5)"
    and "t = ''true'' \<Longrightarrow> parse_value_with pa po bs (length pre) = cret (JBool True, length pre + 4)"
  using assms by (auto simp: parse_value_with_def sees_text_def can_read_def)

lemma dispatch:
  assumes bs: "bs = pre @ c # rest"
  shows "c = CHR 0x22 \<Longrightarrow>
      parse_value_with pa po bs (length pre) = cbind (parse_string bs (length pre)) (\<lambda>(s, off). cret (JText s, off))"
    and "c = CHR ''-'' \<or> is_digit c \<Longrightarrow> parse_value_with pa po bs (length pre) = parse_number bs (length pre)"
    and "c = CHR ''['' \<Longrightarrow> parse_value_with pa po bs (length pre) = pa bs (length pre)"
    and "c = CHR ''{'' \<Longrightarrow> parse_value_with pa po bs (length pre) = po bs (length pre)"
proof -
  have no: "\<not> sees_text bs (length pre) ''null''" "\<not> sees_text bs (length pre) ''false''"
    "\<not> sees_text bs (length pre) ''true''"
    if "c \<noteq> CHR ''n''" "c \<noteq> CHR ''f''" "c \<noteq> CHR ''t''"
    using that sees_text_at[OF bs] by auto
  have at: "length pre < length bs" "bs ! length pre = c" using bs by simp_all
  note unfold = parse_value_with_def sees_at[OF bs] at
  show "c = CHR 0x22 \<Longrightarrow>
      parse_value_with pa po bs (length pre) = cbind (parse_string bs (length pre)) (\<lambda>(s, off). cret (JText s, off))"
    using no by (simp add: unfold)
  show "parse_value_with pa po bs (length pre) = parse_number bs (length pre)" if d: "c = CHR ''-'' \<or> is_digit c"
  proof -
    have "c \<noteq> CHR ''n''" "c \<noteq> CHR ''f''" "c \<noteq> CHR ''t''" "CHR 0x22 \<noteq> c" using d by (auto simp: is_digit_def)
    with no d show ?thesis by (simp add: unfold)
  qed
  show "c = CHR ''['' \<Longrightarrow> parse_value_with pa po bs (length pre) = pa bs (length pre)"
    using no by (simp add: unfold is_digit_def)
  show "c = CHR ''{'' \<Longrightarrow> parse_value_with pa po bs (length pre) = po bs (length pre)"
    using no by (simp add: unfold is_digit_def)
qed

lemma elements_text_length: "\<forall>x \<in> set xs. value_text f d x \<noteq> [] \<Longrightarrow> length xs \<le> length (elements_text f d xs)"
  by (induction xs) (auto simp: Suc_le_eq length_greater_0_conv[symmetric] simp del: length_greater_0_conv
      intro: add_less_le_mono[of 0, simplified])

lemma members_text_length: "length ms \<le> length (members_text f d ms)"
proof (induction ms)
  case (Cons m ms)
  then show ?case by (cases m) simp
qed simp

lemma parse_array_back:
  assumes "bs = pre @ ''['' @ elements_text f d xs @ CHR '']'' # rest"
    and "\<forall>x \<in> set xs. reads_back depth f d x" and "\<forall>x \<in> set xs. numbers_read x"
  shows "parse_array (parse_value depth) bs (length pre) [] =
    (Val (JArray xs, length pre + length (elements_text f d xs) + 2), [])"
proof -
  have at: "buffer_at bs (length pre) = cret (CHR ''['')" using assms(1) by (simp add: buffer_at_def)
  have heads: "\<exists>c r. value_text f d x = c # r \<and> \<not> blank c \<and> c \<noteq> CHR '']''" if "x \<in> set xs" for x
    using value_head[of x f d] assms(3) that by blast
  then have heads': "\<forall>x \<in> set xs. \<exists>c r. value_text f d x = c # r \<and> \<not> blank c" by blast
  show ?thesis
  proof (cases "xs = []")
    case True
    then have bs: "bs = (pre @ ''['') @ CHR '']'' # rest" using assms(1) by simp
    from at True skip_none[OF bs] sees_at[OF bs, of "CHR '']''"] show ?thesis by (simp add: parse_array_def Let_def cbind_def cret_def)
  next
    case False
    then obtain x ys where "xs = x # ys" by (cases xs) auto
    with heads[of x] obtain c r where c: "elements_text f d xs = c # r" "\<not> blank c" "c \<noteq> CHR '']''" by auto
    have bs: "bs = (pre @ ''['') @ c # r @ CHR '']'' # rest" using assms(1) c(1) by simp
    have skip: "buffer_skip_whitespace bs (Suc (length pre)) = Suc (length pre)"
      using skip_none[OF bs c(2)] by simp
    have see: "\<not> sees bs (Suc (length pre)) (CHR '']'')" "Suc (length pre) < length bs"
      using sees_at[OF bs, of "CHR '']''"] c(3) bs by auto
    have "length xs \<le> length bs"
      using elements_text_length[of xs f d] heads assms(1) by fastforce
    then have "array_loop (length bs) (parse_value depth) bs (length pre) [] [] =
        (Val (JArray ([] @ xs), length (pre @ ''['') + length (elements_text f d xs) + 1), [])"
      using False assms heads' skip by (intro array_loop_back) auto
    with at skip see show ?thesis by (simp add: parse_array_def Let_def cbind_def cret_def)
  qed
qed

lemma parse_object_back:
  assumes "bs = pre @ ''{'' @ pretty f (CHR 0x0A) @ members_text f d ms @ tabs f d' @ CHR ''}'' # rest"
    and "\<forall>(k, x) \<in> set ms. nul \<notin> set k \<and> reads_back depth f d x" and "\<forall>(k, x) \<in> set ms. numbers_read x"
  shows "parse_object (parse_value depth) bs (length pre) [] =
    (Val (JObject ms, length pre + length (pretty f (CHR 0x0A)) + length (members_text f d ms) + length (tabs f d') + 2), [])"
proof -
  let ?nl = "pretty f (CHR 0x0A)"
  have at: "length pre < length bs" "bs ! length pre = CHR ''{''" using assms(1) by simp_all
  have heads: "\<forall>(k, x) \<in> set ms. \<exists>c r. value_text f d x = c # r \<and> \<not> blank c"
    using value_head[of _ f d] assms(3) by fastforce
  show ?thesis
  proof (cases "ms = []")
    case True
    then have bs: "bs = (pre @ ''{'') @ (?nl @ tabs f d') @ CHR ''}'' # rest" using assms(1) by simp
    have "buffer_skip_whitespace bs (length (pre @ ''{'')) = length (pre @ ''{'') + length (?nl @ tabs f d')"
      using blank_layout by (intro skip_over[OF bs]) auto
    then have "buffer_skip_whitespace bs (Suc (length pre)) = length (pre @ ''{'' @ ?nl @ tabs f d')" by simp
    moreover have "sees bs (length (pre @ ''{'' @ ?nl @ tabs f d')) (CHR ''}'')"
      using bs sees_at[of bs "pre @ ''{'' @ ?nl @ tabs f d'" "CHR ''}''" rest] by simp
    ultimately show ?thesis using at True by (simp add: parse_object_def Let_def cret_def)
  next
    case False
    then obtain k x ms' where ms: "ms = (k, x) # ms'" by (cases ms) auto
    obtain q where "members_text f d ms @ tabs f d' @ CHR ''}'' # rest = tabs f d @ CHR 0x22 # q"
      using string_text_head[of k] ms by auto
    then have bs: "bs = (pre @ ''{'') @ (?nl @ tabs f d) @ CHR 0x22 # q"
      and bs': "bs = (pre @ ''{'' @ ?nl @ tabs f d) @ CHR 0x22 # q" using assms(1) by simp_all
    let ?p = "length (pre @ ''{'' @ ?nl @ tabs f d)"
    have "buffer_skip_whitespace bs (length (pre @ ''{'')) = length (pre @ ''{'') + length (?nl @ tabs f d)"
      using blank_layout by (intro skip_over[OF bs]) auto
    then have skip: "buffer_skip_whitespace bs (Suc (length pre)) = ?p" by simp
    have see: "\<not> sees bs ?p (CHR ''}'')" "?p < length bs" "buffer_skip_whitespace bs ?p = ?p"
      using sees_at[OF bs', of "CHR ''}''"] skip_none[OF bs'] bs' by auto
    have "length ms \<le> length bs" using members_text_length[of ms f d] assms(1) by simp
    then have "object_loop (length bs) (parse_value depth) bs (?p - 1) [] [] =
        (Val (JObject ([] @ ms), length (pre @ ''{'' @ ?nl) + length (members_text f d ms) + length (tabs f d') + 1), [])"
      using False assms heads see(3) by (intro object_loop_back) (auto simp: Suc_diff_Suc)
    with at skip see show ?thesis by (simp add: parse_object_def Let_def)
  qed
qed

lemma json_reads_back:
  "json_within depth j \<Longrightarrow> numbers_read j \<Longrightarrow> reads_back depth f d j"
proof (induction j arbitrary: depth d)
  case JNull
  show ?case
    using dispatch_literal(1)[OF refl refl]
    by (simp add: reads_back_def parse_value_unfold cret_def)
next
  case (JBool b)
  show ?case
    using dispatch_literal(2,3)[OF refl refl]
    by (cases b) (simp_all add: reads_back_def parse_value_unfold cret_def)
next
  case (JNumber x)
  then have r: "number_reads x" "\<not> beyond_double x" by (auto simp: number_reads_def)
  obtain c t where c: "number_text x = c # t" "c = CHR ''-'' \<or> is_digit c"
    using number_text_head[OF r(2)] by (cases "number_text x") auto
  show ?case
    unfolding reads_back_def
  proof (intro allI impI)
    fix pre a and rest :: string
    assume a: "\<not> number_char a"
    let ?bs = "pre @ value_text f d (JNumber x) @ a # rest"
    have "?bs = pre @ c # t @ a # rest" using c by simp
    from dispatch(2)[OF this c(2)] parse_number_back[of ?bs pre x "a # rest"] a r(1)
    show "parse_value depth ?bs (length pre) [] = (Val (JNumber x, length pre + length (value_text f d (JNumber x))), [])"
      by (simp add: parse_value_unfold)
  qed
next
  case (JText s)
  then show ?case
    using dispatch(1)[OF _ refl] parse_string_back[OF refl, of s]
    by (simp add: reads_back_def parse_value_unfold cbind_def cret_def string_text_def)
next
  case (JArray xs)
  then obtain n where n: "depth = Suc n" by (cases depth) auto
  with JArray have xs: "\<forall>x \<in> set xs. reads_back n f (d + 1) x" "\<forall>x \<in> set xs. numbers_read x" by auto
  show ?case
    using parse_array_back[OF _ xs] dispatch(3)[OF _ refl]
    by (simp add: reads_back_def parse_value_unfold n)
next
  case (JObject ms)
  then obtain n where n: "depth = Suc n" by (cases depth) auto
  with JObject have ms: "\<forall>(k, x) \<in> set ms. nul \<notin> set k \<and> reads_back n f (d + 1) x" "\<forall>(k, x) \<in> set ms. numbers_read x"
    by fastforce+
  show ?case
    using parse_object_back[OF _ ms, where d' = d] dispatch(4)[OF _ refl]
    by (simp add: reads_back_def parse_value_unfold n)
qed

lemma parse_text:
  assumes "json_within CJSON_NESTING_LIMIT j" and "numbers_read j"
  shows "cJSON_ParseWithOpts (json_text f j) strict [] = (Val (j, length (json_text f j)), [])"
proof -
  let ?t = "json_text f j" and ?bs = "json_text f j @ [nul]"
  obtain c r where c: "?t = c # r" "\<not> blank c" "c \<noteq> CHR 0xEF"
    using value_head[OF assms(2), of f 0] by (auto simp: json_text_def)
  have "skip_utf8_bom ?bs 0 = 0" using c by (simp add: skip_utf8_bom_def numeral_eq_Suc)
  moreover have "buffer_skip_whitespace ?bs 0 = 0"
    using skip_none[of ?bs "[]" c "r @ [nul]"] c by simp
  moreover have "parse_value CJSON_NESTING_LIMIT ?bs 0 [] = (Val (j, length ?t), [])"
    using json_reads_back[OF assms, of f 0] by (auto simp: reads_back_def json_text_def dest: spec[of _ "[]"])
  moreover have "buffer_skip_whitespace ?bs (length ?t) = length ?t"
  proof -
    have "skip_blanks ?bs (length ?t + 1) = length ?t + 1" by (subst skip_blanks.simps) simp
    then have "skip_blanks ?bs (length ?t) = length ?t + 1" by (subst skip_blanks.simps) (simp add: nth_append)
    then show ?thesis by (simp add: buffer_skip_whitespace_def)
  qed
  ultimately show ?thesis by (simp add: cJSON_ParseWithOpts_def Let_def cbind_def cret_def nth_append)
qed

section \<open>Lemmas: the functions of the SDK\<close>

lemma json_of_text:
  "json_within CJSON_NESTING_LIMIT j \<Longrightarrow> numbers_read j \<Longrightarrow> json_of (json_text f j) = Some j"
  using parse_text[of j f False] by (simp add: json_of_def cJSON_Parse_def cbind_def cret_def)

lemma nul_not_in_json_text: "nul \<notin> set (json_text f j)"
  by (simp add: json_text_def nul_not_in_text)

lemma json_of_Some: "json_of t = Some j \<longleftrightarrow> cJSON_Parse t [] = (Val j, [])"
proof -
  have "snd (cJSON_Parse t []) = []" using steady_mem_ok[OF steady_cJSON_Parse, of t] by (simp add: mem_ok_def)
  then show ?thesis by (cases "cJSON_Parse t []") (auto simp: json_of_def split: result.splits)
qed

lemma json_text_ok [alloc_ok]:
  "int (length (json_text False j)) \<le> INT_MAX - 2 \<Longrightarrow> LDJSONSerialize (Some j) [] = (Val (json_text False j), [])"
  "json_of t = Some j \<Longrightarrow> LDJSONDeserialize (Some t) [] = (Val j, [])"
  using print_spec[of True False j, THEN outcome_value]
  by (simp_all add: LDJSONSerialize_def LDJSONDeserialize_def cJSON_PrintUnformatted_def json_of_Some)

lemma no_fault_cJSON_Parse: "no_fault (cJSON_Parse t)"
  unfolding cJSON_Parse_def by (rule ensures_no_fault[OF ensures_cbind[OF parse_lenient_safe, where Q = "\<lambda>_. True"]]) auto

lemma LDJSONDeserialize_cases:
  "\<exists>m'. LDJSONDeserialize (Some t) m = (Null, m') \<or> (\<exists>j. LDJSONDeserialize (Some t) m = (Val j, m') \<and> json_of t = Some j)"
proof -
  obtain r m' where r: "cJSON_Parse t m = (r, m')" by fastforce
  have "r \<noteq> Fault e" for e using r no_faultD[OF no_fault_cJSON_Parse, of t m e] by auto
  then show ?thesis
    using r steadyD[OF steady_cJSON_Parse, of t m] by (cases r) (auto simp: LDJSONDeserialize_def json_of_Some)
qed

lemma LDJSONSerialize_cases:
  "\<exists>m'. LDJSONSerialize (Some j) m \<in> {(Null, m'), (Val (json_text False j), m')}"
proof -
  obtain r m' where r: "print j False m = (r, m')" by fastforce
  have e: "ensures (print j False) (\<lambda>t. t = json_text False j)" using print_spec[of False False j] by (simp add: outcome_def)
  have "r \<noteq> Fault e" for e using r no_faultD[OF ensures_no_fault[OF e], of m e] by auto
  then show ?thesis
    using r ensures_Val[OF e, of m] by (cases r) (auto simp: LDJSONSerialize_def cJSON_PrintUnformatted_def)
qed

lemma mem_ok_text [intro!, simp]: "mem_ok (LDJSONSerialize j)" "mem_ok (LDJSONDeserialize t)"
  unfolding LDJSONSerialize_def LDJSONDeserialize_def cJSON_PrintUnformatted_def
  by (auto intro: steady_mem_ok)

lemma no_fault_text [intro!, simp]: "no_fault (LDJSONSerialize j)" "no_fault (LDJSONDeserialize t)"
proof -
  show "no_fault (LDJSONSerialize j)"
    unfolding LDJSONSerialize_def cJSON_PrintUnformatted_def
    using ensures_no_fault[OF outcome_ensures[OF print_spec[of False False]]] by (auto split: option.split)
  show "no_fault (LDJSONDeserialize t)"
    unfolding LDJSONDeserialize_def using no_fault_cJSON_Parse by (auto split: option.split)
qed

section \<open>Properties\<close>

text \<open>C12. Whatever the writer prints, compact or formatted, the reader reads back as the same tree
  (in the strict mode too, having consumed the whole text), for every tree nested at most
  \<open>CJSON_NESTING_LIMIT\<close> deep whose strings are C strings and whose numbers survive \<open>%1.15g\<close> or
  \<open>%1.17g\<close>; every integer of at most fifteen digits does.\<close>

theorem cJSON_print_parse:
  assumes "json_within CJSON_NESTING_LIMIT j" and "numbers_read j" and "int (length (json_text f j)) \<le> INT_MAX - 2"
  shows "cbind (print j f) cJSON_Parse [] = (Val j, []) \<and>
    cbind (print j f) (\<lambda>t. cJSON_ParseWithOpts t True) [] = (Val (j, length (json_text f j)), []) \<and>
    (\<bar>i\<bar> < 10 ^ 15 \<longrightarrow> numbers_read (JNumber (of_int i)))"
proof -
  have "print j f [] = (Val (json_text f j), [])"
    using print_spec[of True f j] assms(3) by (intro outcome_value) simp
  with parse_text[OF assms(1,2), of f] show ?thesis
    by (simp add: cbind_def cJSON_Parse_def cret_def number_reads_int)
qed

theorem cJSON_print_parse_witness:
  "cbind (print (JObject [(''a'', JArray [JNumber (of_int 7), JText [CHR 0x0A, CHR 0x22]])]) True) cJSON_Parse [] =
     (Val (JObject [(''a'', JArray [JNumber (of_int 7), JText [CHR 0x0A, CHR 0x22]])]), [])"
proof (rule cJSON_print_parse[THEN conjunct1])
  show "json_within CJSON_NESTING_LIMIT (JObject [(''a'', JArray [JNumber (of_int 7), JText [CHR 0x0A, CHR 0x22]])])"
    by (simp add: CJSON_NESTING_LIMIT_def)
  show "numbers_read (JObject [(''a'', JArray [JNumber (of_int 7), JText [CHR 0x0A, CHR 0x22]])])"
    using number_reads_int[of 7] by simp
  have "length (number_text 7) = 1"
    using number_text_int[of 7] by (simp add: int_to_string_def nat_to_string.simps)
  then show "int (length (json_text True (JObject [(''a'', JArray [JNumber (of_int 7), JText [CHR 0x0A, CHR 0x22]])]))) \<le> INT_MAX - 2"
    by (simp add: json_text_def string_text_def c_str_def char_text_def short_escapes_def pretty_def tabs_def INT_MAX_def)
qed

end
