(* ===== verification/Cjson_Minify.thy ===== *)
theory Cjson_Minify
  imports Cjson
begin

text \<open>
  \<open>cJSON_Minify\<close> of \<open>c-sdk-common/src/cJSON.c\<close>: blanks and comments are taken out of a text in place, with
  a read and a write position in the same buffer. Every access is checked against the buffer; the loops
  have fuel for one more turn than the buffer has bytes.

  \<open>minify_text\<close> is the same as a function from text to text. The lemmas show that working in place
  makes no difference and leaves the buffer nowhere, and that the formatted text of a tree becomes
  its unformatted text.
\<close>

section \<open>The code\<close>

definition set_byte :: "string \<Rightarrow> nat \<Rightarrow> char \<Rightarrow> string cmd" where
  "set_byte buf i c = (if i < length buf then cret (buf[i := c]) else cfault Undefined)"

primrec oneline_loop :: "nat \<Rightarrow> string \<Rightarrow> nat \<Rightarrow> nat cmd" where
  "oneline_loop 0 buf inp = cfault OutOfFuel"
| "oneline_loop (Suc fuel) buf inp =
     cbind (buffer_at buf inp) (\<lambda>c.
       if c = nul then cret inp
       else if c = CHR 0x0A then cret (inp + 1)
       else oneline_loop fuel buf (inp + 1))"

definition skip_oneline_comment :: "string \<Rightarrow> nat \<Rightarrow> nat cmd" where
  "skip_oneline_comment buf inp = oneline_loop (Suc (length buf)) buf (inp + 2)"

primrec multiline_loop :: "nat \<Rightarrow> string \<Rightarrow> nat \<Rightarrow> nat cmd" where
  "multiline_loop 0 buf inp = cfault OutOfFuel"
| "multiline_loop (Suc fuel) buf inp =
     cbind (buffer_at buf inp) (\<lambda>c.
       if c = nul then cret inp
       else
         cbind (if c = CHR ''*'' then cbind (buffer_at buf (inp + 1)) (\<lambda>d. cret (d = CHR ''/'')) else cret False) (\<lambda>ends.
           if ends then cret (inp + 2) else multiline_loop fuel buf (inp + 1)))"

definition skip_multiline_comment :: "string \<Rightarrow> nat \<Rightarrow> nat cmd" where
  "skip_multiline_comment buf inp = multiline_loop (Suc (length buf)) buf (inp + 2)"

text \<open>A byte is written before the next one is looked at, so the writes may overwrite what is read.\<close>

primrec string_loop :: "nat \<Rightarrow> string \<Rightarrow> nat \<Rightarrow> nat \<Rightarrow> (string \<times> nat \<times> nat) cmd" where
  "string_loop 0 buf inp out = cfault OutOfFuel"
| "string_loop (Suc fuel) buf inp out =
     cbind (buffer_at buf inp) (\<lambda>c.
       if c = nul then cret (buf, inp, out)
       else
         cbind (set_byte buf out c) (\<lambda>buf.
         cbind (buffer_at buf inp) (\<lambda>c.
           if c = CHR 0x22 then cbind (set_byte buf out (CHR 0x22)) (\<lambda>buf. cret (buf, inp + 1, out + 1))
           else
             cbind (if c = CHR 0x5C then cbind (buffer_at buf (inp + 1)) (\<lambda>d. cret (d = CHR 0x22)) else cret False) (\<lambda>escaped.
               if escaped then
                 cbind (buffer_at buf (inp + 1)) (\<lambda>d.
                 cbind (set_byte buf (out + 1) d) (\<lambda>buf. string_loop fuel buf (inp + 2) (out + 2)))
               else string_loop fuel buf (inp + 1) (out + 1)))))"

definition minify_string :: "string \<Rightarrow> nat \<Rightarrow> nat \<Rightarrow> (string \<times> nat \<times> nat) cmd" where
  "minify_string buf inp out =
     cbind (buffer_at buf inp) (\<lambda>c.
     cbind (set_byte buf out c) (\<lambda>buf. string_loop (Suc (length buf)) buf (inp + 1) (out + 1)))"

definition blank :: "char \<Rightarrow> bool" where
  "blank c \<longleftrightarrow> c \<in> {CHR '' '', CHR 0x09, CHR 0x0D, CHR 0x0A}"

primrec minify_loop :: "nat \<Rightarrow> string \<Rightarrow> nat \<Rightarrow> nat \<Rightarrow> string cmd" where
  "minify_loop 0 buf json into = cfault OutOfFuel"
| "minify_loop (Suc fuel) buf json into =
     cbind (buffer_at buf json) (\<lambda>c.
       if c = nul then set_byte buf into nul
       else if blank c then minify_loop fuel buf (json + 1) into
       else if c = CHR ''/'' then
         cbind (buffer_at buf (json + 1)) (\<lambda>d.
           if d = CHR ''/'' then cbind (skip_oneline_comment buf json) (\<lambda>json. minify_loop fuel buf json into)
           else if d = CHR ''*'' then cbind (skip_multiline_comment buf json) (\<lambda>json. minify_loop fuel buf json into)
           else minify_loop fuel buf (json + 1) into)
       else if c = CHR 0x22 then
         cbind (minify_string buf json into) (\<lambda>(buf, json, into). minify_loop fuel buf json into)
       else cbind (set_byte buf into c) (\<lambda>buf. minify_loop fuel buf (json + 1) (into + 1)))"

definition cJSON_Minify :: "string option \<Rightarrow> string option cmd" where
  "cJSON_Minify json =
     (case json of
        None \<Rightarrow> cret None
      | Some buf \<Rightarrow> cbind (minify_loop (Suc (length buf)) buf 0 0) (\<lambda>buf. cret (Some buf)))"

section \<open>The reference: minified text\<close>

fun after_line :: "string \<Rightarrow> string" where
  "after_line [] = []"
| "after_line (c # s) = (if c = CHR 0x0A then s else after_line s)"

fun after_comment :: "string \<Rightarrow> string" where
  "after_comment [] = []"
| "after_comment (c # s) = (if c = CHR ''*'' \<and> s \<noteq> [] \<and> hd s = CHR ''/'' then tl s else after_comment s)"

text \<open>The rest of a string up to its end, and the text behind it.\<close>

fun string_split :: "string \<Rightarrow> string \<times> string" where
  "string_split [] = ([], [])"
| "string_split (c # s) =
     (if c = CHR 0x22 then ([c], s)
      else if c = CHR 0x5C \<and> s \<noteq> [] \<and> hd s = CHR 0x22 then
        (let (q, r) = string_split (tl s) in (c # CHR 0x22 # q, r))
      else (let (q, r) = string_split s in (c # q, r)))"

lemma after_line_length: "length (after_line s) \<le> length s"
  by (induction s rule: after_line.induct) auto

lemma after_comment_length: "length (after_comment s) \<le> length s"
  by (induction s rule: after_comment.induct) auto

lemma string_split_length: "string_split s = (q, r) \<Longrightarrow> length r \<le> length s"
  by (induction s arbitrary: q r rule: string_split.induct) (fastforce split: if_splits prod.splits)+

function minify_text :: "string \<Rightarrow> string" where
  "minify_text [] = []"
| "minify_text (c # s) =
     (if blank c then minify_text s
      else if c = CHR ''/'' then
        (if s \<noteq> [] \<and> hd s = CHR ''/'' then minify_text (after_line (tl s))
         else if s \<noteq> [] \<and> hd s = CHR ''*'' then minify_text (after_comment (tl s))
         else minify_text s)
      else if c = CHR 0x22 then c # fst (string_split s) @ minify_text (snd (string_split s))
      else c # minify_text s)"
  by pat_completeness auto

termination
proof (relation "measure length", goal_cases)
  case (3 c s)
  then show ?case using after_line_length[of "tl s"] by (cases s) auto
next
  case (4 c s)
  then show ?case using after_comment_length[of "tl s"] by (cases s) auto
next
  case (6 c s)
  then show ?case using string_split_length[of s] by (cases "string_split s") (auto simp: less_Suc_eq_le)
qed auto

section \<open>Lemmas: working in place\<close>

text \<open>From position \<open>i\<close> on the buffer holds the text \<open>s\<close> and its terminator.\<close>

definition text_at :: "string \<Rightarrow> nat \<Rightarrow> string \<Rightarrow> bool" where
  "text_at buf i s \<longleftrightarrow> (\<exists>rest. drop i buf = s @ nul # rest) \<and> nul \<notin> set s"

lemma text_at_Cons:
  assumes "text_at buf i (c # s)"
  shows "i < length buf" "buf ! i = c" "c \<noteq> nul" "text_at buf (Suc i) s"
proof -
  obtain rest where r: "drop i buf = c # s @ nul # rest" using assms by (auto simp: text_at_def)
  then show "i < length buf" using drop_eq_Nil[of i buf] by (cases "i < length buf") auto
  then show "buf ! i = c" using r by (metis Cons_nth_drop_Suc list.inject)
  have "drop (Suc i) buf = s @ nul # rest" using r by (metis drop_Suc list.sel(3) tl_drop)
  then show "text_at buf (Suc i) s" "c \<noteq> nul" using assms by (auto simp: text_at_def)
qed

lemma text_at_Nil:
  assumes "text_at buf i []"
  shows "i < length buf" "buf ! i = nul"
proof -
  obtain rest where r: "drop i buf = nul # rest" using assms by (auto simp: text_at_def)
  then show "i < length buf" using drop_eq_Nil[of i buf] by (cases "i < length buf") auto
  then show "buf ! i = nul" using r by (metis Cons_nth_drop_Suc list.inject)
qed

lemma text_at_length: "text_at buf i s \<Longrightarrow> i + length s < length buf"
proof -
  assume "text_at buf i s"
  then obtain rest where r: "drop i buf = s @ nul # rest" by (auto simp: text_at_def)
  from arg_cong[OF this, of length] show ?thesis by simp
qed

lemma text_at_before: "text_at buf i s \<Longrightarrow> out < i \<Longrightarrow> text_at (buf[out := c]) i s"
  by (simp add: text_at_def)

lemma text_at_copy: "text_at buf i (c # s) \<Longrightarrow> out \<le> i \<Longrightarrow> text_at (buf[out := c]) i (c # s)"
  using text_at_before[of buf i "c # s" out c] text_at_Cons(2)[of buf i c s] by (cases "out = i") auto

lemma take_write: "out < length buf \<Longrightarrow> take (Suc out) (buf[out := c]) = take out buf @ [c]"
  by (simp add: take_Suc_conv_app_nth)

lemma read_text [simp]: "i < length buf \<Longrightarrow> cbind (buffer_at buf i) f m = f (buf ! i) m"
  by (simp add: buffer_at_def cbind_def cret_def)

lemma write_text [simp]: "i < length buf \<Longrightarrow> cbind (set_byte buf i c) f m = f (buf[i := c]) m"
  by (simp add: set_byte_def cbind_def cret_def)

lemma cret_then [simp]: "cbind (cret a) f m = f a m"
  by (simp add: cbind_def cret_def)

lemma read_nested [simp]: "i < length buf \<Longrightarrow> cbind (cbind (buffer_at buf i) f) g m = cbind (f (buf ! i)) g m"
  by (simp add: buffer_at_def cbind_def cret_def)

lemma text_next: "text_at buf i s \<Longrightarrow> i < length buf \<and> buf ! i = (if s = [] then nul else hd s)"
  by (cases s) (auto dest: text_at_Cons text_at_Nil)

lemma oneline_ok:
  "text_at buf i s \<Longrightarrow> length s < fuel \<Longrightarrow>
   \<exists>j\<ge>i. (\<forall>m. oneline_loop fuel buf i m = (Val j, m)) \<and> text_at buf j (after_line s)"
proof (induction s arbitrary: i fuel)
  case Nil
  then show ?case using text_at_Nil[OF Nil.prems(1)] by (cases fuel) (auto simp: cret_def)
next
  case (Cons c s)
  obtain f where f: "fuel = Suc f" "length s < f" using Cons.prems(2) by (cases fuel) auto
  note t = text_at_Cons[OF Cons.prems(1)]
  from Cons.IH[OF t(4) f(2)] t f(1) show ?case by (auto simp: cret_def intro: Suc_leD)
qed

lemma multiline_ok:
  "text_at buf i s \<Longrightarrow> length s < fuel \<Longrightarrow>
   \<exists>j\<ge>i. (\<forall>m. multiline_loop fuel buf i m = (Val j, m)) \<and> text_at buf j (after_comment s)"
proof (induction s arbitrary: i fuel)
  case Nil
  then show ?case using text_at_Nil[OF Nil.prems(1)] by (cases fuel) (auto simp: cret_def)
next
  case (Cons c s)
  obtain f where f: "fuel = Suc f" "length s < f" using Cons.prems(2) by (cases fuel) auto
  note t = text_at_Cons[OF Cons.prems(1)]
  note n = text_next[OF t(4)]
  show ?case
  proof (cases "c = CHR ''*'' \<and> s \<noteq> [] \<and> hd s = CHR ''/''")
    case True
    then obtain r where r: "s = CHR ''/'' # r" by (cases s) auto
    from text_at_Cons(4)[OF t(4)[unfolded r]] t n True f(1) r show ?thesis
      by (intro exI[of _ "Suc (Suc i)"]) (simp add: cret_def numeral_2_eq_2)
  next
    case False
    then have "after_comment (c # s) = after_comment s" by auto
    moreover have "\<not> (c = CHR ''*'' \<and> buf ! Suc i = CHR ''/'')" using n False by (auto split: if_splits)
    ultimately show ?thesis using Cons.IH[OF t(4) f(2)] t n f(1) by (auto intro: Suc_leD)
  qed
qed

lemma string_loop_ok:
  "text_at buf i s \<Longrightarrow> out \<le> i \<Longrightarrow> length s < fuel \<Longrightarrow>
   \<exists>buf' j out'. (\<forall>m. string_loop fuel buf i out m = (Val (buf', j, out'), m)) \<and> text_at buf' j (snd (string_split s)) \<and>
     out' \<le> j \<and> take out' buf' = take out buf @ fst (string_split s) \<and> length buf' = length buf"
proof (induction s arbitrary: buf i out fuel rule: string_split.induct)
  case 1
  then show ?case using text_at_Nil[OF 1(1)] by (cases fuel) (auto simp: cret_def)
next
  case (2 c s)
  obtain f where f: "fuel = Suc f" "length s < f" using 2(5) by (cases fuel) auto
  note t = text_at_Cons[OF 2(3)]
  let ?b = "buf[out := c]"
  have t': "text_at ?b (Suc i) s" using 2(4) t(4) by (intro text_at_before) auto
  have i: "?b ! i = c" "i < length ?b" "out < length buf" using t(1,2) 2(4) by (auto simp: nth_list_update)
  have w: "take (Suc out) ?b = take out buf @ [c]" by (rule take_write[OF i(3)])
  note n = text_next[OF t']
  show ?case
  proof (cases "c = CHR 0x22")
    case True
    then have "string_loop fuel buf i out m = (Val (?b, Suc i, Suc out), m)" for m
      unfolding f(1) string_loop.simps using t(1-3) i by (simp add: cret_def)
    with True t' w 2(4) show ?thesis
      by (intro exI[of _ ?b] exI[of _ "Suc i"] exI[of _ "Suc out"]) simp
  next
    case False
    show ?thesis
    proof (cases "c = CHR 0x5C \<and> s \<noteq> [] \<and> hd s = CHR 0x22")
      case True
      then obtain r where r: "s = CHR 0x22 # r" by (cases s) auto
      let ?b2 = "?b[Suc out := CHR 0x22]"
      have "text_at ?b2 (Suc i) (CHR 0x22 # r)" using t' r 2(4) by (intro text_at_copy) auto
      from text_at_Cons(4)[OF this] have t2: "text_at ?b2 (Suc (Suc i)) r" .
      have w2: "take (Suc (Suc out)) ?b2 = take out buf @ [c, CHR 0x22]"
        using take_write[of "Suc out" ?b "CHR 0x22"] w n 2(4) by simp
      obtain b' j o' where IH: "\<And>m. string_loop f ?b2 (Suc (Suc i)) (Suc (Suc out)) m = (Val (b', j, o'), m)"
          "text_at b' j (snd (string_split r))" "o' \<le> j" "take o' b' = take (Suc (Suc out)) ?b2 @ fst (string_split r)" "length b' = length ?b2"
        using 2(1)[OF False True, of ?b2 "Suc (Suc i)" "Suc (Suc out)" f] t2 2(4) f(2) r by auto
      have "string_split (c # s) = (c # CHR 0x22 # fst (string_split r), snd (string_split r))"
        using False True r by (simp add: case_prod_unfold Let_def)
      moreover have "Suc out < length ?b" using n 2(4) by simp
      then have "string_loop fuel buf i out m = (Val (b', j, o'), m)" for m
        unfolding f(1) string_loop.simps using t(1-3) i False True n r IH(1) by (simp add: numeral_2_eq_2)
      ultimately show ?thesis using IH(2-) w2 by (intro exI[of _ b'] exI[of _ j] exI[of _ o']) simp
    next
      case nesc: False
      obtain b' j o' where IH: "\<And>m. string_loop f ?b (Suc i) (Suc out) m = (Val (b', j, o'), m)"
          "text_at b' j (snd (string_split s))" "o' \<le> j" "take o' b' = take (Suc out) ?b @ fst (string_split s)" "length b' = length ?b"
        using 2(2)[OF False nesc, of ?b "Suc i" "Suc out" f] t' 2(4) f(2) by auto
      have "string_split (c # s) = (c # fst (string_split s), snd (string_split s))"
        using False nesc by (auto simp: case_prod_unfold Let_def)
      moreover have "\<not> (c = CHR 0x5C \<and> ?b ! Suc i = CHR 0x22)" using n nesc by (auto split: if_splits)
      then have "string_loop fuel buf i out m = (Val (b', j, o'), m)" for m
        unfolding f(1) string_loop.simps using t(1-3) i False n IH(1) by auto
      ultimately show ?thesis using IH(2-) w by (intro exI[of _ b'] exI[of _ j] exI[of _ o']) simp
    qed
  qed
qed

lemma minify_string_ok:
  assumes "text_at buf i (CHR 0x22 # s)" and "out \<le> i"
  shows "\<exists>buf' j out'. (\<forall>m. minify_string buf i out m = (Val (buf', j, out'), m)) \<and> text_at buf' j (snd (string_split s)) \<and>
    out' \<le> j \<and> take out' buf' = take out buf @ CHR 0x22 # fst (string_split s) \<and> length buf' = length buf"
proof -
  note t = text_at_Cons[OF assms(1)]
  let ?b = "buf[out := CHR 0x22]"
  have t': "text_at ?b (Suc i) s" using assms(2) t(4) by (intro text_at_before) auto
  have "length s < Suc (length ?b)" using text_at_length[OF t'] by simp
  from string_loop_ok[OF t' _ this, of "Suc out"] assms(2) obtain b' j o' where
    "\<And>m. string_loop (Suc (length ?b)) ?b (Suc i) (Suc out) m = (Val (b', j, o'), m)" "text_at b' j (snd (string_split s))"
    "o' \<le> j" "take o' b' = take (Suc out) ?b @ fst (string_split s)" "length b' = length buf" by auto
  then show ?thesis
    using t(1,2) assms(2) take_write[of out buf "CHR 0x22"]
    by (intro exI[of _ b'] exI[of _ j] exI[of _ o']) (simp add: minify_string_def del: string_loop.simps)
qed

lemma minify_loop_ok:
  "text_at buf i s \<Longrightarrow> out \<le> i \<Longrightarrow> length s < fuel \<Longrightarrow>
   \<exists>rest. (\<forall>m. minify_loop fuel buf i out m = (Val (take out buf @ minify_text s @ nul # rest), m)) \<and>
     length buf = out + length (minify_text s) + Suc (length rest)"
proof (induction s arbitrary: buf i out fuel rule: minify_text.induct)
  case 1
  note t = text_at_Nil[OF 1(1)]
  have "buf[out := nul] = take out buf @ nul # drop (Suc out) buf" using t(1) 1(2) by (simp add: upd_conv_take_nth_drop)
  with t 1 show ?case by (cases fuel) (auto simp: set_byte_def cret_def)
next
  case (2 c s)
  obtain f where f: "fuel = Suc f" "length s < f" using 2(9) by (cases fuel) auto
  note t = text_at_Cons[OF 2(7)]
  note n = text_next[OF t(4)]
  have skip: "text_at buf (Suc (Suc i)) (tl s)" if "s \<noteq> []"
    using t(4) that by (cases s) (auto dest: text_at_Cons)
  consider (blank) "blank c" | (line) "\<not> blank c" "c = CHR ''/''" "s \<noteq> [] \<and> hd s = CHR ''/''"
    | (comment) "\<not> blank c" "c = CHR ''/''" "\<not> (s \<noteq> [] \<and> hd s = CHR ''/'')" "s \<noteq> [] \<and> hd s = CHR ''*''"
    | (slash) "\<not> blank c" "c = CHR ''/''" "\<not> (s \<noteq> [] \<and> hd s = CHR ''/'')" "\<not> (s \<noteq> [] \<and> hd s = CHR ''*'')"
    | (str) "\<not> blank c" "c \<noteq> CHR ''/''" "c = CHR 0x22" | (other) "\<not> blank c" "c \<noteq> CHR ''/''" "c \<noteq> CHR 0x22" by blast
  then show ?case
  proof cases
    case blank
    from 2(1)[OF blank t(4) _ f(2), of out] 2(8) t f(1) blank show ?thesis by auto
  next
    case line
    have len: "length (tl s) < Suc (length buf)" "length (after_line (tl s)) < f"
      using text_at_length[OF t(4)] after_line_length[of "tl s"] f(2) by auto
    from oneline_ok[OF skip len(1)] line(3) obtain j where j: "\<And>m. skip_oneline_comment buf i m = (Val j, m)"
        "text_at buf j (after_line (tl s))" "Suc (Suc i) \<le> j"
      by (auto simp: skip_oneline_comment_def simp del: oneline_loop.simps)
    from 2(2)[OF line j(2) _ len(2), of out] 2(8) j t n line f(1) show ?thesis
      by (auto simp: cbind_def[of "skip_oneline_comment _ _"])
  next
    case comment
    have len: "length (tl s) < Suc (length buf)" "length (after_comment (tl s)) < f"
      using text_at_length[OF t(4)] after_comment_length[of "tl s"] f(2) by auto
    from multiline_ok[OF skip len(1)] comment(4) obtain j where j: "\<And>m. skip_multiline_comment buf i m = (Val j, m)"
        "text_at buf j (after_comment (tl s))" "Suc (Suc i) \<le> j"
      by (auto simp: skip_multiline_comment_def simp del: multiline_loop.simps)
    from 2(3)[OF comment j(2) _ len(2), of out] 2(8) j t n comment f(1) show ?thesis
      by (auto simp: cbind_def[of "skip_multiline_comment _ _"])
  next
    case slash
    then have "buf ! Suc i \<noteq> CHR ''/''" "buf ! Suc i \<noteq> CHR ''*''" using n by (auto split: if_splits)
    with 2(4)[OF slash t(4) _ f(2), of out] 2(8) t n slash f(1) show ?thesis by auto
  next
    case str
    obtain b' j o' where b: "\<And>m. minify_string buf i out m = (Val (b', j, o'), m)" "text_at b' j (snd (string_split s))"
        "o' \<le> j" "take o' b' = take out buf @ CHR 0x22 # fst (string_split s)" "length b' = length buf"
      using minify_string_ok[OF 2(7)[unfolded str(3)] 2(8)] by auto
    have "length (snd (string_split s)) < f" using string_split_length[of s] f(2) by (cases "string_split s") auto
    from 2(5)[OF str b(2,3) this] obtain rest where rest: "\<And>m. minify_loop f b' j o' m =
        (Val (take o' b' @ minify_text (snd (string_split s)) @ nul # rest), m)"
        "length b' = o' + length (minify_text (snd (string_split s))) + Suc (length rest)" by auto
    have "o' \<le> length b'" using rest(2) by simp
    then have "o' = out + Suc (length (fst (string_split s)))" using arg_cong[OF b(4), of length] t(1) 2(8) by simp
    with rest b t str f(1) show ?thesis
      by (intro exI[of _ rest]) (simp add: cbind_def[of "minify_string _ _ _"])
  next
    case other
    let ?b = "buf[out := c]"
    have "text_at ?b (Suc i) s" using 2(8) t(4) by (intro text_at_before) auto
    from 2(6)[OF other this _ f(2), of "Suc out"] 2(8) obtain rest where rest: "\<And>m. minify_loop f ?b (Suc i) (Suc out) m =
        (Val (take (Suc out) ?b @ minify_text s @ nul # rest), m)" "length ?b = Suc out + length (minify_text s) + Suc (length rest)" by auto
    have "out < length buf" using t(1) 2(8) by simp
    with rest t other f(1) take_write[of out buf c] show ?thesis by (intro exI[of _ rest]) simp
  qed
qed

text \<open>The code computes the minified text, in any buffer that holds a terminated text.\<close>

lemma cJSON_Minify_text:
  assumes "nul \<notin> set s"
  shows "\<exists>rest. (\<forall>m. cJSON_Minify (Some (s @ nul # more_bytes)) m = (Val (Some (minify_text s @ nul # rest)), m)) \<and>
    length (s @ nul # more_bytes) = length (minify_text s @ nul # rest)"
proof -
  have t: "text_at (s @ nul # more_bytes) 0 s" using assms by (simp add: text_at_def)
  from minify_loop_ok[OF t, of 0 "Suc (length (s @ nul # more_bytes))"] show ?thesis
    by (auto simp: cJSON_Minify_def cbind_def cret_def simp del: minify_loop.simps)
qed

section \<open>Lemmas: the text of a tree\<close>

text \<open>A string whose last character is a backslash ends in an escaped backslash and a quote.\<close>

definition ends_plain :: "string \<Rightarrow> bool" where
  "ends_plain s \<longleftrightarrow> c_str s = [] \<or> last (c_str s) \<noteq> CHR 0x5C"

fun minifiable :: "json \<Rightarrow> bool" where
  "minifiable (JText s) \<longleftrightarrow> ends_plain s"
| "minifiable (JArray xs) \<longleftrightarrow> (\<forall>x\<in>set xs. minifiable x)"
| "minifiable (JObject ms) \<longleftrightarrow> (\<forall>(k, x)\<in>set ms. ends_plain k \<and> minifiable x)"
| "minifiable _ \<longleftrightarrow> True"

lemma split_plain:
  "\<forall>c\<in>set w. c \<noteq> CHR 0x22 \<and> c \<noteq> CHR 0x5C \<Longrightarrow> string_split (w @ s) = (w @ fst (string_split s), snd (string_split s))"
  by (induction w) (auto simp: case_prod_unfold Let_def)

lemma split_escape:
  "d \<noteq> CHR 0x22 \<Longrightarrow> d \<noteq> CHR 0x5C \<Longrightarrow>
   string_split (CHR 0x5C # d # s) = (CHR 0x5C # d # fst (string_split s), snd (string_split s))"
  by (simp add: case_prod_unfold Let_def)

text \<open>An escaped character is copied, unless it is a backslash in front of the closing quote.\<close>

lemma split_char:
  assumes "c = CHR 0x5C \<Longrightarrow> s \<noteq> [] \<and> hd s \<noteq> CHR 0x22"
  shows "string_split (char_text c @ s) = (char_text c @ fst (string_split s), snd (string_split s))"
proof (cases "31 < (of_char c :: nat) \<and> c \<noteq> CHR 0x22 \<and> c \<noteq> CHR 0x5C")
  case True
  then show ?thesis using split_plain[of "[c]" s] by (simp add: char_text_def)
next
  case False
  consider "c = CHR 0x22" | "c = CHR 0x5C" | e where "c \<noteq> CHR 0x22" "c \<noteq> CHR 0x5C" "map_of short_escapes c = Some e"
    | "c \<noteq> CHR 0x22" "c \<noteq> CHR 0x5C" "map_of short_escapes c = None" "(of_char c :: nat) \<le> 31" using False by fastforce
  then show ?thesis
  proof cases
    case 1
    then show ?thesis by (simp add: char_text_def short_escapes_def case_prod_unfold Let_def)
  next
    case 2
    with assms show ?thesis by (auto simp: char_text_def short_escapes_def case_prod_unfold Let_def)
  next
    case 3
    then have "e \<noteq> CHR 0x22" "e \<noteq> CHR 0x5C" by (auto simp: short_escapes_def split: if_splits)
    with 3 False split_escape[of e s] show ?thesis by (simp add: char_text_def)
  next
    case 4
    have "\<forall>d\<in>set (tl (unicode_text c)). d \<noteq> CHR 0x22 \<and> d \<noteq> CHR 0x5C"
      using 4(4) hex_char_plain[of "of_char c div 16"] hex_char_plain[of "of_char c mod 16"] by (auto simp: unicode_text_def)
    from split_plain[OF this, of s] 4 split_escape[of "CHR ''u''" "tl (unicode_text c) @ s"] show ?thesis
      by (auto simp: char_text_def unicode_text_def)
  qed
qed

lemma char_text_head: "char_text c \<noteq> [] \<and> hd (char_text c) \<noteq> CHR 0x22"
  by (simp add: char_text_def)

lemma split_string:
  "s = [] \<or> last s \<noteq> CHR 0x5C \<Longrightarrow>
   string_split (concat (map char_text s) @ CHR 0x22 # r) = (concat (map char_text s) @ [CHR 0x22], r)"
proof (induction s)
  case (Cons c s)
  let ?t = "concat (map char_text s) @ CHR 0x22 # r"
  have "?t \<noteq> [] \<and> hd ?t \<noteq> CHR 0x22" if "c = CHR 0x5C"
    using that Cons.prems char_text_head by (cases s) auto
  from split_char[of c ?t, OF this] Cons.IH Cons.prems show ?case by (cases "s = []") auto
qed simp

lemma minify_string_text: "ends_plain k \<Longrightarrow> minify_text (string_text k @ s) = string_text k @ minify_text s"
  using split_string[of "c_str k" s] by (simp add: string_text_def ends_plain_def blank_def)

lemma minify_plain:
  "\<forall>c\<in>set w. \<not> blank c \<and> c \<noteq> CHR ''/'' \<and> c \<noteq> CHR 0x22 \<Longrightarrow> minify_text (w @ s) = w @ minify_text s"
  by (induction w) auto

lemma minify_blanks: "\<forall>c\<in>set w. blank c \<Longrightarrow> minify_text (w @ s) = minify_text s"
  by (induction w) auto

lemma number_char_kept: "number_char c \<Longrightarrow> \<not> blank c \<and> c \<noteq> CHR ''/'' \<and> c \<noteq> CHR 0x22"
  by (auto simp: number_char_def is_digit_def blank_def)

lemma minify_number: "minify_text (number_text d @ s) = number_text d @ minify_text s"
  using format_g_chars number_char_kept
  by (intro minify_plain) (auto simp: number_text_def Let_def blank_def split: if_splits)

lemma minify_layout:
  "minify_text (tabs f d @ s) = minify_text s" "blank c \<Longrightarrow> minify_text (pretty f c @ s) = minify_text s"
  using minify_blanks[of "tabs f d" s] minify_blanks[of "pretty f c" s] by (auto simp: tabs_def pretty_def blank_def)

lemma plain_depth:
  "value_text False (Suc d) j = value_text False d j" "elements_text False (Suc d) xs = elements_text False d xs"
  "members_text False (Suc d) ms = members_text False d ms"
  by (induction False d j and False d xs and False d ms rule: value_text_elements_text_members_text.induct)
    (simp_all add: tabs_def)

lemma plain_layout: "tabs False d = []" "pretty False c = []"
  by (simp_all add: tabs_def pretty_def)

lemma minify_texts:
  "minifiable j \<Longrightarrow> minify_text (value_text f d j @ s) = value_text False 0 j @ minify_text s"
  "\<forall>x\<in>set xs. minifiable x \<Longrightarrow> minify_text (elements_text f d xs @ s) = elements_text False 0 xs @ minify_text s"
  "\<forall>(k, x)\<in>set ms. ends_plain k \<and> minifiable x \<Longrightarrow>
     minify_text (members_text f d ms @ s) = members_text False 0 ms @ minify_text s"
  by (induction f d j and f d xs and f d ms arbitrary: s and s and s
      rule: value_text_elements_text_members_text.induct)
    (auto simp: minify_number minify_string_text minify_layout blank_def plain_depth plain_layout)

lemma c_str_append: "nul \<notin> set s \<Longrightarrow> c_str (s @ nul # rest) = s"
  unfolding c_str_def by (subst takeWhile_append2) auto

text \<open>A string that ends in a backslash: its end is not seen, and the scan goes on to the next quote.\<close>

lemma split_backslash:
  "string_split (concat (map char_text (x @ [CHR 0x5C])) @ CHR 0x22 # s) =
     (concat (map char_text (x @ [CHR 0x5C])) @ CHR 0x22 # fst (string_split s), snd (string_split s))"
proof (induction x)
  case Nil
  then show ?case by (simp add: char_text_def short_escapes_def case_prod_unfold Let_def)
next
  case (Cons c x)
  let ?t = "concat (map char_text (x @ [CHR 0x5C])) @ CHR 0x22 # s"
  have "?t \<noteq> [] \<and> hd ?t \<noteq> CHR 0x22" using char_text_head by (cases x) auto
  with split_char[of c ?t] Cons.IH show ?case by simp
qed

text \<open>What is written for the characters of a string, read outside of a string: only the spaces go.\<close>

lemma minify_chars:
  assumes "CHR 0x22 \<notin> set y" and "CHR ''/'' \<notin> set y"
  shows "minify_text (concat (map char_text y) @ s) =
    concat (map char_text (filter (\<lambda>c. c \<noteq> CHR '' '') y)) @ minify_text s"
  using assms
proof (induction y)
  case (Cons c y)
  have "minify_text (char_text c @ r) = char_text c @ minify_text r" if "c \<noteq> CHR '' ''" for r
  proof (rule minify_plain)
    have "hex_char d \<noteq> CHR 0x22 \<and> \<not> blank (hex_char d) \<and> hex_char d \<noteq> CHR ''/''" if "d < 16" for d
      using hex_digit_hex_char[OF that] by (auto simp: hex_digit_def blank_def Let_def split: if_splits)
    then show "\<forall>d\<in>set (char_text c). \<not> blank d \<and> d \<noteq> CHR ''/'' \<and> d \<noteq> CHR 0x22"
      using Cons.prems that
      by (auto simp: char_text_def unicode_text_def short_escapes_def blank_def split: if_splits)
  qed
  moreover have "minify_text (char_text (CHR '' '') @ r) = minify_text r" for r
    by (simp add: char_text_def blank_def)
  ultimately show ?case using Cons by simp
qed simp

lemma minify_lost_quote:
  assumes "nul \<notin> set x" and "nul \<notin> set y" and "CHR 0x22 \<notin> set y" and "CHR ''/'' \<notin> set y"
  shows "minify_text (json_text f (JArray [JText (x @ [CHR 0x5C]), JText y])) =
    json_text f (JArray [JText (x @ [CHR 0x5C]), JText (filter (\<lambda>c. c \<noteq> CHR '' '') y)])"
proof -
  have c: "c_str (x @ [CHR 0x5C]) = x @ [CHR 0x5C]" "c_str y = y"
      "c_str (filter (\<lambda>c. c \<noteq> CHR '' '') y) = filter (\<lambda>c. c \<noteq> CHR '' '') y"
    using assms(1,2) by (simp_all add: c_str_id)
  show ?thesis
    using split_backslash[of x] minify_chars[OF assms(3,4)]
    by (simp add: json_text_def string_text_def c blank_def pretty_def)
qed

section \<open>Properties\<close>

text \<open>C18. \<open>cJSON_Minify\<close> undoes formatting: on the text that \<open>cJSON_Print\<close> writes for a tree it leaves, in the same
  buffer and without an access outside of it, the text that \<open>cJSON_PrintUnformatted\<close> writes, where no string
  and no name of the tree ends in a backslash; a text that is unformatted already stays as it is.\<close>

theorem cJSON_Minify_unformats:
  assumes "minifiable j"
  shows "\<exists>buf. cJSON_Minify (Some (json_text f j @ [nul])) m = (Val (Some buf), m) \<and>
    c_str buf = json_text False j \<and> length buf = length (json_text f j @ [nul])"
proof -
  have t: "minify_text (json_text f j) = json_text False j"
    using minify_texts(1)[OF assms, of f 0 "[]"] by (simp add: json_text_def)
  have n: "nul \<notin> set (json_text g j)" for g by (simp add: json_text_def nul_not_in_text)
  from cJSON_Minify_text[OF n, of f "[]"] obtain rest where
    "cJSON_Minify (Some (json_text f j @ [nul])) m = (Val (Some (json_text False j @ nul # rest)), m)"
    "length (json_text f j @ [nul]) = length (json_text False j @ nul # rest)" unfolding t by blast
  moreover have "c_str (json_text False j @ nul # rest) = json_text False j" using n c_str_append by blast
  ultimately show ?thesis by auto
qed

theorem cJSON_Minify_unformats_witness:
  "\<exists>buf. cJSON_Minify (Some (json_text True (JObject [(''a b'', JArray [JBool True, JText ''c d''])]) @ [nul])) [] = (Val (Some buf), []) \<and>
    c_str buf = json_text False (JObject [(''a b'', JArray [JBool True, JText ''c d''])])"
  using cJSON_Minify_unformats[of "JObject [(''a b'', JArray [JBool True, JText ''c d''])]" True "[]"]
  by (auto simp: ends_plain_def c_str_def)

text \<open>C36. \<open>minify_string\<close> takes the quote behind an escaped backslash for an escaped quote and so loses track of
  where strings end. Let \<open>x\<close> and \<open>y\<close> be any strings, \<open>y\<close> without quotes and slashes: minifying the text that the
  library itself prints for the array of \<open>x\<close> followed by a backslash and \<open>y\<close>, formatted or not, gives the text of the
  array whose second string is \<open>y\<close> without its spaces. So the value of the document changes whenever \<open>y\<close>
  contains a space.\<close>

theorem cJSON_Minify_damages_string:
  assumes "nul \<notin> set x" and "nul \<notin> set y" and "CHR 0x22 \<notin> set y" and "CHR ''/'' \<notin> set y"
  shows "\<exists>buf. cJSON_Minify (Some (json_text f (JArray [JText (x @ [CHR 0x5C]), JText y]) @ [nul])) m = (Val (Some buf), m) \<and>
    c_str buf = json_text f (JArray [JText (x @ [CHR 0x5C]), JText (filter (\<lambda>c. c \<noteq> CHR '' '') y)])"
proof -
  have n: "nul \<notin> set (json_text f j)" for j by (simp add: json_text_def nul_not_in_text)
  from cJSON_Minify_text[OF n, of "JArray [JText (x @ [CHR 0x5C]), JText y]" "[]"] show ?thesis
    by (auto simp: minify_lost_quote[OF assms] c_str_append n)
qed

theorem cJSON_Minify_damages_string_witness:
  "\<exists>buf. cJSON_Minify (Some (json_text True (JArray [JText (''C:'' @ [CHR 0x5C]), JText ''a b'']) @ [nul])) [] = (Val (Some buf), []) \<and>
    c_str buf = json_text True (JArray [JText (''C:'' @ [CHR 0x5C]), JText ''ab''])"
  using cJSON_Minify_damages_string[of "''C:''" "''a b''" True "[]"] by simp

end
