(* ===== verification/Cjson_List.thy ===== *)
theory Cjson_List
  imports Json
begin

text \<open>
  The child lists of \<open>c-sdk-common/src/cJSON.c\<close> as the code keeps them: nodes on a heap, linked in
  both directions by \<open>next\<close> and \<open>prev\<close>, the first one referenced by \<open>child\<close> of their parent. A
  pointer is an address or \<open>NULL\<close>; access to an address without a node is a fault. The loops over
  a list have fuel for as many turns as addresses were ever handed out, so a cyclic list would be
  a fault as well. The bits \<open>cJSON_IsReference\<close> and \<open>cJSON_StringIsConst\<close> of the type are the fields
  \<open>nd_ref\<close> and \<open>nd_const\<close>; a reference does not own its children. The field \<open>valueint\<close>, which
  nothing reads, is left out, and strings are values and not blocks of the heap.

  \<open>child_list h a xs\<close> says that the children of \<open>a\<close> are the nodes \<open>xs\<close>. The lemmas show that the
  operations are append, lookup, removal, insertion and replacement on \<open>xs\<close>, and that they
  leave all other lists alone; the functional model of \<open>Json\<close> rests on this.
\<close>

section \<open>The heap\<close>

type_synonym caddr = nat
type_synonym cptr = "caddr option"

datatype cj_value = CjInvalid | CjFalse | CjTrue | CjNULL | CjNumber double | CjString string | CjRaw string | CjArray | CjObject

record cnode =
  nd_next :: cptr
  nd_prev :: cptr
  nd_child :: cptr
  nd_value :: cj_value
  nd_string :: cstring
  nd_ref :: bool
  nd_const :: bool

record cheap =
  ch_node :: "caddr \<Rightarrow> cnode option"
  ch_limit :: nat

definition load :: "cheap \<Rightarrow> caddr \<Rightarrow> cnode cmd" where
  "load h a = (case ch_node h a of None \<Rightarrow> cfault Undefined | Some n \<Rightarrow> cret n)"

definition put_cnode :: "caddr \<Rightarrow> cnode option \<Rightarrow> cheap \<Rightarrow> cheap" where
  "put_cnode a n h = h\<lparr>ch_node := (ch_node h)(a := n)\<rparr>"

definition store_node :: "(cnode \<Rightarrow> cnode) \<Rightarrow> caddr \<Rightarrow> cheap \<Rightarrow> cheap cmd" where
  "store_node f a h = cbind (load h a) (\<lambda>n. cret (put_cnode a (Some (f n)) h))"

definition cJSON_New_Item :: "cheap \<Rightarrow> (caddr \<times> cheap) cmd" where
  "cJSON_New_Item h =
     cbind LDAlloc (\<lambda>_.
       cret (ch_limit h,
         (put_cnode (ch_limit h)
            (Some \<lparr>nd_next = None, nd_prev = None, nd_child = None, nd_value = CjInvalid, nd_string = None, nd_ref = False, nd_const = False\<rparr>) h)
         \<lparr>ch_limit := Suc (ch_limit h)\<rparr>))"

section \<open>Walking a list\<close>

primrec size_loop :: "nat \<Rightarrow> cheap \<Rightarrow> cptr \<Rightarrow> nat \<Rightarrow> nat cmd" where
  "size_loop 0 h child n = (case child of None \<Rightarrow> cret n | Some _ \<Rightarrow> cfault OutOfFuel)"
| "size_loop (Suc fuel) h child n =
     (case child of
        None \<Rightarrow> cret n
      | Some a \<Rightarrow> cbind (load h a) (\<lambda>c. size_loop fuel h (nd_next c) (Suc n)))"

text \<open>The count is cast to \<open>int\<close>, which wraps around.\<close>

definition cJSON_GetArraySize :: "cheap \<Rightarrow> cptr \<Rightarrow> int cmd" where
  "cJSON_GetArraySize h array =
     (case array of
        None \<Rightarrow> cret 0
      | Some a \<Rightarrow>
          cbind (load h a) (\<lambda>n.
          cbind (size_loop (ch_limit h) h (nd_child n) 0) (\<lambda>size.
            cret (sint (of_nat size :: 32 word)))))"

primrec item_loop :: "nat \<Rightarrow> cheap \<Rightarrow> cptr \<Rightarrow> cptr cmd" where
  "item_loop 0 h current_child = cret current_child"
| "item_loop (Suc index) h current_child =
     (case current_child of
        None \<Rightarrow> cret None
      | Some a \<Rightarrow> cbind (load h a) (\<lambda>c. item_loop index h (nd_next c)))"

definition get_array_item :: "cheap \<Rightarrow> cptr \<Rightarrow> nat \<Rightarrow> cptr cmd" where
  "get_array_item h array index =
     (case array of
        None \<Rightarrow> cret None
      | Some a \<Rightarrow> cbind (load h a) (\<lambda>n. item_loop index h (nd_child n)))"

definition cJSON_GetArrayItem :: "cheap \<Rightarrow> cptr \<Rightarrow> int \<Rightarrow> cptr cmd" where
  "cJSON_GetArrayItem h array index =
     (if index < 0 then cret None else get_array_item h array (nat index))"

definition tolower :: "char \<Rightarrow> nat" where
  "tolower c = (let n = of_char c in if 65 \<le> n \<and> n \<le> 90 then n + 32 else n)"

text \<open>Whether \<open>case_insensitive_strcmp\<close> is 0; two \<open>NULL\<close> pointers do not compare equal.\<close>

definition case_insensitive_strcmp :: "cstring \<Rightarrow> cstring \<Rightarrow> bool" where
  "case_insensitive_strcmp string1 string2 =
     (case (string1, string2) of
        (Some s, Some t) \<Rightarrow> map tolower (c_str s) = map tolower (c_str t)
      | _ \<Rightarrow> False)"

text \<open>The case sensitive search ends at a child without a name, the other one passes it.\<close>

primrec object_item_loop :: "nat \<Rightarrow> cheap \<Rightarrow> bool \<Rightarrow> string \<Rightarrow> cptr \<Rightarrow> cptr cmd" where
  "object_item_loop 0 h case_sensitive name current =
     (case current of None \<Rightarrow> cret None | Some _ \<Rightarrow> cfault OutOfFuel)"
| "object_item_loop (Suc fuel) h case_sensitive name current =
     (case current of
        None \<Rightarrow> cret None
      | Some a \<Rightarrow>
          cbind (load h a) (\<lambda>c.
            if case_sensitive then
              (case nd_string c of
                 None \<Rightarrow> cret None
               | Some s \<Rightarrow>
                   (if s = name then cret (Some a)
                    else object_item_loop fuel h case_sensitive name (nd_next c)))
            else if case_insensitive_strcmp (Some name) (nd_string c) then cret (Some a)
            else object_item_loop fuel h case_sensitive name (nd_next c)))"

definition get_object_item :: "cheap \<Rightarrow> cptr \<Rightarrow> cstring \<Rightarrow> bool \<Rightarrow> cptr cmd" where
  "get_object_item h object_ptr name case_sensitive =
     (case (object_ptr, name) of
        (Some a, Some s) \<Rightarrow>
          cbind (load h a) (\<lambda>n.
            object_item_loop (ch_limit h) h case_sensitive s (nd_child n))
      | _ \<Rightarrow> cret None)"

definition cJSON_GetObjectItem :: "cheap \<Rightarrow> cptr \<Rightarrow> cstring \<Rightarrow> cptr cmd" where
  "cJSON_GetObjectItem h object_ptr s = get_object_item h object_ptr s False"

definition cJSON_GetObjectItemCaseSensitive :: "cheap \<Rightarrow> cptr \<Rightarrow> cstring \<Rightarrow> cptr cmd" where
  "cJSON_GetObjectItemCaseSensitive h object_ptr s = get_object_item h object_ptr s True"

definition cJSON_HasObjectItem :: "cheap \<Rightarrow> cptr \<Rightarrow> cstring \<Rightarrow> bool cmd" where
  "cJSON_HasObjectItem h object_ptr s = cbind (cJSON_GetObjectItem h object_ptr s) (\<lambda>p. cret (p \<noteq> None))"

section \<open>Appending\<close>

definition suffix_object :: "caddr \<Rightarrow> caddr \<Rightarrow> cheap \<Rightarrow> cheap cmd" where
  "suffix_object prev item h =
     cbind (store_node (\<lambda>n. n\<lparr>nd_next := Some item\<rparr>) prev h) (\<lambda>h.
       store_node (\<lambda>n. n\<lparr>nd_prev := Some prev\<rparr>) item h)"

primrec last_loop :: "nat \<Rightarrow> cheap \<Rightarrow> caddr \<Rightarrow> caddr cmd" where
  "last_loop 0 h child = cfault OutOfFuel"
| "last_loop (Suc fuel) h child =
     cbind (load h child) (\<lambda>c.
       case nd_next c of None \<Rightarrow> cret child | Some a \<Rightarrow> last_loop fuel h a)"

definition add_item_to_array :: "cheap \<Rightarrow> cptr \<Rightarrow> cptr \<Rightarrow> (bool \<times> cheap) cmd" where
  "add_item_to_array h array item =
     (case (array, item) of
        (Some a, Some i) \<Rightarrow>
          cbind (load h a) (\<lambda>n.
            case nd_child n of
              None \<Rightarrow> cbind (store_node (\<lambda>n. n\<lparr>nd_child := Some i\<rparr>) a h) (\<lambda>h. cret (True, h))
            | Some child \<Rightarrow>
                cbind (last_loop (ch_limit h) h child) (\<lambda>child.
                cbind (suffix_object child i h) (\<lambda>h. cret (True, h))))
      | _ \<Rightarrow> cret (False, h))"

definition cJSON_AddItemToArray :: "cheap \<Rightarrow> cptr \<Rightarrow> cptr \<Rightarrow> cheap cmd" where
  "cJSON_AddItemToArray h array item = cbind (add_item_to_array h array item) (\<lambda>(_, h). cret h)"

text \<open>The name of the item is replaced by the key, or by a copy of it unless the key is constant.\<close>

definition add_item_to_object :: "cheap \<Rightarrow> cptr \<Rightarrow> cstring \<Rightarrow> cptr \<Rightarrow> bool \<Rightarrow> (bool \<times> cheap) cmd" where
  "add_item_to_object h object_ptr key item constant_key =
     (case (object_ptr, key, item) of
        (Some _, Some s, Some i) \<Rightarrow>
          cbind (if constant_key then cret (Some ()) else ctry LDAlloc) (\<lambda>new_key.
            if new_key = None then cret (False, h)
            else
              cbind (store_node (\<lambda>n. n\<lparr>nd_string := Some s, nd_const := constant_key\<rparr>) i h) (\<lambda>h.
                add_item_to_array h object_ptr item))
      | _ \<Rightarrow> cret (False, h))"

definition cJSON_AddItemToObject :: "cheap \<Rightarrow> cptr \<Rightarrow> cstring \<Rightarrow> cptr \<Rightarrow> cheap cmd" where
  "cJSON_AddItemToObject h object_ptr key item =
     cbind (add_item_to_object h object_ptr key item False) (\<lambda>(_, h). cret h)"

definition cJSON_AddItemToObjectCS :: "cheap \<Rightarrow> cptr \<Rightarrow> cstring \<Rightarrow> cptr \<Rightarrow> cheap cmd" where
  "cJSON_AddItemToObjectCS h object_ptr key item =
     cbind (add_item_to_object h object_ptr key item True) (\<lambda>(_, h). cret h)"

section \<open>Detaching\<close>

text \<open>An assignment through a pointer, where it is not \<open>NULL\<close>.\<close>

definition store_ptr :: "(cnode \<Rightarrow> cnode) \<Rightarrow> cptr \<Rightarrow> cheap \<Rightarrow> cheap cmd" where
  "store_ptr f p h = (case p of None \<Rightarrow> cret h | Some a \<Rightarrow> store_node f a h)"

definition cJSON_DetachItemViaPointer :: "cheap \<Rightarrow> cptr \<Rightarrow> cptr \<Rightarrow> (cptr \<times> cheap) cmd" where
  "cJSON_DetachItemViaPointer h parent item =
     (case (parent, item) of
        (Some a, Some i) \<Rightarrow>
          cbind (load h i) (\<lambda>n.
          cbind (store_ptr (\<lambda>p. p\<lparr>nd_next := nd_next n\<rparr>) (nd_prev n) h) (\<lambda>h.
          cbind (load h i) (\<lambda>n.
          cbind (store_ptr (\<lambda>p. p\<lparr>nd_prev := nd_prev n\<rparr>) (nd_next n) h) (\<lambda>h.
          cbind (load h a) (\<lambda>p.
          cbind (load h i) (\<lambda>n.
          cbind (if nd_child p = Some i then store_node (\<lambda>p. p\<lparr>nd_child := nd_next n\<rparr>) a h else cret h) (\<lambda>h.
          cbind (store_node (\<lambda>n. n\<lparr>nd_prev := None, nd_next := None\<rparr>) i h) (\<lambda>h.
            cret (Some i, h)))))))))
      | _ \<Rightarrow> cret (None, h))"

definition cJSON_DetachItemFromArray :: "cheap \<Rightarrow> cptr \<Rightarrow> int \<Rightarrow> (cptr \<times> cheap) cmd" where
  "cJSON_DetachItemFromArray h array which =
     (if which < 0 then cret (None, h)
      else cbind (get_array_item h array (nat which)) (\<lambda>item. cJSON_DetachItemViaPointer h array item))"

definition cJSON_DetachItemFromObject :: "cheap \<Rightarrow> cptr \<Rightarrow> cstring \<Rightarrow> (cptr \<times> cheap) cmd" where
  "cJSON_DetachItemFromObject h object_ptr s =
     cbind (cJSON_GetObjectItem h object_ptr s) (\<lambda>item. cJSON_DetachItemViaPointer h object_ptr item)"

definition cJSON_DetachItemFromObjectCaseSensitive ::
  "cheap \<Rightarrow> cptr \<Rightarrow> cstring \<Rightarrow> (cptr \<times> cheap) cmd" where
  "cJSON_DetachItemFromObjectCaseSensitive h object_ptr s =
     cbind (cJSON_GetObjectItemCaseSensitive h object_ptr s)
       (\<lambda>item. cJSON_DetachItemViaPointer h object_ptr item)"

section \<open>Deleting\<close>

definition owned_child :: "cnode \<Rightarrow> cptr" where
  "owned_child n = (if nd_ref n then None else nd_child n)"

text \<open>A chain of nodes with everything below it; the fuel bounds the depth and the length.\<close>

primrec delete_loop :: "nat \<Rightarrow> cptr \<Rightarrow> cheap \<Rightarrow> cheap cmd" where
  "delete_loop 0 item h = (case item of None \<Rightarrow> cret h | Some _ \<Rightarrow> cfault OutOfFuel)"
| "delete_loop (Suc fuel) item h =
     (case item of
        None \<Rightarrow> cret h
      | Some a \<Rightarrow>
          cbind (load h a) (\<lambda>n.
          cbind (delete_loop fuel (owned_child n) h) (\<lambda>h.
          cbind (load h a) (\<lambda>_.
            delete_loop fuel (nd_next n) (put_cnode a None h)))))"

definition cJSON_Delete :: "cptr \<Rightarrow> cheap \<Rightarrow> cheap cmd" where
  "cJSON_Delete item h = delete_loop (ch_limit h) item h"

definition cJSON_DeleteItemFromArray :: "cheap \<Rightarrow> cptr \<Rightarrow> int \<Rightarrow> cheap cmd" where
  "cJSON_DeleteItemFromArray h array which =
     cbind (cJSON_DetachItemFromArray h array which) (\<lambda>(item, h). cJSON_Delete item h)"

definition cJSON_DeleteItemFromObject :: "cheap \<Rightarrow> cptr \<Rightarrow> cstring \<Rightarrow> cheap cmd" where
  "cJSON_DeleteItemFromObject h object_ptr s =
     cbind (cJSON_DetachItemFromObject h object_ptr s) (\<lambda>(item, h). cJSON_Delete item h)"

definition cJSON_DeleteItemFromObjectCaseSensitive :: "cheap \<Rightarrow> cptr \<Rightarrow> cstring \<Rightarrow> cheap cmd" where
  "cJSON_DeleteItemFromObjectCaseSensitive h object_ptr s =
     cbind (cJSON_DetachItemFromObjectCaseSensitive h object_ptr s) (\<lambda>(item, h). cJSON_Delete item h)"

section \<open>Inserting and replacing\<close>

definition cJSON_InsertItemInArray :: "cheap \<Rightarrow> cptr \<Rightarrow> int \<Rightarrow> caddr \<Rightarrow> cheap cmd" where
  "cJSON_InsertItemInArray h array which newitem =
     (if which < 0 then cret h
      else
        cbind (get_array_item h array (nat which)) (\<lambda>after_inserted.
          case (array, after_inserted) of
            (Some a, Some b) \<Rightarrow>
              cbind (store_node (\<lambda>n. n\<lparr>nd_next := Some b\<rparr>) newitem h) (\<lambda>h.
              cbind (load h b) (\<lambda>after.
              cbind (store_node (\<lambda>n. n\<lparr>nd_prev := nd_prev after\<rparr>) newitem h) (\<lambda>h.
              cbind (store_node (\<lambda>n. n\<lparr>nd_prev := Some newitem\<rparr>) b h) (\<lambda>h.
              cbind (load h a) (\<lambda>p.
                if nd_child p = Some b then store_node (\<lambda>p. p\<lparr>nd_child := Some newitem\<rparr>) a h
                else
                  cbind (load h newitem) (\<lambda>n.
                    case nd_prev n of
                      None \<Rightarrow> cfault Undefined
                    | Some q \<Rightarrow> store_node (\<lambda>p. p\<lparr>nd_next := Some newitem\<rparr>) q h))))))
          | _ \<Rightarrow> cbind (add_item_to_array h array (Some newitem)) (\<lambda>(_, h). cret h)))"

definition cJSON_ReplaceItemViaPointer ::
  "cheap \<Rightarrow> cptr \<Rightarrow> cptr \<Rightarrow> cptr \<Rightarrow> (bool \<times> cheap) cmd" where
  "cJSON_ReplaceItemViaPointer h parent item replacement =
     (case (parent, item, replacement) of
        (Some a, Some i, Some r) \<Rightarrow>
          (if r = i then cret (True, h)
           else
             cbind (load h i) (\<lambda>n.
             cbind (store_node (\<lambda>x. x\<lparr>nd_next := nd_next n, nd_prev := nd_prev n\<rparr>) r h) (\<lambda>h.
             cbind (load h r) (\<lambda>n.
             cbind (store_ptr (\<lambda>x. x\<lparr>nd_prev := Some r\<rparr>) (nd_next n) h) (\<lambda>h.
             cbind (load h r) (\<lambda>n.
             cbind (store_ptr (\<lambda>x. x\<lparr>nd_next := Some r\<rparr>) (nd_prev n) h) (\<lambda>h.
             cbind (load h a) (\<lambda>p.
             cbind (if nd_child p = Some i then store_node (\<lambda>p. p\<lparr>nd_child := Some r\<rparr>) a h else cret h) (\<lambda>h.
             cbind (store_node (\<lambda>x. x\<lparr>nd_next := None, nd_prev := None\<rparr>) i h) (\<lambda>h.
             cbind (cJSON_Delete item h) (\<lambda>h.
               cret (True, h))))))))))))
      | _ \<Rightarrow> cret (False, h))"

definition cJSON_ReplaceItemInArray :: "cheap \<Rightarrow> cptr \<Rightarrow> int \<Rightarrow> cptr \<Rightarrow> cheap cmd" where
  "cJSON_ReplaceItemInArray h array which newitem =
     (if which < 0 then cret h
      else
        cbind (get_array_item h array (nat which)) (\<lambda>item.
        cbind (cJSON_ReplaceItemViaPointer h array item newitem) (\<lambda>(_, h). cret h)))"

text \<open>The name of the replacement is set before the old item is looked up, also where there is none.\<close>

definition replace_item_in_object :: "cheap \<Rightarrow> cptr \<Rightarrow> cstring \<Rightarrow> cptr \<Rightarrow> bool \<Rightarrow> (bool \<times> cheap) cmd" where
  "replace_item_in_object h object_ptr name replacement case_sensitive =
     (case (replacement, name) of
        (Some r, Some s) \<Rightarrow>
          cbind (ctry LDAlloc) (\<lambda>copy.
          cbind (store_node (\<lambda>x. x\<lparr>nd_string := (if copy = None then None else Some s), nd_const := False\<rparr>) r h) (\<lambda>h.
          cbind (get_object_item h object_ptr name case_sensitive) (\<lambda>item.
          cbind (cJSON_ReplaceItemViaPointer h object_ptr item replacement) (\<lambda>(_, h).
            cret (True, h)))))
      | _ \<Rightarrow> cret (False, h))"

definition cJSON_ReplaceItemInObject :: "cheap \<Rightarrow> cptr \<Rightarrow> cstring \<Rightarrow> cptr \<Rightarrow> cheap cmd" where
  "cJSON_ReplaceItemInObject h object_ptr name newitem =
     cbind (replace_item_in_object h object_ptr name newitem False) (\<lambda>(_, h). cret h)"

definition cJSON_ReplaceItemInObjectCaseSensitive :: "cheap \<Rightarrow> cptr \<Rightarrow> cstring \<Rightarrow> cptr \<Rightarrow> cheap cmd" where
  "cJSON_ReplaceItemInObjectCaseSensitive h object_ptr name newitem =
     cbind (replace_item_in_object h object_ptr name newitem True) (\<lambda>(_, h). cret h)"

section \<open>Lists on the heap\<close>

named_theorems heap_simps "evaluation of heap accesses"

lemma load_ok [heap_simps]: "ch_node h a = Some n \<Longrightarrow> cbind (load h a) f m = f n m"
  by (simp add: load_def cbind_def cret_def)

lemma store_ok [heap_simps]:
  "ch_node h a = Some n \<Longrightarrow> cbind (store_node g a h) f m = f (put_cnode a (Some (g n)) h) m"
  by (simp add: store_node_def load_def cbind_def cret_def)

lemma store_last [heap_simps]:
  "ch_node h a = Some n \<Longrightarrow> store_node g a h m = (Val (put_cnode a (Some (g n)) h), m)"
  by (simp add: store_node_def load_def cbind_def cret_def)

lemma cbind_ret [heap_simps]: "cbind (cret a) f m = f a m"
  by (simp add: cbind_def cret_def)

lemma put_cnode_simps [simp]:
  "ch_node (put_cnode a n h) b = (if b = a then n else ch_node h b)"
  "ch_limit (put_cnode a n h) = ch_limit h"
  by (simp_all add: put_cnode_def)

text \<open>A doubly linked segment: \<open>prv\<close> is what its first node points back to, \<open>q\<close> what its last points to.\<close>

primrec dseg :: "cheap \<Rightarrow> cptr \<Rightarrow> cptr \<Rightarrow> caddr list \<Rightarrow> cptr \<Rightarrow> bool" where
  "dseg h prv p [] q \<longleftrightarrow> p = q"
| "dseg h prv p (a # xs) q \<longleftrightarrow>
     p = Some a \<and> (\<exists>n. ch_node h a = Some n \<and> nd_prev n = prv \<and> dseg h (Some a) (nd_next n) xs q)"

definition end_of :: "cptr \<Rightarrow> caddr list \<Rightarrow> cptr" where
  "end_of prv xs = (if xs = [] then prv else Some (last xs))"

lemma end_of_simps [simp]: "end_of prv [] = prv" "end_of prv (a # xs) = end_of (Some a) xs" "end_of prv (xs @ [a]) = Some a"
  by (simp_all add: end_of_def)

lemma dseg_append [simp]:
  "dseg h prv p (xs @ ys) q \<longleftrightarrow> (\<exists>r. dseg h prv p xs r \<and> dseg h (end_of prv xs) r ys q)"
  by (induction xs arbitrary: prv p) auto

text \<open>Only the links of the nodes of a segment matter.\<close>

lemma dseg_cong:
  assumes "\<And>a n. a \<in> set xs \<Longrightarrow> ch_node h a = Some n \<Longrightarrow>
    \<exists>n'. ch_node h' a = Some n' \<and> nd_next n' = nd_next n \<and> nd_prev n' = nd_prev n"
  shows "dseg h prv p xs q \<Longrightarrow> dseg h' prv p xs q"
  using assms
proof (induction xs arbitrary: prv p)
  case (Cons a xs)
  from Cons.prems(1) obtain n where n: "p = Some a" "ch_node h a = Some n" "nd_prev n = prv" "dseg h (Some a) (nd_next n) xs q"
    by auto
  moreover obtain n' where "ch_node h' a = Some n'" "nd_next n' = nd_next n" "nd_prev n' = nd_prev n"
    using Cons.prems(2)[OF _ n(2)] by auto
  moreover have "dseg h' (Some a) (nd_next n) xs q"
    using n(4) Cons.prems(2) by (intro Cons.IH) auto
  ultimately show ?case by auto
qed simp

lemma dseg_other: "a \<notin> set xs \<Longrightarrow> dseg h prv p xs q \<Longrightarrow> dseg (put_cnode a n h) prv p xs q"
  by (rule dseg_cong) auto

lemma dseg_nodes: "dseg h prv p xs q \<Longrightarrow> a \<in> set xs \<Longrightarrow> ch_node h a \<noteq> None"
  by (induction xs arbitrary: prv p) auto

definition heap_ok :: "cheap \<Rightarrow> bool" where
  "heap_ok h \<longleftrightarrow> (\<forall>a. ch_node h a \<noteq> None \<longrightarrow> a < ch_limit h)"

lemma dseg_length: "dseg h prv p xs q \<Longrightarrow> distinct xs \<Longrightarrow> heap_ok h \<Longrightarrow> length xs \<le> ch_limit h"
proof -
  assume "dseg h prv p xs q" "distinct xs" "heap_ok h"
  then have "set xs \<subseteq> {..<ch_limit h}" using dseg_nodes by (auto simp: heap_ok_def)
  from card_mono[OF _ this] \<open>distinct xs\<close> show ?thesis by (simp add: distinct_card)
qed

definition child_list :: "cheap \<Rightarrow> caddr \<Rightarrow> caddr list \<Rightarrow> bool" where
  "child_list h a xs \<longleftrightarrow>
     (\<exists>n. ch_node h a = Some n \<and> dseg h None (nd_child n) xs None) \<and> distinct xs \<and> a \<notin> set xs \<and> heap_ok h"

definition detached :: "cheap \<Rightarrow> caddr \<Rightarrow> bool" where
  "detached h i \<longleftrightarrow> (\<exists>n. ch_node h i = Some n \<and> nd_next n = None \<and> nd_prev n = None)"

text \<open>What an operation on a list does not touch: the values, names and ownership bits of nodes.\<close>

definition payload :: "cheap \<Rightarrow> caddr \<Rightarrow> (cj_value \<times> cstring \<times> bool \<times> bool) option" where
  "payload h a = map_option (\<lambda>n. (nd_value n, nd_string n, nd_ref n, nd_const n)) (ch_node h a)"

definition same_outside :: "caddr set \<Rightarrow> cheap \<Rightarrow> cheap \<Rightarrow> bool" where
  "same_outside S h h' \<longleftrightarrow> (\<forall>x. x \<notin> S \<longrightarrow> ch_node h' x = ch_node h x) \<and> ch_limit h' = ch_limit h \<and>
     (\<forall>x. ch_node h' x \<noteq> None \<longrightarrow> ch_node h x \<noteq> None)"

lemma same_outside_ok: "same_outside S h h' \<Longrightarrow> heap_ok h \<Longrightarrow> heap_ok h'"
  by (auto simp: same_outside_def heap_ok_def)

section \<open>Lemmas: walking\<close>

lemma size_loop_ok:
  "dseg h prv p xs None \<Longrightarrow> length xs \<le> fuel \<Longrightarrow> size_loop fuel h p k m = (Val (k + length xs), m)"
proof (induction xs arbitrary: prv p fuel k)
  case Nil
  then show ?case by (cases fuel) (auto simp: cret_def)
next
  case (Cons a xs)
  then obtain f where f: "fuel = Suc f" "length xs \<le> f" by (cases fuel) auto
  from Cons.prems(1) obtain n where n: "p = Some a" "ch_node h a = Some n" "dseg h (Some a) (nd_next n) xs None" by auto
  with Cons.IH[OF n(3) f(2), of "Suc k"] show ?case by (simp add: f(1) heap_simps)
qed

lemma item_loop_ok:
  "dseg h prv p xs None \<Longrightarrow> item_loop k h p m = (Val (if k < length xs then Some (xs ! k) else None), m)"
proof (induction xs arbitrary: prv p k)
  case Nil
  then show ?case by (cases k) (auto simp: cret_def)
next
  case (Cons a xs)
  then obtain n where n: "p = Some a" "ch_node h a = Some n" "dseg h (Some a) (nd_next n) xs None" by auto
  show ?case
  proof (cases k)
    case (Suc j)
    with n Cons.IH[OF n(3), of j] show ?thesis by (simp add: heap_simps)
  qed (simp add: n cret_def)
qed

lemma last_loop_ok:
  "dseg h prv (Some a) xs None \<Longrightarrow> length xs \<le> fuel \<Longrightarrow> last_loop fuel h a m = (Val (last xs), m)"
proof (induction xs arbitrary: prv a fuel)
  case (Cons b xs)
  then obtain f where f: "fuel = Suc f" "length xs \<le> f" by (cases fuel) auto
  from Cons.prems(1) obtain n where n: "b = a" "ch_node h a = Some n" "dseg h (Some a) (nd_next n) xs None" by auto
  show ?case
  proof (cases "nd_next n")
    case None
    then have "xs = []" using n(3) by (cases xs) auto
    with None n show ?thesis by (simp add: f(1) heap_simps cret_def)
  next
    case (Some c)
    then have "xs \<noteq> []" using n(3) by (cases xs) auto
    with Some n Cons.IH[OF n(3)[unfolded Some] f(2)] show ?thesis by (simp add: f(1) heap_simps)
  qed
qed simp

text \<open>The first child with the name; the case sensitive search sees nothing behind a child without one.\<close>

definition name_at :: "cheap \<Rightarrow> caddr \<Rightarrow> cstring" where
  "name_at h a = (case ch_node h a of None \<Rightarrow> None | Some n \<Rightarrow> nd_string n)"

definition find_named :: "cheap \<Rightarrow> bool \<Rightarrow> string \<Rightarrow> caddr list \<Rightarrow> cptr" where
  "find_named h case_sensitive name xs =
     (if case_sensitive
      then find (\<lambda>a. name_at h a = Some name) (takeWhile (\<lambda>a. name_at h a \<noteq> None) xs)
      else find (\<lambda>a. case_insensitive_strcmp (Some name) (name_at h a)) xs)"

lemma object_item_loop_ok:
  "dseg h prv p xs None \<Longrightarrow> length xs \<le> fuel \<Longrightarrow>
   object_item_loop fuel h cs name p m = (Val (find_named h cs name xs), m)"
proof (induction xs arbitrary: prv p fuel)
  case Nil
  then show ?case by (cases fuel) (auto simp: cret_def find_named_def)
next
  case (Cons a xs)
  then obtain f where f: "fuel = Suc f" "length xs \<le> f" by (cases fuel) auto
  from Cons.prems(1) obtain n where n: "p = Some a" "ch_node h a = Some n" "dseg h (Some a) (nd_next n) xs None" by auto
  have "name_at h a = nd_string n" using n(2) by (simp add: name_at_def)
  with n Cons.IH[OF n(3) f(2)] show ?case
    by (cases "nd_string n") (auto simp: f(1) heap_simps find_named_def cret_def)
qed

lemma find_named_mem: "find_named h cs name xs = Some a \<Longrightarrow> a \<in> set xs"
  unfolding find_named_def by (auto dest!: find_SomeD split: if_splits dest: set_takeWhileD)

lemma lookups_ok:
  assumes "child_list h a xs"
  shows "cJSON_GetArraySize h (Some a) m = (Val (sint (of_nat (length xs) :: 32 word)), m)"
    and "get_array_item h (Some a) k m = (Val (if k < length xs then Some (xs ! k) else None), m)"
    and "get_object_item h (Some a) (Some name) cs m = (Val (find_named h cs name xs), m)"
proof -
  obtain n where n: "ch_node h a = Some n" "dseg h None (nd_child n) xs None" "length xs \<le> ch_limit h"
    using assms dseg_length by (auto simp: child_list_def)
  show "cJSON_GetArraySize h (Some a) m = (Val (sint (of_nat (length xs) :: 32 word)), m)"
    using size_loop_ok[OF n(2,3), of 0 m] n(1)
    by (simp add: cJSON_GetArraySize_def heap_simps cbind_def[of "size_loop _ _ _ _"] cret_def)
  show "get_array_item h (Some a) k m = (Val (if k < length xs then Some (xs ! k) else None), m)"
    using item_loop_ok[OF n(2)] n(1) by (simp add: get_array_item_def heap_simps)
  show "get_object_item h (Some a) (Some name) cs m = (Val (find_named h cs name xs), m)"
    using object_item_loop_ok[OF n(2,3)] n(1) by (simp add: get_object_item_def heap_simps)
qed

section \<open>Lemmas: appending\<close>

text \<open>
  What an operation on the list of \<open>a\<close> keeps, where \<open>L\<close> are the elements of the list before and after
  it: the nodes outside, all values and names, the \<open>child\<close> of every node but \<open>a\<close>, and the links of every
  node but those of \<open>L\<close>. So the children of an element, and the list that \<open>a\<close> is itself in, are kept too.
\<close>

definition keeps :: "caddr \<Rightarrow> caddr set \<Rightarrow> cheap \<Rightarrow> cheap \<Rightarrow> bool" where
  "keeps a L h h' \<longleftrightarrow> same_outside (insert a L) h h' \<and> (\<forall>x. payload h' x = payload h x) \<and>
     (\<forall>x n. ch_node h x = Some n \<longrightarrow> (\<exists>n'. ch_node h' x = Some n' \<and> (x = a \<or> nd_child n' = nd_child n) \<and>
       (x \<in> L \<or> nd_next n' = nd_next n \<and> nd_prev n' = nd_prev n)))"

lemma keeps_put:
  "ch_node h x = Some n \<Longrightarrow> nd_value n' = nd_value n \<Longrightarrow> nd_string n' = nd_string n \<Longrightarrow>
   nd_ref n' = nd_ref n \<Longrightarrow> nd_const n' = nd_const n \<Longrightarrow> x = a \<or> nd_child n' = nd_child n \<Longrightarrow>
   x \<in> L \<or> nd_next n' = nd_next n \<and> nd_prev n' = nd_prev n \<Longrightarrow> x \<in> insert a L \<Longrightarrow>
   keeps a L h (put_cnode x (Some n') h)"
  by (auto simp: keeps_def same_outside_def payload_def)

lemma keeps_trans:
  assumes "keeps a L h h1" and "keeps a L h1 h2"
  shows "keeps a L h h2"
proof -
  have "same_outside (insert a L) h h2" "\<forall>x. payload h2 x = payload h x"
    using assms by (auto simp: keeps_def same_outside_def)
  moreover have "\<exists>n'. ch_node h2 x = Some n' \<and> (x = a \<or> nd_child n' = nd_child n) \<and>
      (x \<in> L \<or> nd_next n' = nd_next n \<and> nd_prev n' = nd_prev n)" if "ch_node h x = Some n" for x n
    using assms that unfolding keeps_def by metis
  ultimately show ?thesis by (auto simp: keeps_def)
qed

lemma child_list_kept:
  assumes "child_list h b ys" and "keeps a L h h'" and "b \<noteq> a" and "set ys \<inter> L = {}"
  shows "child_list h' b ys"
proof -
  obtain n where n: "ch_node h b = Some n" "dseg h None (nd_child n) ys None"
    using assms(1) by (auto simp: child_list_def)
  then obtain n' where "ch_node h' b = Some n'" "nd_child n' = nd_child n"
    using assms(2,3) unfolding keeps_def by blast
  moreover have "dseg h' None (nd_child n) ys None"
    using n(2)
  proof (rule dseg_cong[rotated])
    fix x nx
    assume "x \<in> set ys" and "ch_node h x = Some nx"
    with assms(2,4) show "\<exists>n'. ch_node h' x = Some n' \<and> nd_next n' = nd_next nx \<and> nd_prev n' = nd_prev nx"
      unfolding keeps_def by blast
  qed
  moreover have "heap_ok h'" using assms(1,2) same_outside_ok by (auto simp: keeps_def child_list_def)
  ultimately show ?thesis using assms(1) by (auto simp: child_list_def)
qed

lemma keeps_nodes: "keeps a L h h' \<Longrightarrow> ch_node h' x = None \<longleftrightarrow> ch_node h x = None"
proof -
  assume "keeps a L h h'"
  then have "payload h' x = payload h x" by (simp add: keeps_def)
  then show ?thesis unfolding payload_def by (cases "ch_node h x"; cases "ch_node h' x") simp_all
qed

lemma keeps_refl: "keeps a L h h"
  by (simp add: keeps_def same_outside_def)

lemma add_item_ok:
  assumes l: "child_list h a xs" and i: "detached h i" "i \<notin> set xs" "i \<noteq> a"
  shows "\<exists>h'. add_item_to_array h (Some a) (Some i) m = (Val (True, h'), m) \<and> child_list h' a (xs @ [i]) \<and>
    keeps a (insert i (set xs)) h h'"
proof -
  obtain n where n: "ch_node h a = Some n" "dseg h None (nd_child n) xs None" "distinct xs" "a \<notin> set xs" "heap_ok h"
    using l by (auto simp: child_list_def)
  obtain ni where ni: "ch_node h i = Some ni" "nd_next ni = None" "nd_prev ni = None"
    using i(1) by (auto simp: detached_def)
  show ?thesis
  proof (cases xs rule: rev_cases)
    case Nil
    let ?h = "put_cnode a (Some (n\<lparr>nd_child := Some i\<rparr>)) h"
    have "add_item_to_array h (Some a) (Some i) m = (Val (True, ?h), m)"
      using n Nil by (simp add: add_item_to_array_def heap_simps cret_def)
    moreover have k: "keeps a (insert i (set xs)) h ?h" using n(1) by (intro keeps_put) auto
    moreover have "child_list ?h a (xs @ [i])"
      using Nil ni i(3) same_outside_ok[of _ h ?h] k n(5) by (auto simp: child_list_def keeps_def)
    ultimately show ?thesis by blast
  next
    case (snoc ys b)
    then obtain nb where b: "dseg h None (nd_child n) ys (Some b)" "ch_node h b = Some nb" "nd_next nb = None"
        "nd_prev nb = end_of None ys" "b \<notin> set ys" "b \<noteq> a" "b \<noteq> i" "a \<notin> set ys" "i \<notin> set ys"
      using n i by auto
    let ?h1 = "put_cnode b (Some (nb\<lparr>nd_next := Some i\<rparr>)) h"
    let ?h2 = "put_cnode i (Some (ni\<lparr>nd_prev := Some b\<rparr>)) ?h1"
    obtain c where c: "nd_child n = Some c" using n(2) snoc by (cases ys) auto
    have "last_loop (ch_limit h) h c m = (Val b, m)"
      using last_loop_ok[of h None c xs "ch_limit h" m] n dseg_length[OF n(2,3,5)] snoc c by simp
    then have "add_item_to_array h (Some a) (Some i) m = (Val (True, ?h2), m)"
      using n(1) c b ni by (simp add: add_item_to_array_def suffix_object_def heap_simps
          cbind_def[of "last_loop _ _ _"] cbind_def[of "cbind _ _"] cret_def)
    moreover have k: "keeps a (insert i (set xs)) h ?h2"
      using b ni snoc by (intro keeps_trans[OF keeps_put keeps_put]) auto
    moreover have "dseg ?h2 None (nd_child n) (xs @ [i]) None"
      using b ni by (auto simp: snoc intro!: dseg_other)
    then have "child_list ?h2 a (xs @ [i])"
      using n i b same_outside_ok[of _ h ?h2] k by (auto simp: child_list_def keeps_def)
    ultimately show ?thesis by blast
  qed
qed

section \<open>Lemmas: relinking\<close>

text \<open>Pointing the end of a segment, or what refers to its start, somewhere else.\<close>

definition relink_next :: "cptr \<Rightarrow> cptr \<Rightarrow> cheap \<Rightarrow> cheap" where
  "relink_next p q h = (case p of None \<Rightarrow> h | Some a \<Rightarrow>
     put_cnode a (map_option (\<lambda>n. n\<lparr>nd_next := q\<rparr>) (ch_node h a)) h)"

definition relink_prev :: "cptr \<Rightarrow> cptr \<Rightarrow> cheap \<Rightarrow> cheap" where
  "relink_prev p q h = (case p of None \<Rightarrow> h | Some a \<Rightarrow>
     put_cnode a (map_option (\<lambda>n. n\<lparr>nd_prev := q\<rparr>) (ch_node h a)) h)"

lemma store_ptr_ok [heap_simps]:
  "(\<And>a. p = Some a \<Longrightarrow> ch_node h a \<noteq> None) \<Longrightarrow> cbind (store_ptr (\<lambda>n. n\<lparr>nd_next := q\<rparr>) p h) f m = f (relink_next p q h) m"
  "(\<And>a. p = Some a \<Longrightarrow> ch_node h a \<noteq> None) \<Longrightarrow> cbind (store_ptr (\<lambda>n. n\<lparr>nd_prev := q\<rparr>) p h) f m = f (relink_prev p q h) m"
  by (auto simp: store_ptr_def heap_simps relink_next_def relink_prev_def split: option.split)

lemma relink_node:
  "Some a \<noteq> p \<Longrightarrow> ch_node (relink_next p q h) a = ch_node h a"
  "Some a \<noteq> p \<Longrightarrow> ch_node (relink_prev p q h) a = ch_node h a"
  "ch_limit (relink_next p q h) = ch_limit h" "ch_limit (relink_prev p q h) = ch_limit h"
  by (auto simp: relink_next_def relink_prev_def split: option.split)

lemma keeps_relink:
  "(\<And>x. p = Some x \<Longrightarrow> x \<in> L) \<Longrightarrow> keeps a L h (relink_next p q h)"
  "(\<And>x. p = Some x \<Longrightarrow> x \<in> L) \<Longrightarrow> keeps a L h (relink_prev p q h)"
  by (auto simp: relink_next_def relink_prev_def keeps_def same_outside_def payload_def option.map_comp comp_def
      split: option.splits)

lemma dseg_relink_next:
  assumes "dseg h prv p ys q" and "distinct ys" and "ys \<noteq> []"
  shows "dseg (relink_next (end_of prv ys) r h) prv p ys r"
proof -
  obtain zs b where ys: "ys = zs @ [b]" using assms(3) by (cases ys rule: rev_cases) auto
  with assms show ?thesis by (auto simp: relink_next_def intro!: dseg_other)
qed

lemma dseg_relink_prev:
  assumes "dseg h prv p zs q" and "distinct zs"
  shows "dseg (relink_prev p r h) r p zs q \<or> zs = [] \<and> dseg h r p zs q"
  using assms by (cases zs) (auto simp: relink_prev_def intro!: dseg_other)

lemma dseg_relink_other:
  assumes "\<And>b. p = Some b \<Longrightarrow> b \<notin> set xs" and "dseg h prv s xs e"
  shows "dseg (relink_next p q h) prv s xs e" and "dseg (relink_prev p q h) prv s xs e"
  using assms by (auto simp: relink_next_def relink_prev_def intro!: dseg_other split: option.split)

lemma end_of_mem: "end_of None ys = Some b \<Longrightarrow> b \<in> set ys"
  by (auto simp: end_of_def split: if_splits)

lemma dseg_start_mem: "dseg h prv (Some b) zs None \<Longrightarrow> b \<in> set zs"
  by (cases zs) auto

section \<open>Lemmas: detaching\<close>

lemma detach_ok:
  assumes l: "child_list h a (ys @ i # zs)"
  shows "\<exists>h'. cJSON_DetachItemViaPointer h (Some a) (Some i) m = (Val (Some i, h'), m) \<and>
    child_list h' a (ys @ zs) \<and> detached h' i \<and> keeps a (set (ys @ i # zs)) h h' \<and>
    map_option nd_child (ch_node h' i) = map_option nd_child (ch_node h i)"
proof -
  obtain n where n: "ch_node h a = Some n" "dseg h None (nd_child n) ys (Some i)"
      "distinct (ys @ i # zs)" "a \<notin> set (ys @ i # zs)" "heap_ok h"
    using l by (auto simp: child_list_def)
  obtain ni where ni: "ch_node h i = Some ni" "nd_prev ni = end_of None ys" "dseg h (Some i) (nd_next ni) zs None"
    using l by (auto simp: child_list_def)
  let ?S = "set (ys @ i # zs)"
  let ?p = "end_of None ys" and ?q = "nd_next ni"
  define h1 where "h1 = relink_next ?p ?q h"
  define h2 where "h2 = relink_prev ?q ?p h1"
  have p: "b \<in> set ys" if "?p = Some b" for b using end_of_mem[OF that] .
  have q: "b \<in> set zs" if "?q = Some b" for b using ni(3) that dseg_start_mem by metis
  have sep: "Some i \<noteq> ?p" "Some i \<noteq> ?q" "Some a \<noteq> ?p" "Some a \<noteq> ?q" using p q n(3,4) by auto
  have i1: "ch_node h1 i = Some ni" and a1: "ch_node h1 a = Some n"
    using relink_node(1)[OF sep(1)] relink_node(1)[OF sep(3)] ni(1) n(1) by (simp_all add: h1_def)
  have i2: "ch_node h2 i = Some ni" and a2: "ch_node h2 a = Some n"
    using relink_node(2)[OF sep(2)] relink_node(2)[OF sep(4)] i1 a1 by (simp_all add: h2_def)
  have k: "keeps a ?S h h2"
    unfolding h2_def h1_def using p q by (intro keeps_trans[OF keeps_relink(1) keeps_relink(2)]) auto
  have ys2: "dseg h2 None (nd_child n) ys ?q" if "ys \<noteq> []"
  proof -
    have "dseg h1 None (nd_child n) ys ?q"
      unfolding h1_def using n(2,3) that by (intro dseg_relink_next) auto
    then show ?thesis
      unfolding h2_def using q n(3) by (intro dseg_relink_other(2)) auto
  qed
  have zs2: "dseg h2 ?p ?q zs None"
  proof -
    have "dseg h1 (Some i) ?q zs None"
      unfolding h1_def using p n(3) by (intro dseg_relink_other(1) ni(3)) auto
    then show ?thesis using dseg_relink_prev[of h1 "Some i" ?q zs None ?p] n(3) by (auto simp: h2_def)
  qed
  define h3 where "h3 = (if ys = [] then put_cnode a (Some (n\<lparr>nd_child := ?q\<rparr>)) h2 else h2)"
  define h4 where "h4 = put_cnode i (Some (ni\<lparr>nd_prev := None, nd_next := None\<rparr>)) h3"
  have first: "nd_child n = Some i \<longleftrightarrow> ys = []" using n(2,3) by (cases ys) auto
  have i3: "ch_node h3 i = Some ni" using i2 n(4) by (auto simp: h3_def)
  have run: "cJSON_DetachItemViaPointer h (Some a) (Some i) m = (Val (Some i, h4), m)"
  proof -
    have "\<And>b. ?p = Some b \<Longrightarrow> ch_node h b \<noteq> None" using p n(2) dseg_nodes by blast
    moreover have "\<And>b. ?q = Some b \<Longrightarrow> ch_node h1 b \<noteq> None"
    proof -
      fix b
      assume b: "?q = Some b"
      then have "ch_node h b \<noteq> None" using q ni(3) dseg_nodes by blast
      moreover have "?p \<noteq> Some b" using q[OF b] p[of b] n(3) by auto
      ultimately show "ch_node h1 b \<noteq> None" unfolding h1_def using relink_node(1)[of b ?p ?q h] by simp
    qed
    moreover obtain pp where pp: "pp = ?p" by simp
    moreover have "i \<noteq> a" using n(4) by auto
    ultimately show ?thesis
      using ni(1,2) i1 i2 a2 first h1_def h2_def unfolding pp[symmetric]
      by (simp add: cJSON_DetachItemViaPointer_def heap_simps)
        (auto simp: heap_simps h3_def h4_def cret_def)
  qed
  have k4: "keeps a ?S h h4"
    using keeps_trans[OF keeps_trans[OF k] keeps_put[OF i3, of "ni\<lparr>nd_prev := None, nd_next := None\<rparr>" a ?S]]
      keeps_put[OF a2, of "n\<lparr>nd_child := ?q\<rparr>" a ?S] keeps_refl
    by (auto simp: h4_def h3_def)
  have "dseg h4 None (if ys = [] then ?q else nd_child n) (ys @ zs) None"
  proof (cases "ys = []")
    case True
    have "dseg h4 None ?q zs None"
      using zs2 n(3,4) True by (auto simp: h4_def h3_def intro!: dseg_other)
    with True show ?thesis by simp
  next
    case False
    have "dseg h4 None (nd_child n) ys ?q" "dseg h4 ?p ?q zs None"
      using ys2[OF False] zs2 n(3) False by (auto simp: h4_def h3_def intro!: dseg_other)
    with False show ?thesis by auto
  qed
  moreover have "ch_node h4 a = Some (if ys = [] then n\<lparr>nd_child := ?q\<rparr> else n)"
    using n(4) a2 by (auto simp: h4_def h3_def)
  ultimately have "child_list h4 a (ys @ zs)"
    using n(3,4,5) same_outside_ok[of "insert a ?S" h h4] k4 by (auto simp: child_list_def keeps_def)
  moreover have "detached h4 i" "map_option nd_child (ch_node h4 i) = map_option nd_child (ch_node h i)"
    using ni(1) by (simp_all add: detached_def h4_def)
  ultimately show ?thesis using run k4 by blast
qed

section \<open>Lemmas: deleting\<close>

text \<open>A chain of nodes owns a set of addresses: its nodes and everything below them, nothing twice.\<close>

inductive owns :: "cheap \<Rightarrow> cptr \<Rightarrow> caddr set \<Rightarrow> bool" for h where
  owns_None: "owns h None {}"
| owns_Some: "ch_node h a = Some n \<Longrightarrow> owns h (owned_child n) C \<Longrightarrow> owns h (nd_next n) N \<Longrightarrow>
    a \<notin> C \<Longrightarrow> a \<notin> N \<Longrightarrow> C \<inter> N = {} \<Longrightarrow> owns h (Some a) (insert a (C \<union> N))"

inductive_cases owns_SomeE: "owns h (Some a) S"
inductive_simps owns_None_iff [simp]: "owns h None S"

lemma owned_child_link [simp]:
  "owned_child (n\<lparr>nd_next := p\<rparr>) = owned_child n" "owned_child (n\<lparr>nd_prev := p\<rparr>) = owned_child n"
  by (simp_all add: owned_child_def)

lemma owns_finite: "owns h p S \<Longrightarrow> finite S"
  by (induction rule: owns.induct) auto

lemma owns_nodes: "owns h p S \<Longrightarrow> x \<in> S \<Longrightarrow> ch_node h x \<noteq> None"
  by (induction rule: owns.induct) auto

lemma owns_other: "owns h p S \<Longrightarrow> (\<And>x. x \<in> S \<Longrightarrow> ch_node h' x = ch_node h x) \<Longrightarrow> owns h' p S"
proof (induction rule: owns.induct)
  case (owns_Some a n C N)
  then show ?case by (intro owns.owns_Some[of h' a n]) auto
qed (rule owns.owns_None)

definition without :: "caddr set \<Rightarrow> cheap \<Rightarrow> cheap" where
  "without S h = h\<lparr>ch_node := (\<lambda>x. if x \<in> S then None else ch_node h x)\<rparr>"

lemma without_simps [simp]:
  "ch_node (without S h) x = (if x \<in> S then None else ch_node h x)" "ch_limit (without S h) = ch_limit h"
  "without {} h = h" "without S (without T h) = without (S \<union> T) h" "put_cnode a None h = without {a} h"
  by (auto simp: without_def put_cnode_def fun_eq_iff)

lemma delete_loop_ok:
  "owns h p S \<Longrightarrow> card S \<le> fuel \<Longrightarrow> delete_loop fuel p h m = (Val (without S h), m)"
proof (induction fuel arbitrary: p h S m)
  case 0
  then have "S = {}" using owns_finite by simp
  with 0(1) show ?case by (cases p) (auto elim: owns_SomeE simp: cret_def)
next
  case (Suc fuel)
  show ?case
  proof (cases p)
    case None
    then show ?thesis using Suc.prems(1) by (simp add: cret_def)
  next
    case (Some a)
    with Suc.prems(1) obtain n C N where n: "ch_node h a = Some n" "owns h (owned_child n) C" "owns h (nd_next n) N"
        "a \<notin> C" "a \<notin> N" "C \<inter> N = {}" and S: "S = insert a (C \<union> N)"
      by (auto elim: owns_SomeE)
    have fin: "finite C" "finite N" using n(2,3) owns_finite by auto
    have "card S = Suc (card C + card N)" using n(4-6) fin by (simp add: S card_Un_disjoint)
    with Suc.prems(2) have c: "card C \<le> fuel" "card N \<le> fuel" by simp_all
    have "owns (without {a} (without C h)) (nd_next n) N" using n(5,6) by (intro owns_other[OF n(3)]) auto
    with Suc.IH[OF n(2) c(1)] Suc.IH[OF _ c(2)] n(1,4) show ?thesis
      by (simp add: Some S heap_simps cbind_def[of "delete_loop _ _ _"] Un_commute insert_commute Un_insert_right)
  qed
qed

lemma cJSON_Delete_ok:
  assumes "owns h p S" and "heap_ok h"
  shows "cJSON_Delete p h m = (Val (without S h), m)"
proof -
  have "S \<subseteq> {..<ch_limit h}" using owns_nodes[OF assms(1)] assms(2) by (auto simp: heap_ok_def)
  from card_mono[OF _ this] have "card S \<le> ch_limit h" by simp
  with delete_loop_ok[OF assms(1)] show ?thesis by (simp add: cJSON_Delete_def)
qed

section \<open>Lemmas: inserting\<close>

lemma insert_ok:
  assumes l: "child_list h a (ys @ b # zs)" and i: "detached h i" "i \<notin> set (ys @ b # zs)" "i \<noteq> a"
  shows "\<exists>h'. cJSON_InsertItemInArray h (Some a) (int (length ys)) i m = (Val h', m) \<and>
    child_list h' a (ys @ i # b # zs) \<and> keeps a (insert i (set (ys @ b # zs))) h h'"
proof -
  obtain n where n: "ch_node h a = Some n" "dseg h None (nd_child n) ys (Some b)"
      "distinct (ys @ b # zs)" "a \<notin> set (ys @ b # zs)" "heap_ok h"
    using l by (auto simp: child_list_def)
  obtain nb where nb: "ch_node h b = Some nb" "nd_prev nb = end_of None ys" "dseg h (Some b) (nd_next nb) zs None"
    using l by (auto simp: child_list_def)
  obtain ni where ni: "ch_node h i = Some ni" using i(1) by (auto simp: detached_def)
  let ?S = "insert i (set (ys @ b # zs))"
  let ?ni = "ni\<lparr>nd_next := Some b, nd_prev := end_of None ys\<rparr>" and ?nb = "nb\<lparr>nd_prev := Some i\<rparr>"
  define h2 where "h2 = put_cnode b (Some ?nb) (put_cnode i (Some ?ni) h)"
  define h3 where "h3 = (if ys = [] then put_cnode a (Some (n\<lparr>nd_child := Some i\<rparr>)) h2
    else relink_next (end_of None ys) (Some i) h2)"
  have d: "i \<noteq> b" "b \<noteq> a" "a \<noteq> i" "b \<notin> set ys" "i \<notin> set ys" "a \<notin> set ys" "b \<notin> set zs" "i \<notin> set zs" "a \<notin> set zs"
    using n(3,4) i(2,3) by auto
  have p: "c \<in> set ys" if "end_of None ys = Some c" for c using end_of_mem[OF that] .
  have first: "nd_child n = Some b \<longleftrightarrow> ys = []" using n(2,3) by (cases ys) auto
  have at2: "ch_node h2 a = Some n" "ch_node h2 b = Some ?nb" "ch_node h2 i = Some ?ni"
    using n(1) d by (auto simp: h2_def)
  have ys2: "dseg h2 None (nd_child n) ys (Some b)" and zs2: "dseg h2 (Some b) (nd_next nb) zs None"
    using n(2) nb(3) d by (auto simp: h2_def intro!: dseg_other)
  have last: "\<exists>c nc. end_of None ys = Some c \<and> ch_node h2 c = Some nc" if "ys \<noteq> []"
    using that dseg_nodes[OF ys2, of "last ys"] by (auto simp: end_of_def)
  have run: "cJSON_InsertItemInArray h (Some a) (int (length ys)) i m = (Val h3, m)"
  proof -
    have "get_array_item h (Some a) (length ys) m = (Val (Some b), m)" using lookups_ok(2)[OF l] by simp
    moreover have "put_cnode i (Some ?ni) (put_cnode i (Some (ni\<lparr>nd_next := Some b\<rparr>)) h) = put_cnode i (Some ?ni) h"
      by (simp add: put_cnode_def)
    ultimately have "cJSON_InsertItemInArray h (Some a) (int (length ys)) i m =
        (if ys = [] then store_node (\<lambda>p. p\<lparr>nd_child := Some i\<rparr>) a h2
         else case end_of None ys of None \<Rightarrow> cfault Undefined | Some q \<Rightarrow> store_node (\<lambda>p. p\<lparr>nd_next := Some i\<rparr>) q h2) m"
      using ni nb d at2 first
      by (simp add: cJSON_InsertItemInArray_def cbind_def[of "get_array_item _ _ _"] heap_simps h2_def[symmetric])
        (auto simp: h2_def heap_simps split: option.split)
    also have "\<dots> = (Val h3, m)"
      using at2(1) last by (auto simp: h3_def heap_simps relink_next_def)
    finally show ?thesis .
  qed
  have k2: "keeps a ?S h h2"
    unfolding h2_def using ni nb(1) d by (intro keeps_trans[OF keeps_put keeps_put]) auto
  have k: "keeps a ?S h h3"
  proof (cases "ys = []")
    case True
    have "keeps a ?S h2 (put_cnode a (Some (n\<lparr>nd_child := Some i\<rparr>)) h2)" using at2(1) by (intro keeps_put) auto
    with True keeps_trans[OF k2] show ?thesis by (simp add: h3_def)
  next
    case False
    have "keeps a ?S h2 (relink_next (end_of None ys) (Some i) h2)" using p by (intro keeps_relink(1)) auto
    with False keeps_trans[OF k2] show ?thesis by (simp add: h3_def)
  qed
  have sep: "Some b \<noteq> end_of None ys" "Some i \<noteq> end_of None ys" "Some a \<noteq> end_of None ys" using p d by auto
  have rest: "ch_node h3 b = Some ?nb" "ch_node h3 i = Some ?ni" "dseg h3 (Some b) (nd_next nb) zs None"
    using at2 zs2 d p n(3) relink_node(1)[OF sep(1)] relink_node(1)[OF sep(2)]
    by (auto simp: h3_def intro!: dseg_other dseg_relink_other(1))
  have front: "\<exists>n. ch_node h3 a = Some n \<and> dseg h3 None (nd_child n) ys (Some i)"
    using at2(1) dseg_relink_next[OF ys2, of "Some i"] n(3) relink_node(1)[OF sep(3)] p d
    by (auto simp: h3_def)
  have "child_list h3 a (ys @ i # b # zs)"
    using front rest n(3,4,5) d same_outside_ok[of "insert a ?S" h h3] k by (auto simp: child_list_def keeps_def)
  with run k show ?thesis by blast
qed

section \<open>Lemmas: replacing\<close>

lemma child_list_without:
  assumes "child_list h a xs" and "S \<inter> insert a (set xs) = {}"
  shows "child_list (without S h) a xs"
proof -
  obtain n where n: "ch_node h a = Some n" "dseg h None (nd_child n) xs None" using assms(1) by (auto simp: child_list_def)
  have "dseg (without S h) None (nd_child n) xs None" using assms(2) by (intro dseg_cong[OF _ n(2)]) auto
  with n(1) assms show ?thesis by (auto simp: child_list_def heap_ok_def)
qed

lemma replace_ok:
  assumes l: "child_list h a (ys @ i # zs)" and r: "detached h r" "r \<notin> set (ys @ i # zs)" "r \<noteq> a"
    and o: "ch_node h i = Some ni" "owns h (owned_child ni) C" "C \<inter> insert a (insert r (set (ys @ i # zs))) = {}"
  shows "\<exists>h'. cJSON_ReplaceItemViaPointer h (Some a) (Some i) (Some r) m = (Val (True, without (insert i C) h'), m) \<and>
    child_list (without (insert i C) h') a (ys @ r # zs) \<and> keeps a (insert r (set (ys @ i # zs))) h h'"
proof -
  obtain n where n: "ch_node h a = Some n" "dseg h None (nd_child n) ys (Some i)"
      "distinct (ys @ i # zs)" "a \<notin> set (ys @ i # zs)" "heap_ok h"
    using l by (auto simp: child_list_def)
  have ni: "nd_prev ni = end_of None ys" "dseg h (Some i) (nd_next ni) zs None"
    using l o(1) by (auto simp: child_list_def)
  obtain nr where nr: "ch_node h r = Some nr" using r(1) by (auto simp: detached_def)
  let ?S = "insert r (set (ys @ i # zs))"
  obtain pp q where pp: "end_of None ys = pp" and q: "nd_next ni = q" by simp
  let ?nr = "nr\<lparr>nd_next := q, nd_prev := pp\<rparr>"
  define h1 where "h1 = put_cnode r (Some ?nr) h"
  define h2 where "h2 = relink_prev q (Some r) h1"
  define h3 where "h3 = relink_next pp (Some r) h2"
  define h4 where "h4 = (if ys = [] then put_cnode a (Some (n\<lparr>nd_child := Some r\<rparr>)) h3 else h3)"
  define h5 where "h5 = put_cnode i (Some (ni\<lparr>nd_next := None, nd_prev := None\<rparr>)) h4"
  have d: "r \<noteq> i" "i \<noteq> a" "r \<noteq> a" "i \<notin> set ys" "r \<notin> set ys" "a \<notin> set ys" "i \<notin> set zs" "r \<notin> set zs" "a \<notin> set zs"
    using n(3,4) r(2,3) by auto
  have p: "c \<in> set ys" if "pp = Some c" for c using that pp end_of_mem by blast
  have qz: "c \<in> set zs" if "q = Some c" for c using ni(2) that q dseg_start_mem by metis
  have sep: "Some x \<noteq> pp" "Some x \<noteq> q" if "x \<in> {a, i, r} \<union> C" for x using p qz d that o(3) by auto
  have first: "nd_child n = Some i \<longleftrightarrow> ys = []" using n(2,3) by (cases ys) auto
  have node: "ch_node h2 x = ch_node h1 x" "ch_node h3 x = ch_node h1 x" if "x \<in> {a, i, r} \<union> C" for x
    using relink_node(1)[OF sep(1)[OF that]] relink_node(2)[OF sep(2)[OF that]] by (simp_all add: h3_def h2_def)
  have at1: "ch_node h1 r = Some ?nr" "ch_node h1 i = Some ni" "ch_node h1 a = Some n"
    using n(1) o(1) d by (auto simp: h1_def)
  have zs1: "dseg h1 (Some i) q zs None" and ys1: "dseg h1 None (nd_child n) ys (Some i)"
    using ni(2) n(2) q d by (auto simp: h1_def intro!: dseg_other)
  have zs3: "dseg h3 (Some r) q zs None"
  proof -
    have "dseg h2 (Some r) q zs None"
      using dseg_relink_prev[OF zs1, of "Some r"] n(3) by (auto simp: h2_def)
    then show ?thesis unfolding h3_def using p n(3) by (intro dseg_relink_other(1)) auto
  qed
  have ys2: "dseg h2 None (nd_child n) ys (Some i)"
    unfolding h2_def using qz n(3) by (intro dseg_relink_other(2) ys1) auto
  have ys3: "dseg h3 None (nd_child n) ys (Some r)" if "ys \<noteq> []"
    using dseg_relink_next[OF ys2 _ that, of "Some r"] n(3) pp by (simp add: h3_def)
  have k: "keeps a ?S h h5"
  proof -
    have "keeps a ?S h h1" unfolding h1_def using nr by (intro keeps_put) auto
    moreover have "keeps a ?S h1 h2" unfolding h2_def using qz by (intro keeps_relink(2)) auto
    moreover have "keeps a ?S h2 h3" unfolding h3_def using p by (intro keeps_relink(1)) auto
    moreover have "keeps a ?S h3 h4"
      using keeps_put[of h3 a n _ a ?S] keeps_refl node(2)[of a] at1(3) by (auto simp: h4_def)
    moreover have "keeps a ?S h4 h5"
      unfolding h5_def using node(2)[of i] at1(2) d by (intro keeps_put[of _ _ ni]) (auto simp: h4_def)
    ultimately show ?thesis by (meson keeps_trans)
  qed
  have front: "\<exists>n. ch_node h5 a = Some n \<and> dseg h5 None (nd_child n) ys (Some r)"
    using node(2)[of a] at1(3) ys3 d by (auto simp: h5_def h4_def intro!: dseg_other)
  have rest: "ch_node h5 r = Some ?nr" "dseg h5 (Some r) q zs None"
    using node(2)[of r] at1(1) zs3 d by (auto simp: h5_def h4_def intro!: dseg_other)
  have ok5: "heap_ok h5" using same_outside_ok[of "insert a ?S" h h5] k n(5) by (auto simp: keeps_def)
  have l5: "child_list h5 a (ys @ r # zs)"
    using front rest n(3,4) d pp ok5 by (auto simp: child_list_def)
  have "owns h5 (Some i) (insert i (C \<union> {}))"
  proof (rule owns.owns_Some)
    have "ch_node h5 x = ch_node h x" if "x \<in> C" for x using k that o(3) by (auto simp: keeps_def same_outside_def)
    then show "owns h5 (owned_child (ni\<lparr>nd_next := None, nd_prev := None\<rparr>)) C" using owns_other[OF o(2), of h5] by simp
  qed (use o(3) in \<open>auto simp: h5_def\<close>)
  from cJSON_Delete_ok[OF this ok5]
  have del: "cJSON_Delete (Some i) h5 m = (Val (without (insert i C) h5), m)" for m by simp
  have "\<And>c. q = Some c \<Longrightarrow> ch_node h1 c \<noteq> None" using qz zs1 dseg_nodes by blast
  moreover have "\<And>c. pp = Some c \<Longrightarrow> ch_node h2 c \<noteq> None" using p ys2 dseg_nodes by blast
  ultimately have "cJSON_ReplaceItemViaPointer h (Some a) (Some i) (Some r) m =
      cbind (if ys = [] then store_node (\<lambda>p. p\<lparr>nd_child := Some r\<rparr>) a h3 else cret h3) (\<lambda>h.
      cbind (store_node (\<lambda>x. x\<lparr>nd_next := None, nd_prev := None\<rparr>) i h) (\<lambda>h.
      cbind (cJSON_Delete (Some i) h) (\<lambda>h. cret (True, h)))) m"
    using node at1 o(1) nr ni(1) pp q d first h1_def h2_def h3_def
    by (simp add: cJSON_ReplaceItemViaPointer_def heap_simps)
  also have "\<dots> = (Val (True, without (insert i C) h5), m)"
    using node(2)[of a] node(2)[of i] at1 d del
    by (auto simp: heap_simps h4_def h5_def cbind_def[of "cJSON_Delete _ _"] cret_def)
  finally have run: "cJSON_ReplaceItemViaPointer h (Some a) (Some i) (Some r) m = (Val (True, without (insert i C) h5), m)" .
  have "child_list (without (insert i C) h5) a (ys @ r # zs)"
    using n(3,4) d o(3) by (intro child_list_without[OF l5]) auto
  with run k show ?thesis by blast
qed

section \<open>The contract of an operation on a list\<close>

text \<open>
  An operation on the children of one node works on the node, its children and the nodes it is
  given (\<open>extra\<close>), and changes the list as \<open>spec\<close> says. Such an operation leaves alone every name and
  every list of another node that shares no element with the one it works on.
\<close>

locale list_operation =
  fixes run :: "cheap \<Rightarrow> caddr \<Rightarrow> cheap cmd"
    and pre :: "cheap \<Rightarrow> caddr \<Rightarrow> caddr list \<Rightarrow> bool"
    and extra :: "caddr set"
    and spec :: "caddr list \<Rightarrow> caddr list"
  assumes runs: "child_list h a xs \<Longrightarrow> pre h a xs \<Longrightarrow>
    \<exists>h'. run h a m = (Val h', m) \<and> child_list h' a (spec xs) \<and> keeps a (extra \<union> set xs) h h'"
begin

lemma others_kept:
  assumes "child_list h a xs" and "pre h a xs"
  shows "\<exists>h'. run h a m = (Val h', m) \<and> child_list h' a (spec xs) \<and>
    (\<forall>b ys. child_list h b ys \<and> b \<noteq> a \<and> set ys \<inter> (extra \<union> set xs) = {} \<longrightarrow> child_list h' b ys) \<and>
    (\<forall>x. payload h' x = payload h x)"
proof -
  obtain h' where h': "run h a m = (Val h', m)" "child_list h' a (spec xs)" "keeps a (extra \<union> set xs) h h'"
    using runs[OF assms] by blast
  have "child_list h' b ys" if "child_list h b ys" "b \<noteq> a" "set ys \<inter> (extra \<union> set xs) = {}" for b ys
    using child_list_kept[OF that(1) h'(3) that(2,3)] .
  with h' show ?thesis by (auto simp: keeps_def)
qed

end

definition fresh_item :: "caddr \<Rightarrow> cheap \<Rightarrow> caddr \<Rightarrow> caddr list \<Rightarrow> bool" where
  "fresh_item i h a xs \<longleftrightarrow> detached h i \<and> i \<noteq> a \<and> i \<notin> set xs"

definition insert_at :: "nat \<Rightarrow> 'a \<Rightarrow> 'a list \<Rightarrow> 'a list" where
  "insert_at k i xs = take k xs @ i # drop k xs"

definition remove_at :: "nat \<Rightarrow> 'a list \<Rightarrow> 'a list" where
  "remove_at k xs = take k xs @ drop (Suc k) xs"

lemma remove_at_mem:
  assumes "distinct xs" and "k < length xs"
  shows "set (remove_at k xs) = set xs - {xs ! k}"
proof -
  have xs: "xs = take k xs @ xs ! k # drop (Suc k) xs" using assms(2) by (rule id_take_nth_drop)
  then have "xs ! k \<notin> set (take k xs) \<union> set (drop (Suc k) xs)"
    using assms(1) by (metis Un_iff distinct.simps(2) distinct_append not_distinct_conv_prefix in_set_conv_decomp UnE disjoint_insert(2) list.simps(15))
  with xs show ?thesis unfolding remove_at_def by (metis Diff_insert_absorb Un_insert_right list.simps(15) set_append)
qed

interpretation append_op: list_operation "\<lambda>h a. cJSON_AddItemToArray h (Some a) (Some i)" "fresh_item i" "{i}" "\<lambda>xs. xs @ [i]"
  for i
proof
  fix h a xs m
  assume "child_list h a xs" and "fresh_item i h a xs"
  then obtain h' where "add_item_to_array h (Some a) (Some i) m = (Val (True, h'), m)" "child_list h' a (xs @ [i])"
      "keeps a (insert i (set xs)) h h'"
    using add_item_ok[of h a xs i m] by (auto simp: fresh_item_def)
  then show "\<exists>h'. cJSON_AddItemToArray h (Some a) (Some i) m = (Val h', m) \<and> child_list h' a (xs @ [i]) \<and>
      keeps a ({i} \<union> set xs) h h'"
    by (auto simp: cJSON_AddItemToArray_def cbind_def cret_def)
qed

interpretation insert_op: list_operation "\<lambda>h a. cJSON_InsertItemInArray h (Some a) (int k) i" "fresh_item i" "{i}"
    "insert_at k i"
  for k i
proof
  fix h a xs m
  assume l: "child_list h a xs" and f: "fresh_item i h a xs"
  show "\<exists>h'. cJSON_InsertItemInArray h (Some a) (int k) i m = (Val h', m) \<and> child_list h' a (insert_at k i xs) \<and>
      keeps a ({i} \<union> set xs) h h'"
  proof (cases "k < length xs")
    case True
    then have xs: "xs = take k xs @ xs ! k # drop (Suc k) xs" "drop k xs = xs ! k # drop (Suc k) xs"
      and "length (take k xs) = k"
      by (simp_all add: id_take_nth_drop[symmetric] Cons_nth_drop_Suc)
    from insert_ok[of h a "take k xs" "xs ! k" "drop (Suc k) xs" i m] l f this show ?thesis
      by (simp add: fresh_item_def insert_at_def)
  next
    case False
    then have "cJSON_InsertItemInArray h (Some a) (int k) i m = cJSON_AddItemToArray h (Some a) (Some i) m"
      using lookups_ok(2)[OF l, of k m]
      by (simp add: cJSON_InsertItemInArray_def cJSON_AddItemToArray_def cbind_def[of "get_array_item _ _ _"])
    with append_op.runs[OF l f, of m] False show ?thesis by (simp add: insert_at_def)
  qed
qed

lemma detach_at_ok:
  assumes "child_list h a xs" and "k < length xs"
  shows "\<exists>h'. cJSON_DetachItemFromArray h (Some a) (int k) m = (Val (Some (xs ! k), h'), m) \<and>
    child_list h' a (remove_at k xs) \<and> detached h' (xs ! k) \<and> keeps a (set xs) h h' \<and>
    map_option nd_child (ch_node h' (xs ! k)) = map_option nd_child (ch_node h (xs ! k))"
proof -
  have xs: "xs = take k xs @ xs ! k # drop (Suc k) xs" using assms(2) by (simp add: id_take_nth_drop)
  have "cJSON_DetachItemFromArray h (Some a) (int k) m = cJSON_DetachItemViaPointer h (Some a) (Some (xs ! k)) m"
    using lookups_ok(2)[OF assms(1), of k m] assms(2)
    by (simp add: cJSON_DetachItemFromArray_def cbind_def[of "get_array_item _ _ _"])
  with detach_ok[of h a "take k xs" "xs ! k" "drop (Suc k) xs" m] assms(1) xs show ?thesis
    by (simp add: remove_at_def)
qed

lemma detach_beyond:
  assumes "child_list h a xs" and "length xs \<le> k"
  shows "cJSON_DetachItemFromArray h (Some a) (int k) m = (Val (None, h), m)"
  using lookups_ok(2)[OF assms(1), of k m] assms(2)
  by (simp add: cJSON_DetachItemFromArray_def cbind_def[of "get_array_item _ _ _"] cJSON_DetachItemViaPointer_def cret_def)

interpretation detach_op: list_operation
    "\<lambda>h a. cbind (cJSON_DetachItemFromArray h (Some a) (int k)) (\<lambda>(_, h). cret h)" "\<lambda>_ _ _. True" "{}" "remove_at k"
  for k
proof
  fix h a xs m
  assume l: "child_list h a xs"
  show "\<exists>h'. cbind (cJSON_DetachItemFromArray h (Some a) (int k)) (\<lambda>(_, h). cret h) m = (Val h', m) \<and>
      child_list h' a (remove_at k xs) \<and> keeps a ({} \<union> set xs) h h'"
  proof (cases "k < length xs")
    case True
    with detach_at_ok[OF l True, of m] show ?thesis by (auto simp: cbind_def cret_def)
  next
    case False
    with detach_beyond[OF l] l show ?thesis by (auto simp: cbind_def cret_def remove_at_def keeps_refl)
  qed
qed

section \<open>Properties\<close>

text \<open>A heap with the given nodes at the addresses from 0 on.\<close>

definition heap_of :: "cnode list \<Rightarrow> cheap" where
  "heap_of ns = \<lparr>ch_node = (\<lambda>a. if a < length ns then Some (ns ! a) else None), ch_limit = length ns\<rparr>"

definition plain_node :: "cptr \<Rightarrow> cptr \<Rightarrow> cptr \<Rightarrow> cnode" where
  "plain_node nxt prv chd = \<lparr>nd_next = nxt, nd_prev = prv, nd_child = chd, nd_value = CjArray, nd_string = None,
     nd_ref = False, nd_const = False\<rparr>"

lemma heap_of_ok: "heap_ok (heap_of ns)"
  by (simp add: heap_ok_def heap_of_def)

lemma heap_of_node: "ch_node (heap_of ns) a = (if a < length ns then Some (ns ! a) else None)"
  by (simp add: heap_of_def)

text \<open>An array at 0 with the elements 1 and 2, where 1 has the child 3; 4 has the child 5; 6 is a new item.\<close>

definition example_heap :: cheap where
  "example_heap = heap_of
     [plain_node None None (Some 1), plain_node (Some 2) None (Some 3), plain_node None (Some 1) None,
      plain_node None None None, plain_node None None (Some 5), plain_node None None None, plain_node None None None]"

lemma example_heap_lists:
  "child_list example_heap 0 [1, 2]" "child_list example_heap 4 [5]" "fresh_item 6 example_heap 0 [1, 2]"
  "child_list example_heap 1 [3]"
  unfolding child_list_def fresh_item_def detached_def example_heap_def
  by (simp_all add: heap_of_ok heap_of_node plain_node_def)

lemma example_heap_node: "ch_node example_heap 1 = Some (plain_node (Some 2) None (Some 3))"
  by (simp add: example_heap_def heap_of_node)

lemma example_heap_owns: "owns example_heap (Some 3) {3}"
proof -
  have "owns example_heap (Some 3) (insert 3 ({} \<union> {}))"
    by (rule owns.owns_Some[where n = "plain_node None None None"])
      (simp_all add: example_heap_def heap_of_node plain_node_def owned_child_def)
  then show ?thesis by simp
qed

text \<open>C19. \<open>cJSON_InsertItemInArray\<close> implements insertion into a list: given an item that is detached (both its
  links are \<open>NULL\<close>) and is neither the array nor one of its elements, the relinking of \<open>next\<close>, \<open>prev\<close> and \<open>child\<close> turns the
  children \<open>xs\<close> of the array into \<open>xs\<close> with the item at position \<open>k\<close>, or at the end where there is no such
  position, without a fault. The children of every other node stay the same list, those of the elements and of
  the item and the list that the array is in among them, as long as that list shares no node with \<open>xs\<close> and the
  item (as the children of a reference to the array would); no name and no value changes.\<close>

theorem cJSON_InsertItemInArray_refines:
  assumes "child_list h a xs" and "detached h i" and "i \<noteq> a" and "i \<notin> set xs"
  shows "\<exists>h'. cJSON_InsertItemInArray h (Some a) (int k) i m = (Val h', m) \<and>
    child_list h' a (take k xs @ i # drop k xs) \<and>
    (\<forall>b ys. child_list h b ys \<and> b \<noteq> a \<and> set ys \<inter> insert i (set xs) = {} \<longrightarrow> child_list h' b ys) \<and>
    (\<forall>x. payload h' x = payload h x)"
  using insert_op.others_kept[OF assms(1), of i k m] assms(2-4) by (simp add: fresh_item_def insert_at_def)

theorem cJSON_InsertItemInArray_refines_witness:
  "\<exists>h'. cJSON_InsertItemInArray example_heap (Some 0) 1 6 [] = (Val h', []) \<and> child_list h' 0 [1, 6, 2] \<and>
    child_list h' 1 [3] \<and> child_list h' 4 [5] \<and> (\<forall>x. payload h' x = payload example_heap x)"
proof -
  have "detached example_heap 6" using example_heap_lists(3) by (simp add: fresh_item_def)
  from cJSON_InsertItemInArray_refines[OF example_heap_lists(1) this, of 1 "[]"]
  obtain h' where h': "cJSON_InsertItemInArray example_heap (Some 0) 1 6 [] = (Val h', [])" "child_list h' 0 [1, 6, 2]"
      "\<forall>b ys. child_list example_heap b ys \<and> b \<noteq> 0 \<and> set ys \<inter> insert 6 (set [1, 2]) = {} \<longrightarrow> child_list h' b ys"
      "\<forall>x. payload h' x = payload example_heap x"
    by auto
  have "child_list h' 1 [3]" using h'(3)[rule_format, of 1 "[3]"] example_heap_lists(4) by simp
  moreover have "child_list h' 4 [5]" using h'(3)[rule_format, of 4 "[5]"] example_heap_lists(2) by simp
  ultimately show ?thesis using h'(1,2,4) by blast
qed

text \<open>C20. Deleting element \<open>k\<close> of an array takes it out of the list and frees the element and all
  nodes below it, each exactly once: afterwards the children of the node are the others in their
  order, exactly the element and the nodes it owns are gone, and no freed node is touched again.\<close>

theorem cJSON_DeleteItemFromArray_frees:
  assumes "child_list h a xs" and "k < length xs" and "ch_node h (xs ! k) = Some n" and "owns h (owned_child n) C"
    and "C \<inter> insert a (set xs) = {}"
  shows "\<exists>h'. cJSON_DeleteItemFromArray h (Some a) (int k) m = (Val h', m) \<and> child_list h' a (remove_at k xs) \<and>
    (\<forall>x. ch_node h' x = None \<longleftrightarrow> x = xs ! k \<or> x \<in> C \<or> ch_node h x = None)"
proof -
  obtain h1 where h1: "cJSON_DetachItemFromArray h (Some a) (int k) m = (Val (Some (xs ! k), h1), m)"
      "child_list h1 a (remove_at k xs)" "detached h1 (xs ! k)" "keeps a (set xs) h h1"
      "map_option nd_child (ch_node h1 (xs ! k)) = map_option nd_child (ch_node h (xs ! k))"
    using detach_at_ok[OF assms(1,2)] by blast
  obtain n1 where n1: "ch_node h1 (xs ! k) = Some n1" "owned_child n1 = owned_child n" "nd_next n1 = None"
  proof -
    have "payload h1 (xs ! k) = payload h (xs ! k)" using h1(4) by (simp add: keeps_def)
    with h1(3,5) assms(3) that show thesis by (auto simp: detached_def payload_def owned_child_def)
  qed
  have mem: "xs ! k \<in> set xs" using assms(2) by simp
  have "owns h1 (owned_child n1) C"
    unfolding n1(2) using h1(4) assms(5) by (intro owns_other[OF assms(4)]) (auto simp: keeps_def same_outside_def)
  then have "owns h1 (Some (xs ! k)) (insert (xs ! k) (C \<union> {}))"
    using n1(1,3) mem assms(5) by (intro owns.owns_Some) auto
  then have "cJSON_Delete (Some (xs ! k)) h1 m = (Val (without (insert (xs ! k) C) h1), m)"
    using cJSON_Delete_ok h1(2) by (simp add: child_list_def)
  then have "cJSON_DeleteItemFromArray h (Some a) (int k) m = (Val (without (insert (xs ! k) C) h1), m)"
    by (simp add: cJSON_DeleteItemFromArray_def cbind_def[of "cJSON_DetachItemFromArray _ _ _"] h1(1))
  moreover have "distinct xs" "a \<notin> set xs" using assms(1) by (auto simp: child_list_def)
  then have "child_list (without (insert (xs ! k) C) h1) a (remove_at k xs)"
    using assms(2,5) remove_at_mem[OF \<open>distinct xs\<close> assms(2)] mem by (intro child_list_without[OF h1(2)]) auto
  moreover have "ch_node h1 x = None \<longleftrightarrow> ch_node h x = None" for x
    by (rule keeps_nodes[OF h1(4)])
  ultimately show ?thesis by auto
qed

theorem cJSON_DeleteItemFromArray_frees_witness:
  "\<exists>h'. cJSON_DeleteItemFromArray example_heap (Some 0) 0 [] = (Val h', []) \<and> child_list h' 0 [2] \<and>
    (\<forall>x. ch_node h' x = None \<longleftrightarrow> x = 1 \<or> x \<in> {3} \<or> ch_node example_heap x = None)"
proof -
  have "ch_node example_heap ([1, 2] ! 0) = Some (plain_node (Some 2) None (Some 3))"
    using example_heap_node by simp
  with cJSON_DeleteItemFromArray_frees[OF example_heap_lists(1), of 0 _ "{3}" "[]"] example_heap_owns show ?thesis
    by (simp add: remove_at_def plain_node_def owned_child_def)
qed

end
