(* ===== verification/Cjson_Tree.thy ===== *)
theory Cjson_Tree
  imports Cjson_List "HOL-Library.List_Lexorder" "HOL-Library.Char_ord"
begin

text \<open>
  The operations of \<open>c-sdk-common/src/cJSON.c\<close> on whole trees, over the heap of \<open>Cjson_List\<close>: the
  constructors \<open>cJSON_Create\<dots>\<close> and \<open>cJSON_Add\<dots>ToObject\<close>, references, \<open>cJSON_Duplicate\<close> and
  \<open>cJSON_Compare\<close>. A constructor returns the pointer, \<open>None\<close> for \<open>NULL\<close>, and the heap, since on its
  error paths nodes have been allocated and freed. The recursion over the depth of a tree and the
  loops over its lists have fuel for one more turn than addresses were ever handed out.

  \<open>reads h p ts\<close> says which trees the chain of nodes from \<open>p\<close> on spells out. The lemmas show that
  a copy spells out the same tree in nodes of its own or leaves nothing behind, and that the
  comparison decides equality of values up to the order of members.
\<close>

section \<open>Constructors\<close>

text \<open>A new node with some fields set.\<close>

definition create_node :: "(cnode \<Rightarrow> cnode) \<Rightarrow> cheap \<Rightarrow> (cptr \<times> cheap) cmd" where
  "create_node f h =
     cbind (ctry (cJSON_New_Item h)) (\<lambda>r.
       case r of
         None \<Rightarrow> cret (None, h)
       | Some (item, h) \<Rightarrow> cbind (store_node f item h) (\<lambda>h. cret (Some item, h)))"

text \<open>\<open>cJSON_strdup\<close>, whose result the callers inspect.\<close>

definition cJSON_strdup :: "cstring \<Rightarrow> cstring cmd" where
  "cJSON_strdup s = (case s of None \<Rightarrow> cret None | Some t \<Rightarrow> ctry (LDStrDup t))"

definition cJSON_CreateNull :: "cheap \<Rightarrow> (cptr \<times> cheap) cmd" where
  "cJSON_CreateNull h = create_node (\<lambda>n. n\<lparr>nd_value := CjNULL\<rparr>) h"

definition cJSON_CreateTrue :: "cheap \<Rightarrow> (cptr \<times> cheap) cmd" where
  "cJSON_CreateTrue h = create_node (\<lambda>n. n\<lparr>nd_value := CjTrue\<rparr>) h"

definition cJSON_CreateFalse :: "cheap \<Rightarrow> (cptr \<times> cheap) cmd" where
  "cJSON_CreateFalse h = create_node (\<lambda>n. n\<lparr>nd_value := CjFalse\<rparr>) h"

definition cJSON_CreateBool :: "bool \<Rightarrow> cheap \<Rightarrow> (cptr \<times> cheap) cmd" where
  "cJSON_CreateBool b h = create_node (\<lambda>n. n\<lparr>nd_value := (if b then CjTrue else CjFalse)\<rparr>) h"

definition cJSON_CreateNumber :: "double \<Rightarrow> cheap \<Rightarrow> (cptr \<times> cheap) cmd" where
  "cJSON_CreateNumber num h = create_node (\<lambda>n. n\<lparr>nd_value := CjNumber num\<rparr>) h"

text \<open>The text is copied; where that fails the node is freed again.\<close>

definition create_text :: "(string \<Rightarrow> cj_value) \<Rightarrow> cstring \<Rightarrow> cheap \<Rightarrow> (cptr \<times> cheap) cmd" where
  "create_text kind s h =
     cbind (ctry (cJSON_New_Item h)) (\<lambda>r.
       case r of
         None \<Rightarrow> cret (None, h)
       | Some (item, h) \<Rightarrow>
           cbind (cJSON_strdup s) (\<lambda>copy.
             case copy of
               None \<Rightarrow> cbind (cJSON_Delete (Some item) h) (\<lambda>h. cret (None, h))
             | Some t \<Rightarrow> cbind (store_node (\<lambda>n. n\<lparr>nd_value := kind t\<rparr>) item h) (\<lambda>h. cret (Some item, h))))"

definition cJSON_CreateString :: "cstring \<Rightarrow> cheap \<Rightarrow> (cptr \<times> cheap) cmd" where
  "cJSON_CreateString s h = create_text CjString s h"

definition cJSON_CreateRaw :: "cstring \<Rightarrow> cheap \<Rightarrow> (cptr \<times> cheap) cmd" where
  "cJSON_CreateRaw raw h = create_text CjRaw raw h"

definition cJSON_CreateStringReference :: "string \<Rightarrow> cheap \<Rightarrow> (cptr \<times> cheap) cmd" where
  "cJSON_CreateStringReference s h = create_node (\<lambda>n. n\<lparr>nd_value := CjString s, nd_ref := True\<rparr>) h"

definition cJSON_CreateObjectReference :: "cptr \<Rightarrow> cheap \<Rightarrow> (cptr \<times> cheap) cmd" where
  "cJSON_CreateObjectReference child h =
     create_node (\<lambda>n. n\<lparr>nd_value := CjObject, nd_ref := True, nd_child := child\<rparr>) h"

definition cJSON_CreateArrayReference :: "cptr \<Rightarrow> cheap \<Rightarrow> (cptr \<times> cheap) cmd" where
  "cJSON_CreateArrayReference child h =
     create_node (\<lambda>n. n\<lparr>nd_value := CjArray, nd_ref := True, nd_child := child\<rparr>) h"

definition cJSON_CreateArray :: "cheap \<Rightarrow> (cptr \<times> cheap) cmd" where
  "cJSON_CreateArray h = create_node (\<lambda>n. n\<lparr>nd_value := CjArray\<rparr>) h"

definition cJSON_CreateObject :: "cheap \<Rightarrow> (cptr \<times> cheap) cmd" where
  "cJSON_CreateObject h = create_node (\<lambda>n. n\<lparr>nd_value := CjObject\<rparr>) h"

text \<open>Linking a new element behind the last one, or as the first child where there is none.\<close>

definition link_child :: "caddr \<Rightarrow> cptr \<Rightarrow> caddr \<Rightarrow> cheap \<Rightarrow> cheap cmd" where
  "link_child a p n h =
     (case p of
        None \<Rightarrow> store_node (\<lambda>x. x\<lparr>nd_child := Some n\<rparr>) a h
      | Some q \<Rightarrow> suffix_object q n h)"

text \<open>The loop of \<open>cJSON_CreateIntArray\<close> and its kin: one element per entry of the input.\<close>

primrec create_elements :: "('a \<Rightarrow> cheap \<Rightarrow> (cptr \<times> cheap) cmd) \<Rightarrow> caddr \<Rightarrow> cptr \<Rightarrow> 'a list \<Rightarrow> cheap \<Rightarrow> (bool \<times> cheap) cmd" where
  "create_elements create a p [] h = cret (True, h)"
| "create_elements create a p (x # numbers) h =
     cbind (create x h) (\<lambda>(n, h).
       case n of
         None \<Rightarrow> cret (False, h)
       | Some n \<Rightarrow> cbind (link_child a p n h) (\<lambda>h. create_elements create a (Some n) numbers h))"

text \<open>A count beyond the end of the input would be a read outside of it.\<close>

definition create_array :: "('a \<Rightarrow> cheap \<Rightarrow> (cptr \<times> cheap) cmd) \<Rightarrow> 'a list option \<Rightarrow> int \<Rightarrow> cheap \<Rightarrow> (cptr \<times> cheap) cmd" where
  "create_array create numbers count h =
     (case numbers of
        None \<Rightarrow> cret (None, h)
      | Some xs \<Rightarrow>
          (if count < 0 then cret (None, h)
           else if int (length xs) < count then cfault Undefined
           else
             cbind (cJSON_CreateArray h) (\<lambda>(a, h).
               case a of
                 None \<Rightarrow> cret (None, h)
               | Some a \<Rightarrow>
                   cbind (create_elements create a None (take (nat count) xs) h) (\<lambda>(ok, h).
                     if ok then cret (Some a, h)
                     else cbind (cJSON_Delete (Some a) h) (\<lambda>h. cret (None, h))))))"

definition cJSON_CreateIntArray :: "int list option \<Rightarrow> int \<Rightarrow> cheap \<Rightarrow> (cptr \<times> cheap) cmd" where
  "cJSON_CreateIntArray numbers count h = create_array (\<lambda>i. cJSON_CreateNumber (of_int i)) numbers count h"

definition cJSON_CreateFloatArray :: "double list option \<Rightarrow> int \<Rightarrow> cheap \<Rightarrow> (cptr \<times> cheap) cmd" where
  "cJSON_CreateFloatArray numbers count h = create_array cJSON_CreateNumber numbers count h"

definition cJSON_CreateDoubleArray :: "double list option \<Rightarrow> int \<Rightarrow> cheap \<Rightarrow> (cptr \<times> cheap) cmd" where
  "cJSON_CreateDoubleArray numbers count h = create_array cJSON_CreateNumber numbers count h"

definition cJSON_CreateStringArray :: "cstring list option \<Rightarrow> int \<Rightarrow> cheap \<Rightarrow> (cptr \<times> cheap) cmd" where
  "cJSON_CreateStringArray strings count h = create_array cJSON_CreateString strings count h"

section \<open>New members and references\<close>

text \<open>A new item that is freed again where it cannot be added.\<close>

definition add_new_item :: "(cheap \<Rightarrow> (cptr \<times> cheap) cmd) \<Rightarrow> cptr \<Rightarrow> cstring \<Rightarrow> cheap \<Rightarrow> (cptr \<times> cheap) cmd" where
  "add_new_item create object_ptr name h =
     cbind (create h) (\<lambda>(item, h).
     cbind (add_item_to_object h object_ptr name item False) (\<lambda>(ok, h).
       if ok then cret (item, h)
       else cbind (cJSON_Delete item h) (\<lambda>h. cret (None, h))))"

definition cJSON_AddNullToObject :: "cptr \<Rightarrow> cstring \<Rightarrow> cheap \<Rightarrow> (cptr \<times> cheap) cmd" where
  "cJSON_AddNullToObject object_ptr name = add_new_item cJSON_CreateNull object_ptr name"

definition cJSON_AddTrueToObject :: "cptr \<Rightarrow> cstring \<Rightarrow> cheap \<Rightarrow> (cptr \<times> cheap) cmd" where
  "cJSON_AddTrueToObject object_ptr name = add_new_item cJSON_CreateTrue object_ptr name"

definition cJSON_AddFalseToObject :: "cptr \<Rightarrow> cstring \<Rightarrow> cheap \<Rightarrow> (cptr \<times> cheap) cmd" where
  "cJSON_AddFalseToObject object_ptr name = add_new_item cJSON_CreateFalse object_ptr name"

definition cJSON_AddBoolToObject :: "cptr \<Rightarrow> cstring \<Rightarrow> bool \<Rightarrow> cheap \<Rightarrow> (cptr \<times> cheap) cmd" where
  "cJSON_AddBoolToObject object_ptr name boolean = add_new_item (cJSON_CreateBool boolean) object_ptr name"

definition cJSON_AddNumberToObject :: "cptr \<Rightarrow> cstring \<Rightarrow> double \<Rightarrow> cheap \<Rightarrow> (cptr \<times> cheap) cmd" where
  "cJSON_AddNumberToObject object_ptr name number = add_new_item (cJSON_CreateNumber number) object_ptr name"

definition cJSON_AddStringToObject :: "cptr \<Rightarrow> cstring \<Rightarrow> cstring \<Rightarrow> cheap \<Rightarrow> (cptr \<times> cheap) cmd" where
  "cJSON_AddStringToObject object_ptr name s = add_new_item (cJSON_CreateString s) object_ptr name"

definition cJSON_AddRawToObject :: "cptr \<Rightarrow> cstring \<Rightarrow> cstring \<Rightarrow> cheap \<Rightarrow> (cptr \<times> cheap) cmd" where
  "cJSON_AddRawToObject object_ptr name raw = add_new_item (cJSON_CreateRaw raw) object_ptr name"

definition cJSON_AddObjectToObject :: "cptr \<Rightarrow> cstring \<Rightarrow> cheap \<Rightarrow> (cptr \<times> cheap) cmd" where
  "cJSON_AddObjectToObject object_ptr name = add_new_item cJSON_CreateObject object_ptr name"

definition cJSON_AddArrayToObject :: "cptr \<Rightarrow> cstring \<Rightarrow> cheap \<Rightarrow> (cptr \<times> cheap) cmd" where
  "cJSON_AddArrayToObject object_ptr name = add_new_item cJSON_CreateArray object_ptr name"

definition create_reference :: "cptr \<Rightarrow> cheap \<Rightarrow> (cptr \<times> cheap) cmd" where
  "create_reference item h =
     (case item of
        None \<Rightarrow> cret (None, h)
      | Some i \<Rightarrow>
          cbind (load h i) (\<lambda>n.
            create_node (\<lambda>_. n\<lparr>nd_string := None, nd_ref := True, nd_next := None, nd_prev := None\<rparr>) h))"

definition cJSON_AddItemReferenceToArray :: "cptr \<Rightarrow> cptr \<Rightarrow> cheap \<Rightarrow> cheap cmd" where
  "cJSON_AddItemReferenceToArray array item h =
     (case array of
        None \<Rightarrow> cret h
      | Some _ \<Rightarrow>
          cbind (create_reference item h) (\<lambda>(reference, h).
          cbind (add_item_to_array h array reference) (\<lambda>(_, h). cret h)))"

definition cJSON_AddItemReferenceToObject :: "cptr \<Rightarrow> cstring \<Rightarrow> cptr \<Rightarrow> cheap \<Rightarrow> cheap cmd" where
  "cJSON_AddItemReferenceToObject object_ptr name item h =
     (case (object_ptr, name) of
        (Some _, Some _) \<Rightarrow>
          cbind (create_reference item h) (\<lambda>(reference, h).
          cbind (add_item_to_object h object_ptr name reference False) (\<lambda>(_, h). cret h))
      | _ \<Rightarrow> cret h)"

section \<open>Copies\<close>

text \<open>The text of a node that has one (\<open>valuestring\<close>).\<close>

fun value_string :: "cj_value \<Rightarrow> cstring" where
  "value_string (CjString s) = Some s"
| "value_string (CjRaw s) = Some s"
| "value_string _ = None"

text \<open>\<open>cJSON_Duplicate\<close> up to the children: a failed copy of a string frees the new node. A name that is
  marked as constant is shared.\<close>

definition copy_node :: "caddr \<Rightarrow> cheap \<Rightarrow> (cptr \<times> cheap) cmd" where
  "copy_node item h =
     cbind (ctry (cJSON_New_Item h)) (\<lambda>r.
       case r of
         None \<Rightarrow> cret (None, h)
       | Some (newitem, h) \<Rightarrow>
           cbind (load h item) (\<lambda>n.
           cbind (if value_string (nd_value n) = None then cret True
             else cbind (cJSON_strdup (value_string (nd_value n))) (\<lambda>copy. cret (copy \<noteq> None))) (\<lambda>ok.
           cbind (if \<not> ok then cret False
             else if nd_string n = None \<or> nd_const n then cret True
             else cbind (cJSON_strdup (nd_string n)) (\<lambda>copy. cret (copy \<noteq> None))) (\<lambda>ok.
           cbind (store_node (\<lambda>x. x\<lparr>nd_value := nd_value n, nd_string := (if ok then nd_string n else None),
               nd_const := nd_const n\<rparr>) newitem h) (\<lambda>h.
             if ok then cret (Some newitem, h)
             else cbind (cJSON_Delete (Some newitem) h) (\<lambda>h. cret (None, h)))))))"

primrec copy_children ::
  "nat \<Rightarrow> (caddr \<Rightarrow> cheap \<Rightarrow> (cptr \<times> cheap) cmd) \<Rightarrow> caddr \<Rightarrow> cptr \<Rightarrow> cptr \<Rightarrow> cheap \<Rightarrow> (bool \<times> cheap) cmd" where
  "copy_children 0 copy newitem nxt child h = (case child of None \<Rightarrow> cret (True, h) | Some _ \<Rightarrow> cfault OutOfFuel)"
| "copy_children (Suc fuel) copy newitem nxt child h =
     (case child of
        None \<Rightarrow> cret (True, h)
      | Some c \<Rightarrow>
          cbind (copy c h) (\<lambda>(newchild, h).
            case newchild of
              None \<Rightarrow> cret (False, h)
            | Some b \<Rightarrow>
                cbind (link_child newitem nxt b h) (\<lambda>h.
                cbind (load h c) (\<lambda>n. copy_children fuel copy newitem (Some b) (nd_next n) h))))"

primrec duplicate :: "nat \<Rightarrow> bool \<Rightarrow> caddr \<Rightarrow> cheap \<Rightarrow> (cptr \<times> cheap) cmd" where
  "duplicate 0 recurse item h = cfault OutOfFuel"
| "duplicate (Suc fuel) recurse item h =
     cbind (copy_node item h) (\<lambda>(newitem, h).
       case newitem of
         None \<Rightarrow> cret (None, h)
       | Some a \<Rightarrow>
           (if \<not> recurse then cret (Some a, h)
            else
              cbind (load h item) (\<lambda>n.
              cbind (copy_children (Suc (ch_limit h)) (duplicate fuel True) a None (nd_child n) h) (\<lambda>(ok, h).
                if ok then cret (Some a, h)
                else cbind (cJSON_Delete (Some a) h) (\<lambda>h. cret (None, h))))))"

definition cJSON_Duplicate :: "cptr \<Rightarrow> bool \<Rightarrow> cheap \<Rightarrow> (cptr \<times> cheap) cmd" where
  "cJSON_Duplicate item recurse h =
     (case item of None \<Rightarrow> cret (None, h) | Some i \<Rightarrow> duplicate (Suc (ch_limit h)) recurse i h)"

section \<open>Comparison\<close>

text \<open>The type of a node: its value without the content.\<close>

fun node_type :: "cj_value \<Rightarrow> nat" where
  "node_type CjInvalid = 0"
| "node_type CjFalse = 1"
| "node_type CjTrue = 2"
| "node_type CjNULL = 4"
| "node_type (CjNumber _) = 8"
| "node_type (CjString _) = 16"
| "node_type CjArray = 32"
| "node_type CjObject = 64"
| "node_type (CjRaw _) = 128"

primrec compare_elements :: "nat \<Rightarrow> (caddr \<Rightarrow> caddr \<Rightarrow> bool cmd) \<Rightarrow> cheap \<Rightarrow> cptr \<Rightarrow> cptr \<Rightarrow> bool cmd" where
  "compare_elements 0 compare h a_element b_element = cfault OutOfFuel"
| "compare_elements (Suc fuel) compare h a_element b_element =
     (case (a_element, b_element) of
        (Some a, Some b) \<Rightarrow>
          cbind (compare a b) (\<lambda>same.
            if \<not> same then cret False
            else
              cbind (load h a) (\<lambda>an.
              cbind (load h b) (\<lambda>bn. compare_elements fuel compare h (nd_next an) (nd_next bn))))
      | _ \<Rightarrow> cret (a_element = b_element))"

primrec compare_members ::
  "nat \<Rightarrow> (caddr \<Rightarrow> caddr \<Rightarrow> bool cmd) \<Rightarrow> bool \<Rightarrow> cheap \<Rightarrow> caddr \<Rightarrow> cptr \<Rightarrow> bool cmd" where
  "compare_members 0 compare case_sensitive h other element = cfault OutOfFuel"
| "compare_members (Suc fuel) compare case_sensitive h other element =
     (case element of
        None \<Rightarrow> cret True
      | Some a \<Rightarrow>
          cbind (load h a) (\<lambda>n.
          cbind (get_object_item h (Some other) (nd_string n) case_sensitive) (\<lambda>b.
            case b of
              None \<Rightarrow> cret False
            | Some b \<Rightarrow>
                cbind (compare a b) (\<lambda>same.
                  if \<not> same then cret False
                  else compare_members fuel compare case_sensitive h other (nd_next n)))))"

text \<open>The members of either object are looked up in the other one.\<close>

primrec compare :: "nat \<Rightarrow> bool \<Rightarrow> cheap \<Rightarrow> caddr \<Rightarrow> caddr \<Rightarrow> bool cmd" where
  "compare 0 case_sensitive h a b = cfault OutOfFuel"
| "compare (Suc fuel) case_sensitive h a b =
     cbind (load h a) (\<lambda>an.
     cbind (load h b) (\<lambda>bn.
       if node_type (nd_value an) \<noteq> node_type (nd_value bn) \<or> nd_value an = CjInvalid then cret False
       else if a = b then cret True
       else
         (case (nd_value an, nd_value bn) of
            (CjNumber x, CjNumber y) \<Rightarrow> cret (x = y)
          | (CjString s, CjString t) \<Rightarrow> cret (s = t)
          | (CjRaw s, CjRaw t) \<Rightarrow> cret (s = t)
          | (CjArray, _) \<Rightarrow>
              compare_elements (Suc (ch_limit h)) (compare fuel case_sensitive h) h (nd_child an) (nd_child bn)
          | (CjObject, _) \<Rightarrow>
              cbind (compare_members (Suc (ch_limit h)) (compare fuel case_sensitive h) case_sensitive h b (nd_child an)) (\<lambda>same.
                if \<not> same then cret False
                else compare_members (Suc (ch_limit h)) (compare fuel case_sensitive h) case_sensitive h a (nd_child bn))
          | _ \<Rightarrow> cret True)))"

definition cJSON_Compare :: "cheap \<Rightarrow> cptr \<Rightarrow> cptr \<Rightarrow> bool \<Rightarrow> bool cmd" where
  "cJSON_Compare h a b case_sensitive =
     (case (a, b) of
        (Some x, Some y) \<Rightarrow> compare (Suc (ch_limit h)) case_sensitive h x y
      | _ \<Rightarrow> cret False)"

definition LDJSONCompare :: "cheap \<Rightarrow> cptr \<Rightarrow> cptr \<Rightarrow> bool cmd" where
  "LDJSONCompare h left right = cJSON_Compare h left right True"

definition LDJSONFree :: "cptr \<Rightarrow> cheap \<Rightarrow> cheap cmd" where
  "LDJSONFree json h = cJSON_Delete json h"

definition LDCollectionDetachIter :: "cheap \<Rightarrow> cptr \<Rightarrow> cptr \<Rightarrow> (cptr \<times> cheap) cmd" where
  "LDCollectionDetachIter h rawCollection rawIter =
     (case rawCollection of
        None \<Rightarrow> cret (None, h)
      | Some a \<Rightarrow>
          cbind (load h a) (\<lambda>collection.
            if nd_value collection \<noteq> CjArray \<and> nd_value collection \<noteq> CjObject then cret (None, h)
            else if rawIter = None then cret (None, h)
            else cJSON_DetachItemViaPointer h rawCollection rawIter))"

section \<open>The trees a heap spells out\<close>

datatype ctree = CNode (tree_value: cj_value) (tree_name: cstring) (tree_children: "ctree list")

inductive reads :: "cheap \<Rightarrow> cptr \<Rightarrow> ctree list \<Rightarrow> bool" for h where
  reads_None: "reads h None []"
| reads_Some: "ch_node h a = Some n \<Longrightarrow> reads h (nd_child n) cs \<Longrightarrow> reads h (nd_next n) ts \<Longrightarrow>
    reads h (Some a) (CNode (nd_value n) (nd_string n) cs # ts)"

inductive_cases reads_SomeE: "reads h (Some a) ts"
inductive_simps reads_None_iff [simp]: "reads h None ts"
inductive_simps reads_Some_iff: "reads h (Some a) ts"

definition tree_at :: "cheap \<Rightarrow> caddr \<Rightarrow> ctree \<Rightarrow> bool" where
  "tree_at h a t \<longleftrightarrow>
     (\<exists>n cs. ch_node h a = Some n \<and> reads h (nd_child n) cs \<and> t = CNode (nd_value n) (nd_string n) cs)"

lemma reads_Some_tree:
  "reads h (Some a) ts \<longleftrightarrow> (\<exists>n t us. ch_node h a = Some n \<and> ts = t # us \<and> tree_at h a t \<and> reads h (nd_next n) us)"
  by (auto simp: reads_Some_iff tree_at_def)

lemma reads_unique: "reads h p ts \<Longrightarrow> reads h p us \<Longrightarrow> us = ts"
proof (induction arbitrary: us rule: reads.induct)
  case (reads_Some a n cs ts)
  from reads_Some.prems reads_Some.hyps(1) obtain cs' ts' where
      "us = CNode (nd_value n) (nd_string n) cs' # ts'" "reads h (nd_child n) cs'" "reads h (nd_next n) ts'"
    by (auto simp: reads_Some_iff)
  with reads_Some.IH show ?case by simp
qed simp

lemma tree_at_unique: "tree_at h a t \<Longrightarrow> tree_at h a u \<Longrightarrow> u = t"
  by (auto simp: tree_at_def dest: reads_unique)

text \<open>The longest path along \<open>child\<close> and \<open>next\<close>. It visits no node twice, so that the fuel is enough.\<close>

fun reach :: "ctree list \<Rightarrow> nat" where
  "reach [] = 0"
| "reach (CNode v k cs # ts) = Suc (max (reach cs) (reach ts))"

lemma reach_children: "t \<in> set ts \<Longrightarrow> reach (tree_children t) < reach ts"
  by (induction ts rule: reach.induct) auto

lemma reach_length: "length ts \<le> reach ts"
  by (induction ts rule: reach.induct) auto

lemma reads_levels:
  "reads h p ts \<Longrightarrow> k < reach ts \<Longrightarrow> \<exists>b us. ch_node h b \<noteq> None \<and> reads h (Some b) us \<and> reach us = Suc k"
proof (induction rule: reads.induct)
  case (reads_Some a n cs ts)
  show ?case
  proof (cases "k = max (reach cs) (reach ts)")
    case True
    with reads.reads_Some[OF reads_Some.hyps] reads_Some.hyps(1) show ?thesis by fastforce
  next
    case False
    with reads_Some.prems have "k < reach cs \<or> k < reach ts" by auto
    with reads_Some.IH show ?thesis by blast
  qed
qed simp

lemma reach_limit:
  assumes "reads h p ts" and "heap_ok h"
  shows "reach ts \<le> ch_limit h"
proof -
  have "\<forall>k. \<exists>b. k < reach ts \<longrightarrow> ch_node h b \<noteq> None \<and> (\<exists>us. reads h (Some b) us \<and> reach us = Suc k)"
    using reads_levels[OF assms(1)] by blast
  then obtain f where f: "\<And>k. k < reach ts \<Longrightarrow> ch_node h (f k) \<noteq> None \<and> (\<exists>us. reads h (Some (f k)) us \<and> reach us = Suc k)"
    by metis
  have "inj_on f {..<reach ts}"
  proof (rule inj_onI)
    fix j k
    assume "j \<in> {..<reach ts}" "k \<in> {..<reach ts}" and e: "f j = f k"
    then obtain us vs where "reads h (Some (f k)) us" "reach us = Suc j" "reads h (Some (f k)) vs" "reach vs = Suc k"
      using f[of j] f[of k] by auto
    then show "j = k" using reads_unique by force
  qed
  moreover have "f ` {..<reach ts} \<subseteq> {..<ch_limit h}"
    using f assms(2) by (auto simp: heap_ok_def)
  ultimately show ?thesis using card_inj_on_le[of f "{..<reach ts}" "{..<ch_limit h}"] by simp
qed

lemma reads_mono:
  "reads h p ts \<Longrightarrow> (\<And>x. ch_node h x \<noteq> None \<Longrightarrow> ch_node h' x = ch_node h x) \<Longrightarrow> reads h' p ts"
proof (induction rule: reads.induct)
  case (reads_Some a n cs ts)
  then show ?case by (intro reads.reads_Some) auto
qed (simp add: reads.reads_None)

section \<open>Lemmas: owning a tree\<close>

text \<open>A chain that spells out trees in nodes of its own: nothing is shared and no reference has children.\<close>

inductive chain :: "cheap \<Rightarrow> cptr \<Rightarrow> ctree list \<Rightarrow> caddr set \<Rightarrow> bool" for h where
  chain_None: "chain h None [] {}"
| chain_Some: "ch_node h a = Some n \<Longrightarrow> nd_ref n \<longrightarrow> nd_child n = None \<Longrightarrow> chain h (nd_child n) cs C \<Longrightarrow>
    chain h (nd_next n) ts N \<Longrightarrow> a \<notin> C \<Longrightarrow> a \<notin> N \<Longrightarrow> C \<inter> N = {} \<Longrightarrow>
    chain h (Some a) (CNode (nd_value n) (nd_string n) cs # ts) (insert a (C \<union> N))"

lemma chain_reads: "chain h p ts S \<Longrightarrow> reads h p ts"
  by (induction rule: chain.induct) (auto intro: reads.intros)

lemma chain_owns: "chain h p ts S \<Longrightarrow> owns h p S"
proof (induction rule: chain.induct)
  case (chain_Some a n cs C ts N)
  then have "owned_child n = nd_child n" by (auto simp: owned_child_def)
  with chain_Some show ?case by (intro owns.owns_Some) auto
qed (rule owns.owns_None)

lemma chain_other: "chain h p ts S \<Longrightarrow> (\<And>x. x \<in> S \<Longrightarrow> ch_node h' x = ch_node h x) \<Longrightarrow> chain h' p ts S"
proof (induction rule: chain.induct)
  case (chain_Some a n cs C ts N)
  then show ?case by (intro chain.chain_Some) auto
qed (rule chain.chain_None)

definition whole :: "cheap \<Rightarrow> caddr \<Rightarrow> ctree \<Rightarrow> caddr set \<Rightarrow> bool" where
  "whole h a t S \<longleftrightarrow>
     (\<exists>n cs C. ch_node h a = Some n \<and> (nd_ref n \<longrightarrow> nd_child n = None) \<and> chain h (nd_child n) cs C \<and> a \<notin> C \<and>
        t = CNode (nd_value n) (nd_string n) cs \<and> S = insert a C)"

lemma whole_tree: "whole h a t S \<Longrightarrow> tree_at h a t"
  by (auto simp: whole_def tree_at_def dest: chain_reads)

lemma whole_mem: "whole h a t S \<Longrightarrow> a \<in> S"
  by (auto simp: whole_def)

lemma chain_whole:
  "whole h a t A \<Longrightarrow> ch_node h a = Some n \<Longrightarrow> chain h (nd_next n) ts B \<Longrightarrow> A \<inter> B = {} \<Longrightarrow> chain h (Some a) (t # ts) (A \<union> B)"
  unfolding whole_def by (auto intro!: chain.chain_Some)

lemma whole_owns:
  assumes "whole h a t S" and "detached h a"
  shows "owns h (Some a) S"
proof -
  obtain n where n: "ch_node h a = Some n" "nd_next n = None" using assms(2) by (auto simp: detached_def)
  with chain_whole[OF assms(1) n(1), of "[]" "{}"] show ?thesis by (auto simp: chain.chain_None dest: chain_owns)
qed

lemma whole_nodes: "whole h a t S \<Longrightarrow> x \<in> S \<Longrightarrow> ch_node h x \<noteq> None"
  unfolding whole_def using owns_nodes[OF chain_owns] by auto

text \<open>Only the links of the root may change.\<close>

lemma whole_relink:
  assumes "whole h a t S" and "\<And>x. x \<in> S \<Longrightarrow> x \<noteq> a \<Longrightarrow> ch_node h' x = ch_node h x"
    and "ch_node h' a = map_option (\<lambda>n. n\<lparr>nd_next := nxt n, nd_prev := prv n\<rparr>) (ch_node h a)"
  shows "whole h' a t S"
proof -
  obtain n cs C where n: "ch_node h a = Some n" "nd_ref n \<longrightarrow> nd_child n = None" "chain h (nd_child n) cs C" "a \<notin> C"
      "t = CNode (nd_value n) (nd_string n) cs" "S = insert a C"
    using assms(1) by (auto simp: whole_def)
  have "chain h' (nd_child n) cs C" using n(4,6) assms(2) by (intro chain_other[OF n(3)]) auto
  with n assms(3) show ?thesis unfolding whole_def by (intro exI[of _ "n\<lparr>nd_next := nxt n, nd_prev := prv n\<rparr>"]) auto
qed

lemma whole_other:
  assumes "whole h a t S" and "\<And>x. x \<in> S \<Longrightarrow> ch_node h' x = ch_node h x"
  shows "whole h' a t S"
  using assms(2) whole_mem[OF assms(1)] by (intro whole_relink[OF assms(1), where nxt = nd_next and prv = nd_prev])
    (simp_all add: option.map_ident)

text \<open>The trees of the elements of a list.\<close>

primrec forest :: "cheap \<Rightarrow> caddr list \<Rightarrow> ctree list \<Rightarrow> caddr set \<Rightarrow> bool" where
  "forest h [] ts S \<longleftrightarrow> ts = [] \<and> S = {}"
| "forest h (a # xs) ts S \<longleftrightarrow>
     (\<exists>t us A B. ts = t # us \<and> S = A \<union> B \<and> whole h a t A \<and> forest h xs us B \<and> A \<inter> B = {})"

lemma forest_subset: "forest h xs ts S \<Longrightarrow> set xs \<subseteq> S"
  by (induction xs arbitrary: ts S) (auto dest: whole_mem)

lemma forest_distinct: "forest h xs ts S \<Longrightarrow> distinct xs"
  by (induction xs arbitrary: ts S) (fastforce dest: whole_mem forest_subset)+

lemma forest_nodes: "forest h xs ts S \<Longrightarrow> x \<in> S \<Longrightarrow> ch_node h x \<noteq> None"
  by (induction xs arbitrary: ts S) (auto dest: whole_nodes)

lemma forest_append:
  "forest h xs ts S \<Longrightarrow> whole h a t A \<Longrightarrow> S \<inter> A = {} \<Longrightarrow> forest h (xs @ [a]) (ts @ [t]) (S \<union> A)"
proof (induction xs arbitrary: ts S)
  case (Cons x xs)
  then obtain u us B C where c: "ts = u # us" "S = B \<union> C" "whole h x u B" "forest h xs us C" "B \<inter> C = {}" by auto
  with Cons.IH[of us C] Cons.prems(2,3) have "forest h (xs @ [a]) (us @ [t]) (C \<union> A)" by auto
  moreover have "S \<union> A = B \<union> (C \<union> A)" "B \<inter> (C \<union> A) = {}" using c(2,5) Cons.prems(3) by auto
  ultimately show ?case using c(1,3) by auto
qed (auto intro!: exI[of _ A])

lemma forest_relink:
  assumes "forest h xs ts S" and "\<And>x. x \<in> S \<Longrightarrow> x \<notin> set xs \<Longrightarrow> ch_node h' x = ch_node h x"
    and "\<And>x. x \<in> set xs \<Longrightarrow> ch_node h' x = map_option (\<lambda>n. n\<lparr>nd_next := nxt x n, nd_prev := prv x n\<rparr>) (ch_node h x)"
  shows "forest h' xs ts S"
  using assms
proof (induction xs arbitrary: ts S)
  case (Cons x xs)
  then obtain u us B C where c: "ts = u # us" "S = B \<union> C" "whole h x u B" "forest h xs us C" "B \<inter> C = {}" by auto
  have "set xs \<subseteq> C" "x \<in> B" using c(3,4) by (auto dest: whole_mem forest_subset)
  with c(5) have d: "B \<inter> set xs = {}" "x \<notin> C" by auto
  have "whole h' x u B"
    using d c(2) Cons.prems(2,3) by (intro whole_relink[OF c(3), where nxt = "nxt x" and prv = "prv x"]) auto
  moreover have "forest h' xs us C"
    using d c(2) Cons.prems(2,3) by (intro Cons.IH[OF c(4)]) auto
  ultimately show ?case using c by auto
qed simp

lemma forest_other:
  assumes "forest h xs ts S" and "\<And>x. x \<in> S \<Longrightarrow> ch_node h' x = ch_node h x"
  shows "forest h' xs ts S"
  using assms(2) forest_subset[OF assms(1)]
  by (intro forest_relink[OF assms(1), where nxt = "\<lambda>_. nd_next" and prv = "\<lambda>_. nd_prev"])
    (auto simp: option.map_ident)

lemma forest_chain: "dseg h prv p xs None \<Longrightarrow> forest h xs ts S \<Longrightarrow> chain h p ts S"
proof (induction xs arbitrary: prv p ts S)
  case (Cons x xs)
  then obtain n u us B C where c: "p = Some x" "ch_node h x = Some n" "dseg h (Some x) (nd_next n) xs None"
      "ts = u # us" "S = B \<union> C" "whole h x u B" "forest h xs us C" "B \<inter> C = {}" by auto
  with Cons.IH show ?case by (auto intro!: chain_whole)
qed (auto intro: chain.chain_None)

section \<open>Lemmas: copies\<close>

text \<open>Nothing but new nodes: the set \<open>S\<close> of addresses beyond the limit of before.\<close>

definition grown :: "caddr set \<Rightarrow> cheap \<Rightarrow> cheap \<Rightarrow> bool" where
  "grown S h h' \<longleftrightarrow> (\<forall>x. x \<notin> S \<longrightarrow> ch_node h' x = ch_node h x) \<and> (\<forall>x\<in>S. ch_limit h \<le> x \<and> ch_node h' x \<noteq> None) \<and>
     ch_limit h \<le> ch_limit h' \<and> heap_ok h'"

lemma grown_refl: "heap_ok h \<Longrightarrow> grown {} h h"
  by (simp add: grown_def)

lemma grown_trans: "grown S h h1 \<Longrightarrow> grown T h1 h2 \<Longrightarrow> grown (S \<union> T) h h2"
  unfolding grown_def heap_ok_def by (metis Un_iff le_trans)

lemma grown_old: "grown S h h' \<Longrightarrow> heap_ok h \<Longrightarrow> ch_node h x \<noteq> None \<Longrightarrow> ch_node h' x = ch_node h x \<and> x \<notin> S"
  unfolding grown_def heap_ok_def by (meson leD)

lemma grown_without: "grown S h h' \<Longrightarrow> heap_ok h \<Longrightarrow> grown {} h (without S h')"
  unfolding grown_def heap_ok_def by auto (metis leD not_None_eq)

lemma grown_put: "grown S h h' \<Longrightarrow> a \<in> S \<Longrightarrow> grown S h (put_cnode a (Some n) h')"
  unfolding grown_def heap_ok_def by auto

lemma grown_reads: "grown S h h' \<Longrightarrow> heap_ok h \<Longrightarrow> reads h p ts \<Longrightarrow> reads h' p ts"
  using reads_mono grown_old by metis

lemma grown_tree: "grown S h h' \<Longrightarrow> heap_ok h \<Longrightarrow> tree_at h a t \<Longrightarrow> tree_at h' a t"
  unfolding tree_at_def using grown_reads grown_old by (metis option.distinct(1))

lemma settles_load: "ch_node h a = Some n \<Longrightarrow> settles b (f n) Q \<Longrightarrow> settles b (cbind (load h a) f) Q"
  by (simp add: settles_def load_ok)

lemma settles_store:
  "ch_node h a = Some n \<Longrightarrow> settles b (f (put_cnode a (Some (g n)) h)) Q \<Longrightarrow> settles b (cbind (store_node g a h) f) Q"
  by (simp add: settles_def store_ok)

lemma settles_store_last:
  "ch_node h a = Some n \<Longrightarrow> Q (put_cnode a (Some (g n)) h) \<Longrightarrow> settles b (store_node g a h) Q"
  by (simp add: settles_def store_last)

lemma settles_delete:
  "owns h p S \<Longrightarrow> heap_ok h \<Longrightarrow> settles b (f (without S h)) Q \<Longrightarrow> settles b (cbind (cJSON_Delete p h) f) Q"
  by (simp add: settles_def cbind_def[of "cJSON_Delete p h"] cJSON_Delete_ok)

definition blank_node :: cnode where
  "blank_node = \<lparr>nd_next = None, nd_prev = None, nd_child = None, nd_value = CjInvalid, nd_string = None,
     nd_ref = False, nd_const = False\<rparr>"

lemma new_item_ok:
  assumes "heap_ok h"
    and "\<not> b \<Longrightarrow> settles b (f None) Q"
    and "\<And>a h1. a = ch_limit h \<Longrightarrow> grown {a} h h1 \<Longrightarrow> ch_node h1 a = Some blank_node \<Longrightarrow> settles b (f (Some (a, h1))) Q"
  shows "settles b (cbind (ctry (cJSON_New_Item h)) f) Q"
proof (rule settles_cbind)
  let ?h1 = "(put_cnode (ch_limit h) (Some blank_node) h)\<lparr>ch_limit := Suc (ch_limit h)\<rparr>"
  have "ctry (cJSON_New_Item h) m =
      (case LDAlloc m of (Val _, m') \<Rightarrow> (Val (Some (ch_limit h, ?h1)), m') | (Null, m') \<Rightarrow> (Val None, m') | (Fault e, m') \<Rightarrow> (Fault e, m'))" for m
    by (simp add: cJSON_New_Item_def ctry_def cbind_def cret_def blank_node_def split: result.splits prod.splits)
  then show "settles b (ctry (cJSON_New_Item h)) (\<lambda>r. r = None \<and> \<not> b \<or> r = Some (ch_limit h, ?h1))"
    unfolding settles_def
    by (metis (mono_tags, lifting) LDAlloc.simps(1) LDAlloc_split old.prod.case result.case(1,2))
  have "grown {ch_limit h} h ?h1"
    using assms(1) by (auto simp: grown_def heap_ok_def put_cnode_def less_Suc_eq)
  moreover have "ch_node ?h1 (ch_limit h) = Some blank_node" by (simp add: put_cnode_def)
  ultimately show "settles b (f r) Q" if "r = None \<and> \<not> b \<or> r = Some (ch_limit h, ?h1)" for r
    using that assms(2,3) by blast
qed

text \<open>A node that owns its children, with the list of their addresses.\<close>

definition holds_tree :: "cheap \<Rightarrow> caddr \<Rightarrow> cj_value \<Rightarrow> cstring \<Rightarrow> caddr list \<Rightarrow> ctree list \<Rightarrow> caddr set \<Rightarrow> bool" where
  "holds_tree h a v k xs ts S \<longleftrightarrow>
     (\<exists>n. ch_node h a = Some n \<and> nd_value n = v \<and> nd_string n = k \<and> \<not> nd_ref n \<and> dseg h None (nd_child n) xs None) \<and>
     forest h xs ts S \<and> a \<notin> S \<and> heap_ok h"

lemma holds_whole: "holds_tree h a v k xs ts S \<Longrightarrow> whole h a (CNode v k ts) (insert a S)"
  unfolding holds_tree_def whole_def by (auto dest: forest_chain)

lemma holds_nodes: "holds_tree h a v k xs ts S \<Longrightarrow> x \<in> insert a S \<Longrightarrow> ch_node h x \<noteq> None"
  unfolding holds_tree_def using forest_nodes by auto

lemma holds_other:
  assumes "holds_tree h a v k xs ts S" and "\<And>x. x \<in> insert a S \<Longrightarrow> ch_node h' x = ch_node h x" and "heap_ok h'"
  shows "holds_tree h' a v k xs ts S"
proof -
  obtain n where n: "ch_node h a = Some n" "nd_value n = v" "nd_string n = k" "\<not> nd_ref n" "dseg h None (nd_child n) xs None"
      "forest h xs ts S" "a \<notin> S"
    using assms(1) by (auto simp: holds_tree_def)
  have "dseg h' None (nd_child n) xs None"
    using assms(2) forest_subset[OF n(6)] by (intro dseg_cong[OF _ n(5)]) auto
  moreover have "forest h' xs ts S" using assms(2) by (intro forest_other[OF n(6)]) auto
  ultimately show ?thesis using n assms(2,3) by (auto simp: holds_tree_def)
qed

text \<open>Linking a tree of its own to the node.\<close>

lemma link_tree:
  assumes "holds_tree h a v k xs ts S" and "whole h c t T" and "detached h c" and "insert a S \<inter> T = {}"
  shows "settles b (link_child a (end_of None xs) c h) (\<lambda>h'.
    holds_tree h' a v k (xs @ [c]) (ts @ [t]) (S \<union> T) \<and> same_outside (insert a (S \<union> T)) h h' \<and>
    (detached h a \<longrightarrow> detached h' a))"
proof -
  obtain n where n: "ch_node h a = Some n" "nd_value n = v" "nd_string n = k" "\<not> nd_ref n"
      "dseg h None (nd_child n) xs None" "forest h xs ts S" "a \<notin> S" "heap_ok h"
    using assms(1) by (auto simp: holds_tree_def)
  obtain cn where cn: "ch_node h c = Some cn" "nd_next cn = None" "nd_prev cn = None" using assms(3) by (auto simp: detached_def)
  have c: "c \<in> T" "c \<noteq> a" "c \<notin> S" using whole_mem[OF assms(2)] assms(4) by auto
  have sub: "set xs \<subseteq> S" "distinct xs" using n(6) forest_subset forest_distinct by auto
  show ?thesis
  proof (cases xs rule: rev_cases)
    case Nil
    let ?h2 = "put_cnode a (Some (n\<lparr>nd_child := Some c\<rparr>)) h"
    have e: "ts = []" "S = {}" using n(6) Nil by auto
    have "whole ?h2 c t T" using assms(4) by (intro whole_other[OF assms(2)]) auto
    then have "holds_tree ?h2 a v k [c] [t] T"
      unfolding holds_tree_def using n cn c assms(4) by (auto simp: heap_ok_def)
    moreover have "same_outside (insert a T) h ?h2" "detached h a \<longrightarrow> detached ?h2 a"
      using n(1) by (auto simp: same_outside_def detached_def)
    ultimately show ?thesis using n(1) Nil e by (auto simp: link_child_def intro!: settles_store_last)
  next
    case (snoc ys q)
    have q: "q \<in> S" "q \<noteq> a" "q \<noteq> c" "q \<notin> set ys" "q \<notin> T" using sub snoc n(7) assms(4) c by auto
    obtain qn where qn: "ch_node h q = Some qn" using forest_nodes[OF n(6) q(1)] by auto
    let ?h2 = "put_cnode c (Some (cn\<lparr>nd_prev := Some q\<rparr>)) (put_cnode q (Some (qn\<lparr>nd_next := Some c\<rparr>)) h)"
    have "dseg h None (nd_child n) (ys @ [q]) None" using n(5) snoc by simp
    then have d: "dseg h None (nd_child n) ys (Some q)" "nd_prev qn = end_of None ys" using qn by auto
    have "dseg ?h2 None (nd_child n) ys (Some q)"
      using d(1) q c sub snoc by (intro dseg_other) auto
    then have seg: "dseg ?h2 None (nd_child n) (xs @ [c]) None" using snoc d(2) q cn by simp
    have "whole ?h2 c t T"
      using cn q by (intro whole_relink[OF assms(2), where nxt = nd_next and prv = "\<lambda>_. Some q"]) auto
    moreover have "forest ?h2 xs ts S"
      using qn q c sub(1) snoc
      by (intro forest_relink[OF n(6), where nxt = "\<lambda>x n. if x = q then Some c else nd_next n" and prv = "\<lambda>_. nd_prev"])
        (auto simp: option.map_ident)
    ultimately have "forest ?h2 (xs @ [c]) (ts @ [t]) (S \<union> T)"
      using assms(4) by (auto intro: forest_append)
    then have "holds_tree ?h2 a v k (xs @ [c]) (ts @ [t]) (S \<union> T)"
      unfolding holds_tree_def using n seg q c assms(4) cn qn by (auto simp: heap_ok_def)
    moreover have "same_outside (insert a (S \<union> T)) h ?h2" "detached h a \<longrightarrow> detached ?h2 a"
      using n(1) q c cn qn by (auto simp: same_outside_def detached_def)
    ultimately show ?thesis
      using qn cn(1) q(3) snoc
      by (auto simp: link_child_def suffix_object_def intro!: settles_store settles_store_last)
  qed
qed

text \<open>A tree under construction: the new node with the trees it has so far.\<close>

definition building :: "cheap \<Rightarrow> cj_value \<Rightarrow> cstring \<Rightarrow> caddr \<Rightarrow> caddr list \<Rightarrow> ctree list \<Rightarrow> cheap \<Rightarrow> bool" where
  "building h0 v k a xs ts h \<longleftrightarrow>
     detached h a \<and> (\<exists>S. holds_tree h a v k xs ts S \<and> grown (insert a S) h0 h)"

text \<open>What a copy of the tree \<open>t\<close> leaves behind.\<close>

definition copied :: "bool \<Rightarrow> cheap \<Rightarrow> ctree \<Rightarrow> cptr \<times> cheap \<Rightarrow> bool" where
  "copied b h t r \<longleftrightarrow>
     (case r of
        (None, h') \<Rightarrow> \<not> b \<and> grown {} h h'
      | (Some c, h') \<Rightarrow> \<exists>S. grown S h h' \<and> whole h' c t S \<and> detached h' c)"

lemma building_copied: "building h0 v k a xs ts h \<Longrightarrow> copied b h0 (CNode v k ts) (Some a, h)"
  unfolding building_def copied_def by (auto dest: holds_whole)

lemma building_delete:
  assumes "building h0 v k a xs ts h" and "heap_ok h0" and "\<not> b"
  shows "settles b (cbind (cJSON_Delete (Some a) h) (\<lambda>h. cret (None, h)))
    (\<lambda>(p, h'). p = None \<and> \<not> b \<and> grown {} h0 h')"
proof -
  obtain S where S: "holds_tree h a v k xs ts S" "grown (insert a S) h0 h" "detached h a"
    using assms(1) by (auto simp: building_def)
  have "owns h (Some a) (insert a S)" by (rule whole_owns[OF holds_whole[OF S(1)] S(3)])
  moreover have "heap_ok h" using S(1) by (simp add: holds_tree_def)
  ultimately show ?thesis
    using grown_without[OF S(2) assms(2)] assms(3) by (intro settles_delete) simp_all
qed

lemma building_frame:
  assumes "building h0 v k a xs ts h" and "grown T h h1"
  shows "detached h1 a \<and> (\<exists>S. holds_tree h1 a v k xs ts S \<and> insert a S \<inter> T = {} \<and> grown (insert a S \<union> T) h0 h1)"
proof -
  obtain S where S: "holds_tree h a v k xs ts S" "grown (insert a S) h0 h" "detached h a"
    using assms(1) by (auto simp: building_def)
  have ok: "heap_ok h" "heap_ok h1" using S(2) assms(2) by (simp_all add: grown_def)
  have old: "ch_node h1 x = ch_node h x \<and> x \<notin> T" if "x \<in> insert a S" for x
    by (rule grown_old[OF assms(2) ok(1) holds_nodes[OF S(1) that]])
  have "holds_tree h1 a v k xs ts S" using old ok by (intro holds_other[OF S(1)]) auto
  moreover have "insert a S \<inter> T = {}" "detached h1 a" using old S(3) by (auto simp: detached_def)
  ultimately show ?thesis using grown_trans[OF S(2) assms(2)] by blast
qed

lemma grown_outside:
  "grown S h0 h \<Longrightarrow> same_outside S h h' \<Longrightarrow> heap_ok h' \<Longrightarrow> (\<And>x. x \<in> S \<Longrightarrow> ch_node h' x \<noteq> None) \<Longrightarrow> grown S h0 h'"
  unfolding grown_def same_outside_def by auto

lemma link_child_ok:
  assumes "building h0 v k a xs ts h" and "grown T h h1" and "whole h1 c t T" and "detached h1 c"
  shows "settles b (link_child a (end_of None xs) c h1) (building h0 v k a (xs @ [c]) (ts @ [t]))"
proof -
  obtain S where S: "detached h1 a" "holds_tree h1 a v k xs ts S" "insert a S \<inter> T = {}" "grown (insert a S \<union> T) h0 h1"
    using building_frame[OF assms(1,2)] by blast
  show ?thesis
  proof (rule settles_mono[OF link_tree[OF S(2) assms(3,4) S(3)]])
    fix h'
    assume h': "holds_tree h' a v k (xs @ [c]) (ts @ [t]) (S \<union> T) \<and> same_outside (insert a (S \<union> T)) h1 h' \<and>
      (detached h1 a \<longrightarrow> detached h' a)"
    then have "heap_ok h'" by (simp add: holds_tree_def)
    moreover have "ch_node h' x \<noteq> None" if "x \<in> insert a (S \<union> T)" for x using h' holds_nodes that by blast
    ultimately have "grown (insert a (S \<union> T)) h0 h'"
      using S(4) h' by (intro grown_outside[of _ h0 h1 h']) simp_all
    then show "building h0 v k a (xs @ [c]) (ts @ [t]) h'" using S(1) h' unfolding building_def by blast
  qed
qed

lemma strdup_ok: "settles b (cbind (cJSON_strdup (Some s)) (\<lambda>copy. cret (copy \<noteq> None))) (\<lambda>ok. b \<longrightarrow> ok)"
  unfolding cJSON_strdup_def by (rule settles_cbind) (auto intro!: settles_mono[OF settles_ctry_dup])

lemma strdup_unless_ok:
  "(\<not> x \<Longrightarrow> s \<noteq> None) \<Longrightarrow>
   settles b (if x then cret True else cbind (cJSON_strdup s) (\<lambda>copy. cret (copy \<noteq> None))) (\<lambda>ok. b \<longrightarrow> ok)"
  using strdup_ok by (cases s) auto

lemma copy_node_ok:
  assumes "heap_ok h" and "ch_node h i = Some n"
  shows "settles b (copy_node i h) (\<lambda>(p, h').
    case p of None \<Rightarrow> \<not> b \<and> grown {} h h' | Some a \<Rightarrow> building h (nd_value n) (nd_string n) a [] [] h')" (is "settles b _ ?Q")
  unfolding copy_node_def
proof (rule new_item_ok[OF assms(1)])
  fix a h1
  assume a: "a = ch_limit h" "grown {a} h h1" "ch_node h1 a = Some blank_node"
  have i: "ch_node h1 i = Some n" using grown_old[OF a(2) assms(1), of i] assms(2) by simp
  let ?f = "\<lambda>ok x. x\<lparr>nd_value := nd_value n, nd_string := (if ok then nd_string n else None), nd_const := nd_const n\<rparr>"
  have b: "building h (nd_value n) (if ok then nd_string n else None) a [] [] (put_cnode a (Some (?f ok blank_node)) h1)" for ok
    using grown_put[OF a(2), of a] by (auto simp: building_def holds_tree_def detached_def blank_node_def grown_def)
  have fin: "settles b (cbind (store_node (?f ok) a h1) (\<lambda>h.
      if ok then cret (Some a, h) else cbind (cJSON_Delete (Some a) h) (\<lambda>h. cret (None, h)))) ?Q"
    if "b \<longrightarrow> ok" for ok
  proof (cases ok)
    case True
    with b[of True] a(3) show ?thesis by (auto intro: settles_store)
  next
    case False
    with that building_delete[OF b assms(1), of b ok] a(3) show ?thesis
      by (auto intro!: settles_store elim!: settles_mono)
  qed
  show "settles b (case Some (a, h1) of None \<Rightarrow> cret (None, h)
     | Some (newitem, h) \<Rightarrow>
           cbind (load h i) (\<lambda>n.
           cbind (if value_string (nd_value n) = None then cret True
             else cbind (cJSON_strdup (value_string (nd_value n))) (\<lambda>copy. cret (copy \<noteq> None))) (\<lambda>ok.
           cbind (if \<not> ok then cret False
             else if nd_string n = None \<or> nd_const n then cret True
             else cbind (cJSON_strdup (nd_string n)) (\<lambda>copy. cret (copy \<noteq> None))) (\<lambda>ok.
           cbind (store_node (\<lambda>x. x\<lparr>nd_value := nd_value n, nd_string := (if ok then nd_string n else None),
               nd_const := nd_const n\<rparr>) newitem h) (\<lambda>h.
             if ok then cret (Some newitem, h)
             else cbind (cJSON_Delete (Some newitem) h) (\<lambda>h. cret (None, h))))))) ?Q"
    unfolding option.case prod.case
  proof (rule settles_load[OF i], rule settles_cbind[OF strdup_unless_ok], assumption)
    fix ok
    assume "b \<longrightarrow> ok"
    then have "settles b (if \<not> ok then cret False else if nd_string n = None \<or> nd_const n then cret True
        else cbind (cJSON_strdup (nd_string n)) (\<lambda>copy. cret (copy \<noteq> None))) (\<lambda>ok. b \<longrightarrow> ok)"
      using strdup_unless_ok[of "nd_string n = None \<or> nd_const n" "nd_string n" b] by auto
    then show "settles b (cbind (if \<not> ok then cret False else if nd_string n = None \<or> nd_const n then cret True
        else cbind (cJSON_strdup (nd_string n)) (\<lambda>copy. cret (copy \<noteq> None)))
        (\<lambda>ok. cbind (store_node (?f ok) a h1) (\<lambda>h.
          if ok then cret (Some a, h) else cbind (cJSON_Delete (Some a) h) (\<lambda>h. cret (None, h))))) ?Q"
      by (rule settles_cbind) (rule fin)
  qed
qed (simp add: grown_refl assms(1))

lemma copy_children_ok:
  assumes "heap_ok h0" and "reads h0 child us" and "length us < fuel"
    and copy: "\<And>u h c. u \<in> set us \<Longrightarrow> heap_ok h \<Longrightarrow> tree_at h c u \<Longrightarrow> settles b (copy c h) (copied b h u)"
    and "building h0 v k a xs ts h"
  shows "settles b (copy_children fuel copy a (end_of None xs) child h)
    (\<lambda>(ok, h'). (\<exists>xs' ts'. building h0 v k a xs' ts' h' \<and> (ok \<longrightarrow> ts' = ts @ us)) \<and> (b \<longrightarrow> ok))"
  using assms(2-)
proof (induction fuel arbitrary: child us xs ts h)
  case (Suc fuel)
  show ?case
  proof (cases child)
    case None
    with Suc.prems show ?thesis by auto
  next
    case (Some c)
    with Suc.prems(1) obtain n u vs where u: "ch_node h0 c = Some n" "us = u # vs" "tree_at h0 c u" "reads h0 (nd_next n) vs"
      by (auto simp: reads_Some_tree)
    obtain S where g: "grown S h0 h" using Suc.prems(4) unfolding building_def by blast
    then have ok: "heap_ok h" by (simp add: grown_def)
    have "settles b (cbind (copy c h) (\<lambda>(newchild, h).
            case newchild of
              None \<Rightarrow> cret (False, h)
            | Some d \<Rightarrow>
                cbind (link_child a (end_of None xs) d h) (\<lambda>h.
                cbind (load h c) (\<lambda>n. copy_children fuel copy a (Some d) (nd_next n) h))))
        (\<lambda>(ok, h'). (\<exists>xs' ts'. building h0 v k a xs' ts' h' \<and> (ok \<longrightarrow> ts' = ts @ us)) \<and> (b \<longrightarrow> ok))"
    proof (rule settles_cbind[OF Suc.prems(3)[of u]])
      fix r
      assume r: "copied b h u r"
      obtain p h1 where r1: "r = (p, h1)" by fastforce
      show "settles b (case r of (newchild, h) \<Rightarrow> case newchild of
              None \<Rightarrow> cret (False, h)
            | Some d \<Rightarrow>
                cbind (link_child a (end_of None xs) d h) (\<lambda>h.
                cbind (load h c) (\<lambda>n. copy_children fuel copy a (Some d) (nd_next n) h)))
          (\<lambda>(ok, h'). (\<exists>xs' ts'. building h0 v k a xs' ts' h' \<and> (ok \<longrightarrow> ts' = ts @ us)) \<and> (b \<longrightarrow> ok))"
      proof (cases p)
        case None
        with r r1 have f: "\<not> b" "grown {} h h1" by (auto simp: copied_def)
        from building_frame[OF Suc.prems(4) f(2)] have "building h0 v k a xs ts h1"
          unfolding building_def by auto
        with f r1 None show ?thesis by auto
      next
        case (Some d)
        with r r1 obtain T where T: "grown T h h1" "whole h1 d u T" "detached h1 d" by (auto simp: copied_def)
        have "settles b (cbind (link_child a (end_of None xs) d h1) (\<lambda>h.
              cbind (load h c) (\<lambda>n. copy_children fuel copy a (Some d) (nd_next n) h)))
            (\<lambda>(ok, h'). (\<exists>xs' ts'. building h0 v k a xs' ts' h' \<and> (ok \<longrightarrow> ts' = ts @ us)) \<and> (b \<longrightarrow> ok))"
        proof (rule settles_cbind[OF link_child_ok[OF Suc.prems(4) T]])
          fix h2
          assume b2: "building h0 v k a (xs @ [d]) (ts @ [u]) h2"
          obtain S2 where "grown S2 h0 h2" using b2 by (auto simp: building_def)
          with grown_old[OF this assms(1), of c] u(1) have c2: "ch_node h2 c = Some n" by simp
          have "settles b (copy_children fuel copy a (end_of None (xs @ [d])) (nd_next n) h2)
              (\<lambda>(ok, h'). (\<exists>xs' ts'. building h0 v k a xs' ts' h' \<and> (ok \<longrightarrow> ts' = (ts @ [u]) @ vs)) \<and> (b \<longrightarrow> ok))"
            using Suc.prems(2,3) u(2) by (intro Suc.IH[OF u(4) _ _ b2]) auto
          with c2 u(2) show "settles b (cbind (load h2 c) (\<lambda>n. copy_children fuel copy a (Some d) (nd_next n) h2))
              (\<lambda>(ok, h'). (\<exists>xs' ts'. building h0 v k a xs' ts' h' \<and> (ok \<longrightarrow> ts' = ts @ us)) \<and> (b \<longrightarrow> ok))"
            by (intro settles_load[OF c2]) simp
        qed
        with r1 Some show ?thesis by simp
      qed
    qed (use u ok grown_tree[OF g assms(1)] in auto)
    with Some show ?thesis by simp
  qed
qed simp

lemma duplicate_ok:
  "heap_ok h \<Longrightarrow> tree_at h i t \<Longrightarrow> reach (tree_children t) < fuel \<Longrightarrow> settles b (duplicate fuel True i h) (copied b h t)"
proof (induction fuel arbitrary: h i t)
  case (Suc fuel)
  from Suc.prems(2) obtain n cs where n: "ch_node h i = Some n" "reads h (nd_child n) cs" "t = CNode (nd_value n) (nd_string n) cs"
    by (auto simp: tree_at_def)
  show ?case
    unfolding duplicate.simps
  proof (rule settles_cbind[OF copy_node_ok[OF Suc.prems(1) n(1)]], clarify)
    fix p h1
    assume r: "case p of None \<Rightarrow> \<not> b \<and> grown {} h h1 | Some a \<Rightarrow> building h (nd_value n) (nd_string n) a [] [] h1"
    show "settles b (case p of
         None \<Rightarrow> cret (None, h1)
       | Some a \<Rightarrow>
           (if \<not> True then cret (Some a, h1)
            else
              cbind (load h1 i) (\<lambda>n.
              cbind (copy_children (Suc (ch_limit h1)) (duplicate fuel True) a None (nd_child n) h1) (\<lambda>(ok, h).
                if ok then cret (Some a, h)
                else cbind (cJSON_Delete (Some a) h) (\<lambda>h. cret (None, h)))))) (copied b h t)"
    proof (cases p)
      case None
      with r show ?thesis by (simp add: copied_def)
    next
      case (Some a)
      with r have bld: "building h (nd_value n) (nd_string n) a [] [] h1" by simp
      then obtain S where g: "grown S h h1" by (auto simp: building_def)
      have i: "ch_node h1 i = Some n" using grown_old[OF g Suc.prems(1), of i] n(1) by simp
      have len: "length cs < Suc (ch_limit h1)"
        using reach_length[of cs] reach_limit[OF n(2) Suc.prems(1)] g by (simp add: grown_def)
      have "settles b (copy_children (Suc (ch_limit h1)) (duplicate fuel True) a (end_of None []) (nd_child n) h1)
          (\<lambda>(ok, h'). (\<exists>xs' ts'. building h (nd_value n) (nd_string n) a xs' ts' h' \<and> (ok \<longrightarrow> ts' = [] @ cs)) \<and> (b \<longrightarrow> ok))"
      proof (rule copy_children_ok[OF Suc.prems(1) n(2) len _ bld])
        fix u h' c
        assume "u \<in> set cs" "heap_ok h'" "tree_at h' c u"
        moreover from this(1) have "reach (tree_children u) < fuel" using reach_children Suc.prems(3) n(3) by fastforce
        ultimately show "settles b (duplicate fuel True c h') (copied b h' u)" using Suc.IH by blast
      qed
      then have cc: "settles b (copy_children (Suc (ch_limit h1)) (duplicate fuel True) a None (nd_child n) h1)
          (\<lambda>(ok, h'). (\<exists>xs' ts'. building h (nd_value n) (nd_string n) a xs' ts' h' \<and> (ok \<longrightarrow> ts' = cs)) \<and> (b \<longrightarrow> ok))"
        by simp
      have "settles b (cbind (copy_children (Suc (ch_limit h1)) (duplicate fuel True) a None (nd_child n) h1) (\<lambda>(ok, h).
                if ok then cret (Some a, h)
                else cbind (cJSON_Delete (Some a) h) (\<lambda>h. cret (None, h)))) (copied b h t)"
      proof (rule settles_cbind[OF cc], clarify)
        fix ok h' xs' ts'
        assume x: "building h (nd_value n) (nd_string n) a xs' ts' h'" "ok \<longrightarrow> ts' = cs" "b \<longrightarrow> ok"
        show "settles b (if ok then cret (Some a, h') else cbind (cJSON_Delete (Some a) h') (\<lambda>h. cret (None, h))) (copied b h t)"
          using building_copied[OF x(1)] x(2,3) n(3)
          by (auto intro!: settles_mono[OF building_delete[OF x(1) Suc.prems(1)]] simp: copied_def)
      qed
      then show ?thesis using Some i by (auto intro: settles_load)
    qed
  qed
qed simp

lemma cJSON_Duplicate_ok:
  assumes "heap_ok h" and "tree_at h i t"
  shows "settles b (cJSON_Duplicate (Some i) True h) (copied b h t)"
proof -
  have "reach (tree_children t) \<le> ch_limit h" using assms reach_limit by (auto simp: tree_at_def)
  then show ?thesis unfolding cJSON_Duplicate_def using duplicate_ok[OF assms, of "Suc (ch_limit h)" b] by simp
qed

section \<open>Lemmas: construction\<close>

text \<open>A new node without children.\<close>

definition made_node :: "bool \<Rightarrow> cheap \<Rightarrow> cnode \<Rightarrow> cptr \<times> cheap \<Rightarrow> bool" where
  "made_node b h n r \<longleftrightarrow>
     (case r of (None, h') \<Rightarrow> \<not> b \<and> grown {} h h' | (Some a, h') \<Rightarrow> grown {a} h h' \<and> ch_node h' a = Some n)"

lemma made_node_copied:
  "made_node b h n r \<Longrightarrow> nd_child n = None \<Longrightarrow> nd_next n = None \<Longrightarrow> nd_prev n = None \<Longrightarrow>
   copied b h (CNode (nd_value n) (nd_string n) []) r"
  unfolding made_node_def copied_def whole_def detached_def
  by (fastforce split: prod.splits option.splits intro: chain.chain_None)

lemma made_node_building:
  "made_node b h n (Some a, h') \<Longrightarrow> nd_child n = None \<Longrightarrow> nd_next n = None \<Longrightarrow> nd_prev n = None \<Longrightarrow> \<not> nd_ref n \<Longrightarrow>
   building h (nd_value n) (nd_string n) a [] [] h'"
  unfolding made_node_def building_def holds_tree_def detached_def by (auto simp: grown_def)

lemma create_node_ok:
  assumes "heap_ok h"
  shows "settles b (create_node f h) (made_node b h (f blank_node))"
  unfolding create_node_def
proof (rule new_item_ok[OF assms])
  fix a h1
  assume a: "a = ch_limit h" "grown {a} h h1" "ch_node h1 a = Some blank_node"
  have "settles b (cbind (store_node f a h1) (\<lambda>h. cret (Some a, h))) (made_node b h (f blank_node))"
    using grown_put[OF a(2), of a] by (intro settles_store[OF a(3)]) (simp add: made_node_def)
  then show "settles b (case Some (a, h1) of None \<Rightarrow> cret (None, h)
      | Some (item, h) \<Rightarrow> cbind (store_node f item h) (\<lambda>h. cret (Some item, h))) (made_node b h (f blank_node))"
    by simp
qed (simp add: made_node_def grown_refl assms)

lemma create_text_ok:
  assumes "heap_ok h"
  shows "settles b (create_text kind (Some t) h) (made_node b h (blank_node\<lparr>nd_value := kind t\<rparr>))" (is "settles b _ ?Q")
  unfolding create_text_def
proof (rule new_item_ok[OF assms])
  fix a h1
  assume a: "a = ch_limit h" "grown {a} h h1" "ch_node h1 a = Some blank_node"
  have "made_node b h blank_node (Some a, h1)" using a by (simp add: made_node_def)
  from made_node_building[OF this] have bld: "building h CjInvalid None a [] [] h1" by (simp add: blank_node_def)
  have "settles b (case copy of
               None \<Rightarrow> cbind (cJSON_Delete (Some a) h1) (\<lambda>h. cret (None, h))
             | Some t \<Rightarrow> cbind (store_node (\<lambda>n. n\<lparr>nd_value := kind t\<rparr>) a h1) (\<lambda>h. cret (Some a, h))) ?Q"
    if "copy = Some t \<or> copy = None \<and> \<not> b" for copy
    using that grown_put[OF a(2), of a]
    by (auto simp: made_node_def intro!: settles_store[OF a(3)] settles_mono[OF building_delete[OF bld assms]])
  then show "settles b (case Some (a, h1) of None \<Rightarrow> cret (None, h) | Some (item, h) \<Rightarrow> cbind (cJSON_strdup (Some t)) (\<lambda>copy.
             case copy of
               None \<Rightarrow> cbind (cJSON_Delete (Some item) h) (\<lambda>h. cret (None, h))
             | Some t \<Rightarrow> cbind (store_node (\<lambda>n. n\<lparr>nd_value := kind t\<rparr>) item h) (\<lambda>h. cret (Some item, h)))) ?Q"
    unfolding cJSON_strdup_def by (auto intro: settles_cbind[OF settles_ctry_dup])
qed (simp add: made_node_def grown_refl assms)

text \<open>
  The contract of a constructor: for a valid input it makes the tree of the input in new nodes of
  its own, or fails, where an allocation fails, and leaves nothing behind. The array constructors
  need no more of the constructor of their elements.
\<close>

locale node_maker =
  fixes create :: "'a \<Rightarrow> cheap \<Rightarrow> (cptr \<times> cheap) cmd" and made :: "'a \<Rightarrow> ctree" and valid :: "'a \<Rightarrow> bool"
  assumes makes: "valid x \<Longrightarrow> heap_ok h \<Longrightarrow> settles b (create x h) (copied b h (made x))"
begin

lemma elements_made:
  assumes "\<forall>x\<in>set xs. valid x" and "building h0 v k a as ts h"
  shows "settles b (create_elements create a (end_of None as) xs h)
    (\<lambda>(ok, h'). (\<exists>as' ts'. building h0 v k a as' ts' h' \<and> (ok \<longrightarrow> ts' = ts @ map made xs)) \<and> (b \<longrightarrow> ok))"
  using assms
proof (induction xs arbitrary: as ts h)
  case Nil
  then show ?case by auto
next
  case (Cons x xs)
  let ?Q = "\<lambda>(ok, h'). (\<exists>as' ts'. building h0 v k a as' ts' h' \<and> (ok \<longrightarrow> ts' = ts @ map made (x # xs))) \<and> (b \<longrightarrow> ok)"
  have ok: "heap_ok h" using Cons.prems(2) by (auto simp: building_def holds_tree_def)
  have v: "valid x" using Cons.prems(1) by simp
  show ?case
    unfolding create_elements.simps
  proof (rule settles_cbind[OF makes[OF v ok]], clarify)
    fix p h1
    assume r: "copied b h (made x) (p, h1)"
    show "settles b (case p of None \<Rightarrow> cret (False, h1)
        | Some n \<Rightarrow> cbind (link_child a (end_of None as) n h1) (\<lambda>h. create_elements create a (Some n) xs h)) ?Q"
    proof (cases p)
      case None
      with r have f: "\<not> b" "grown {} h h1" by (auto simp: copied_def)
      from building_frame[OF Cons.prems(2) f(2)] have "building h0 v k a as ts h1"
        unfolding building_def by auto
      with f None show ?thesis by auto
    next
      case (Some n)
      with r obtain T where T: "grown T h h1" "whole h1 n (made x) T" "detached h1 n" by (auto simp: copied_def)
      have "settles b (create_elements create a (end_of None (as @ [n])) xs h2) ?Q"
        if "building h0 v k a (as @ [n]) (ts @ [made x]) h2" for h2
        using Cons.IH[OF _ that] Cons.prems(1) by simp
      with Some show ?thesis by (auto intro!: settles_cbind[OF link_child_ok[OF Cons.prems(2) T]])
    qed
  qed
qed

lemma array_made:
  assumes "heap_ok h" and "0 \<le> count" and "count \<le> int (length xs)" and "\<forall>x\<in>set (take (nat count) xs). valid x"
  shows "settles b (create_array create (Some xs) count h)
    (copied b h (CNode CjArray None (map made (take (nat count) xs))))" (is "settles b _ ?Q")
proof -
  let ?xs = "take (nat count) xs"
  have "settles b (case p of None \<Rightarrow> cret (None, h1)
       | Some a \<Rightarrow>
           cbind (create_elements create a None ?xs h1) (\<lambda>(ok, h).
             if ok then cret (Some a, h)
             else cbind (cJSON_Delete (Some a) h) (\<lambda>h. cret (None, h)))) ?Q"
    if r: "made_node b h (blank_node\<lparr>nd_value := CjArray\<rparr>) (p, h1)" for p h1
  proof (cases p)
    case None
    with r show ?thesis by (simp add: made_node_def copied_def)
  next
    case (Some a)
    from made_node_building[OF r[unfolded Some]] have "building h CjArray None a [] [] h1" by (simp add: blank_node_def)
    from elements_made[OF assms(4) this]
    have el: "settles b (create_elements create a None ?xs h1)
        (\<lambda>(ok, h'). (\<exists>as ts. building h CjArray None a as ts h' \<and> (ok \<longrightarrow> ts = map made ?xs)) \<and> (b \<longrightarrow> ok))" by simp
    have "settles b (cbind (create_elements create a None ?xs h1) (\<lambda>(ok, h).
             if ok then cret (Some a, h)
             else cbind (cJSON_Delete (Some a) h) (\<lambda>h. cret (None, h)))) ?Q"
    proof (rule settles_cbind[OF el], clarify)
      fix ok h' as ts
      assume x: "building h CjArray None a as ts h'" "ok \<longrightarrow> ts = map made ?xs" "b \<longrightarrow> ok"
      then show "settles b (if ok then cret (Some a, h') else cbind (cJSON_Delete (Some a) h') (\<lambda>h. cret (None, h))) ?Q"
        using building_copied[OF x(1)]
        by (auto intro!: settles_mono[OF building_delete[OF x(1) assms(1)]] simp: copied_def)
    qed
    with Some show ?thesis by simp
  qed
  then have "settles b (cbind (create_node (\<lambda>n. n\<lparr>nd_value := CjArray\<rparr>) h) (\<lambda>(p, h1). case p of None \<Rightarrow> cret (None, h1)
       | Some a \<Rightarrow>
           cbind (create_elements create a None ?xs h1) (\<lambda>(ok, h).
             if ok then cret (Some a, h)
             else cbind (cJSON_Delete (Some a) h) (\<lambda>h. cret (None, h))))) ?Q"
    by (intro settles_cbind[OF create_node_ok[OF assms(1)]]) auto
  with assms(2,3) show ?thesis by (simp add: create_array_def cJSON_CreateArray_def)
qed

end

interpretation number_maker: node_maker cJSON_CreateNumber "\<lambda>x. CNode (CjNumber x) None []" "\<lambda>_. True"
  unfolding cJSON_CreateNumber_def
  by unfold_locales
    (rule settles_mono[OF create_node_ok], assumption, drule made_node_copied, simp_all add: blank_node_def)

interpretation int_maker: node_maker "\<lambda>i. cJSON_CreateNumber (of_int i)" "\<lambda>i. CNode (CjNumber (of_int i)) None []" "\<lambda>_. True"
  by unfold_locales (rule number_maker.makes)

interpretation string_maker: node_maker cJSON_CreateString "\<lambda>s. CNode (CjString (the s)) None []" "\<lambda>s. s \<noteq> None"
proof
  fix s :: cstring and h b
  assume "s \<noteq> None" "heap_ok h"
  then show "settles b (cJSON_CreateString s h) (copied b h (CNode (CjString (the s)) None []))"
    unfolding cJSON_CreateString_def
    by (auto intro!: settles_mono[OF create_text_ok] dest!: made_node_copied simp: blank_node_def)
qed

lemmas maker_arrays = number_maker.array_made int_maker.array_made string_maker.array_made

lemma arrays_made:
  assumes "heap_ok h" and "0 \<le> count"
  shows "count \<le> int (length xs) \<Longrightarrow> settles b (cJSON_CreateDoubleArray (Some xs) count h)
      (copied b h (CNode CjArray None (map (\<lambda>x. CNode (CjNumber x) None []) (take (nat count) xs))))"
    and "count \<le> int (length is) \<Longrightarrow> settles b (cJSON_CreateIntArray (Some is) count h)
      (copied b h (CNode CjArray None (map (\<lambda>i. CNode (CjNumber (of_int i)) None []) (take (nat count) is))))"
    and "count \<le> int (length ss) \<Longrightarrow> \<forall>s\<in>set (take (nat count) ss). s \<noteq> None \<Longrightarrow>
      settles b (cJSON_CreateStringArray (Some ss) count h)
        (copied b h (CNode CjArray None (map (\<lambda>s. CNode (CjString (the s)) None []) (take (nat count) ss))))"
  unfolding cJSON_CreateDoubleArray_def cJSON_CreateIntArray_def cJSON_CreateStringArray_def
  using maker_arrays[OF assms] by simp_all

section \<open>Lemmas: comparison\<close>

text \<open>The value a tree stands for; a member of an object has a name.\<close>

fun tree_json :: "ctree \<Rightarrow> json option" where
  "tree_json (CNode v k cs) =
     (case v of
        CjNULL \<Rightarrow> Some JNull
      | CjTrue \<Rightarrow> Some (JBool True)
      | CjFalse \<Rightarrow> Some (JBool False)
      | CjNumber d \<Rightarrow> Some (JNumber d)
      | CjString s \<Rightarrow> Some (JText s)
      | CjArray \<Rightarrow> map_option JArray (those (map tree_json cs))
      | CjObject \<Rightarrow>
          map_option JObject (those (map (\<lambda>c.
            case tree_name c of None \<Rightarrow> None | Some name \<Rightarrow> map_option (Pair name) (tree_json c)) cs))
      | _ \<Rightarrow> None)"

text \<open>No object has two members with the same name.\<close>

fun unique_names :: "json \<Rightarrow> bool" where
  "unique_names (JArray xs) \<longleftrightarrow> (\<forall>x\<in>set xs. unique_names x)"
| "unique_names (JObject xs) \<longleftrightarrow> distinct (map fst xs) \<and> (\<forall>(k, x)\<in>set xs. unique_names x)"
| "unique_names _ \<longleftrightarrow> True"

text \<open>A value with the members of every object in the order of their names.\<close>

fun sorted_json :: "json \<Rightarrow> json" where
  "sorted_json (JArray xs) = JArray (map sorted_json xs)"
| "sorted_json (JObject xs) = JObject (sort_key fst (map (\<lambda>(k, x). (k, sorted_json x)) xs))"
| "sorted_json j = j"

lemma sorted_members_eq:
  fixes xs ys :: "('k :: linorder \<times> 'v) list"
  assumes "distinct (map fst xs)" and "distinct (map fst ys)"
  shows "sort_key fst xs = sort_key fst ys \<longleftrightarrow> set xs = set ys"
proof
  assume e: "set xs = set ys"
  have d: "distinct (map fst (sort_key fst zs))" if "distinct (map fst zs)" for zs :: "('k \<times> 'v) list"
    using that by (simp add: distinct_map)
  show "sort_key fst xs = sort_key fst ys"
    using e d assms by (intro map_sorted_distinct_set_unique[where f = fst]) (simp_all add: distinct_map)
qed (metis set_sort)

text \<open>Two objects without repeated names are the same when each member of one is found in the other.\<close>

lemma same_members:
  assumes "distinct (map fst xs)" and "distinct (map fst ys)"
  shows "set xs = set ys \<longleftrightarrow> (\<forall>(k, x)\<in>set xs. map_of ys k = Some x) \<and> (\<forall>(k, y)\<in>set ys. map_of xs k = Some y)"
  using assms by (auto simp: map_of_eq_Some_iff)

lemma sorted_object_eq:
  assumes "distinct (map fst xs)" and "distinct (map fst ys)"
  shows "sorted_json (JObject xs) = sorted_json (JObject ys) \<longleftrightarrow>
    (\<forall>(k, x)\<in>set xs. map_option sorted_json (map_of ys k) = Some (sorted_json x)) \<and>
    (\<forall>(k, y)\<in>set ys. map_option sorted_json (map_of xs k) = Some (sorted_json y))"
proof -
  let ?f = "\<lambda>(k :: string, x). (k, sorted_json x)"
  have m: "map_of (map ?f zs) k = map_option sorted_json (map_of zs k)" for zs k
    by (induction zs) auto
  have d: "distinct (map fst (map ?f zs))" if "distinct (map fst zs)" for zs
    using that by (simp add: case_prod_unfold comp_def)
  show ?thesis
    using sorted_members_eq[OF d[OF assms(1)] d[OF assms(2)]] same_members[OF d[OF assms(1)] d[OF assms(2)]]
    by (auto simp: m)
qed

text \<open>The node at \<open>a\<close> holds the value \<open>j\<close>; its subtrees reach less than \<open>d\<close> nodes down.\<close>

definition json_at :: "cheap \<Rightarrow> caddr \<Rightarrow> json \<Rightarrow> bool" where
  "json_at h a j \<longleftrightarrow> (\<exists>t. tree_at h a t \<and> tree_json t = Some j)"

definition value_in :: "nat \<Rightarrow> cheap \<Rightarrow> caddr \<Rightarrow> json \<Rightarrow> bool" where
  "value_in d h a j \<longleftrightarrow> (\<exists>t. tree_at h a t \<and> tree_json t = Some j \<and> reach (tree_children t) < d)"

definition elements_in :: "nat \<Rightarrow> cheap \<Rightarrow> cptr \<Rightarrow> json list \<Rightarrow> bool" where
  "elements_in d h p xs \<longleftrightarrow> (\<exists>ts. reads h p ts \<and> those (map tree_json ts) = Some xs \<and> reach ts \<le> d)"

definition named_json :: "ctree \<Rightarrow> (string \<times> json) option" where
  "named_json c = (case tree_name c of None \<Rightarrow> None | Some name \<Rightarrow> map_option (Pair name) (tree_json c))"

definition members_in :: "nat \<Rightarrow> cheap \<Rightarrow> cptr \<Rightarrow> (string \<times> json) list \<Rightarrow> bool" where
  "members_in d h p xs \<longleftrightarrow> (\<exists>ts. reads h p ts \<and> those (map named_json ts) = Some xs \<and> reach ts \<le> d)"

lemma those_length: "those ts = Some xs \<Longrightarrow> length xs = length ts"
  by (induction ts arbitrary: xs) (auto split: option.splits)

lemma those_Cons: "those (x # xs) = Some ys \<longleftrightarrow> (\<exists>z zs. x = Some z \<and> those xs = Some zs \<and> ys = z # zs)"
  by (auto split: option.splits)

lemma reach_Cons: "reach (t # ts) \<le> d \<longleftrightarrow> reach (tree_children t) < d \<and> reach ts < d"
  by (cases t) auto

lemma elements_inD:
  "elements_in d h None xs \<Longrightarrow> xs = []"
  "elements_in d h (Some a) xs \<Longrightarrow>
     \<exists>n j ys. ch_node h a = Some n \<and> xs = j # ys \<and> value_in d h a j \<and> elements_in d h (nd_next n) ys"
  unfolding elements_in_def value_in_def reads_Some_tree
  by (auto simp: reach_Cons those_Cons simp del: those.simps(2)) (blast intro: less_imp_le)+

lemma members_inD:
  "members_in d h None xs \<Longrightarrow> xs = []"
  "members_in d h (Some a) xs \<Longrightarrow>
     \<exists>n k j ys. ch_node h a = Some n \<and> xs = (k, j) # ys \<and> nd_string n = Some k \<and> value_in d h a j \<and> members_in d h (nd_next n) ys"
proof -
  assume "members_in d h (Some a) xs"
  then obtain n t us x ys where t: "ch_node h a = Some n" "tree_at h a t" "reads h (nd_next n) us" "named_json t = Some x"
      "those (map named_json us) = Some ys" "xs = x # ys" "reach (tree_children t) < d" "reach us < d"
    unfolding members_in_def reads_Some_tree by (auto simp: reach_Cons those_Cons simp del: those.simps(2))
  from t(1,2) have "tree_name t = nd_string n" by (auto simp: tree_at_def)
  with t(4) obtain k j where "x = (k, j)" "nd_string n = Some k" "tree_json t = Some j"
    by (auto simp: named_json_def split: option.splits)
  with t show "\<exists>n k j ys. ch_node h a = Some n \<and> xs = (k, j) # ys \<and> nd_string n = Some k \<and> value_in d h a j \<and> members_in d h (nd_next n) ys"
    unfolding members_in_def value_in_def by (auto intro: less_imp_le)
qed (simp add: members_in_def)

lemma in_length:
  "elements_in d h p xs \<Longrightarrow> heap_ok h \<Longrightarrow> length xs \<le> ch_limit h"
  "members_in d h p ys \<Longrightarrow> heap_ok h \<Longrightarrow> length ys \<le> ch_limit h"
  unfolding elements_in_def members_in_def
  using reach_limit reach_length le_trans by (fastforce dest: those_length)+

text \<open>What a value says of its node.\<close>

lemma value_inD:
  assumes "value_in (Suc d) h a j"
  shows "\<exists>n. ch_node h a = Some n \<and>
    (nd_value n = CjNULL \<and> j = JNull \<or> nd_value n = CjTrue \<and> j = JBool True \<or> nd_value n = CjFalse \<and> j = JBool False \<or>
     (\<exists>x. nd_value n = CjNumber x \<and> j = JNumber x) \<or> (\<exists>s. nd_value n = CjString s \<and> j = JText s) \<or>
     (\<exists>xs. nd_value n = CjArray \<and> j = JArray xs \<and> elements_in d h (nd_child n) xs) \<or>
     (\<exists>xs. nd_value n = CjObject \<and> j = JObject xs \<and> members_in d h (nd_child n) xs))"
proof -
  obtain n cs where n: "ch_node h a = Some n" "reads h (nd_child n) cs" "reach cs \<le> d"
      "tree_json (CNode (nd_value n) (nd_string n) cs) = Some j"
    using assms by (auto simp: value_in_def tree_at_def)
  show ?thesis
    using n by (cases "nd_value n") (auto simp: elements_in_def members_in_def named_json_def[abs_def])
qed

lemma value_in_json: "json_at h a j \<Longrightarrow> heap_ok h \<Longrightarrow> value_in (Suc (ch_limit h)) h a j"
  unfolding json_at_def value_in_def tree_at_def using reach_limit by (fastforce simp: less_Suc_eq_le)

text \<open>The search finds the first member with the name.\<close>

lemma find_member:
  "members_in d h p xs \<Longrightarrow> length xs \<le> fuel \<Longrightarrow>
   \<exists>q. (\<forall>m. object_item_loop fuel h True name p m = (Val q, m)) \<and>
     (case map_of xs name of None \<Rightarrow> q = None | Some j \<Rightarrow> \<exists>b. q = Some b \<and> value_in d h b j)"
proof (induction xs arbitrary: p fuel)
  case Nil
  then have "p = None" by (cases p) (auto dest: members_inD)
  then show ?case by (cases fuel) (auto simp: cret_def)
next
  case (Cons x xs)
  then obtain a where p: "p = Some a" by (cases p) (auto dest: members_inD)
  with members_inD(2) Cons.prems(1) obtain n k j where n: "ch_node h a = Some n" "x = (k, j)" "nd_string n = Some k"
      "value_in d h a j" "members_in d h (nd_next n) xs" by blast
  obtain f where f: "fuel = Suc f" "length xs \<le> f" using Cons.prems(2) by (cases fuel) auto
  from Cons.IH[OF n(5) f(2)] obtain q where q: "\<And>m. object_item_loop f h True name (nd_next n) m = (Val q, m)"
      "case map_of xs name of None \<Rightarrow> q = None | Some j \<Rightarrow> \<exists>b. q = Some b \<and> value_in d h b j" by blast
  show ?case
  proof (cases "k = name")
    case True
    with n p f show ?thesis by (intro exI[of _ "Some a"]) (simp add: heap_simps cret_def)
  next
    case False
    with n p f q show ?thesis by (intro exI[of _ q]) (auto simp: heap_simps)
  qed
qed

lemma compare_elements_ok:
  assumes "\<And>x y a b m. x \<in> set xs \<Longrightarrow> y \<in> set ys \<Longrightarrow> value_in d h a x \<Longrightarrow> value_in d h b y \<Longrightarrow>
      cmp a b m = (Val (sorted_json x = sorted_json y), m)"
    and "elements_in d h p xs" and "elements_in d h q ys" and "length xs < fuel"
  shows "compare_elements fuel cmp h p q m = (Val (map sorted_json xs = map sorted_json ys), m)"
  using assms
proof (induction fuel arbitrary: p q xs ys)
  case (Suc fuel)
  show ?case
  proof (cases "p = None \<or> q = None")
    case True
    then show ?thesis
      using Suc.prems(2,3) by (cases p; cases q) (auto simp: cret_def dest!: elements_inD)
  next
    case False
    then obtain a b where pq: "p = Some a" "q = Some b" by auto
    from elements_inD(2)[OF Suc.prems(2)[unfolded pq]] obtain an x xs' where
      a: "ch_node h a = Some an" "xs = x # xs'" "value_in d h a x" "elements_in d h (nd_next an) xs'" by blast
    from elements_inD(2)[OF Suc.prems(3)[unfolded pq]] obtain bn y ys' where
      b: "ch_node h b = Some bn" "ys = y # ys'" "value_in d h b y" "elements_in d h (nd_next bn) ys'" by blast
    have "cmp a b m = (Val (sorted_json x = sorted_json y), m)" using Suc.prems(1) a(2,3) b(2,3) by simp
    moreover have "compare_elements fuel cmp h (nd_next an) (nd_next bn) m = (Val (map sorted_json xs' = map sorted_json ys'), m)"
      using Suc.prems(1,4) a(2,4) b(2,4) by (intro Suc.IH) auto
    ultimately show ?thesis using pq a(1,2) b(1,2) by (simp add: cbind_def load_def cret_def)
  qed
qed simp

lemma compare_members_ok:
  assumes "\<And>k x l y a b m. (k, x) \<in> set xs \<Longrightarrow> (l, y) \<in> set ys \<Longrightarrow> value_in d h a x \<Longrightarrow> value_in d h b y \<Longrightarrow>
      cmp a b m = (Val (sorted_json x = sorted_json y), m)"
    and "ch_node h c = Some cn" "members_in d h (nd_child cn) ys" "heap_ok h"
    and "members_in d h p xs" and "length xs < fuel"
  shows "compare_members fuel cmp True h c p m =
    (Val (\<forall>(k, x)\<in>set xs. map_option sorted_json (map_of ys k) = Some (sorted_json x)), m)"
  using assms(1,5,6)
proof (induction fuel arbitrary: p xs m)
  case (Suc fuel)
  show ?case
  proof (cases p)
    case None
    then show ?thesis using Suc.prems(2) by (auto simp: cret_def dest!: members_inD)
  next
    case (Some a)
    with members_inD(2) Suc.prems(2) obtain n k x xs' where n: "ch_node h a = Some n" "xs = (k, x) # xs'" "nd_string n = Some k"
        "value_in d h a x" "members_in d h (nd_next n) xs'" by blast
    from find_member[OF assms(3) in_length(2)[OF assms(3,4)], of k] obtain q where
      q: "\<And>m. object_item_loop (ch_limit h) h True k (nd_child cn) m = (Val q, m)"
        "case map_of ys k of None \<Rightarrow> q = None | Some j \<Rightarrow> \<exists>b. q = Some b \<and> value_in d h b j" by blast
    have g: "get_object_item h (Some c) (nd_string n) True m = (Val q, m)" for m
      using q(1) assms(2) n(3) by (simp add: get_object_item_def heap_simps)
    have rest: "compare_members fuel cmp True h c (nd_next n) m =
        (Val (\<forall>(k, x)\<in>set xs'. map_option sorted_json (map_of ys k) = Some (sorted_json x)), m)" for m
    proof (rule Suc.IH[OF _ n(5)])
      fix k x l y a b m
      assume "(k, x) \<in> set xs'" "(l, y) \<in> set ys" "value_in d h a x" "value_in d h b y"
      then show "cmp a b m = (Val (sorted_json x = sorted_json y), m)" using Suc.prems(1)[of k x l y a b m] n(2) by simp
    qed (use Suc.prems(3) n(2) in simp)
    show ?thesis
    proof (cases "map_of ys k")
      case None
      with q(2) g n Some show ?thesis by (simp add: heap_simps cbind_def[of "get_object_item _ _ _ _"] cret_def)
    next
      case (Some y)
      with q(2) obtain b where b: "q = Some b" "value_in d h b y" by auto
      have "cmp a b m = (Val (sorted_json x = sorted_json y), m)" for m
        using Suc.prems(1)[of k x k y a b] n(2,4) b(2) map_of_SomeD[OF Some] by simp
      with g b(1) rest n Some \<open>p = Some a\<close> show ?thesis
        by (auto simp: heap_simps cbind_def[of "get_object_item _ _ _ _"] cbind_def[of "cmp _ _"] cret_def)
    qed
  qed
qed simp

declare compare_elements.simps [simp del] compare_members.simps [simp del]

lemma compare_ok:
  "value_in fuel h a x \<Longrightarrow> value_in fuel h b y \<Longrightarrow> unique_names x \<Longrightarrow> unique_names y \<Longrightarrow> heap_ok h \<Longrightarrow>
   compare fuel True h a b m = (Val (sorted_json x = sorted_json y), m)"
proof (induction fuel arbitrary: a b x y m)
  case (Suc fuel)
  from value_inD[OF Suc.prems(1)] obtain an where an: "ch_node h a = Some an" by blast
  from value_inD[OF Suc.prems(2)] obtain bn where bn: "ch_node h b = Some bn" by blast
  show ?case
  proof (cases "a = b")
    case True
    then have "x = y" using Suc.prems(1,2) by (auto simp: value_in_def dest: tree_at_unique)
    with True an value_inD[OF Suc.prems(1)] show ?thesis by (auto simp: heap_simps cret_def)
  next
    case False
    have arr: "compare_elements (Suc (ch_limit h)) (compare fuel True h) h (nd_child an) (nd_child bn) m =
        (Val (sorted_json x = sorted_json y), m)"
      if "x = JArray xs" "y = JArray ys" "elements_in fuel h (nd_child an) xs" "elements_in fuel h (nd_child bn) ys" for xs ys
    proof -
      have "compare_elements (Suc (ch_limit h)) (compare fuel True h) h (nd_child an) (nd_child bn) m =
          (Val (map sorted_json xs = map sorted_json ys), m)"
        using Suc.prems(3-5) that(1,2) in_length(1)[OF that(3)] by (intro compare_elements_ok[OF Suc.IH that(3,4)]) auto
      with that(1,2) show ?thesis by simp
    qed
    have obj: "compare_members (Suc (ch_limit h)) (compare fuel True h) True h b (nd_child an) m =
        (Val (\<forall>(k, x)\<in>set xs. map_option sorted_json (map_of ys k) = Some (sorted_json x)), m)"
        "compare_members (Suc (ch_limit h)) (compare fuel True h) True h a (nd_child bn) m =
        (Val (\<forall>(k, x)\<in>set ys. map_option sorted_json (map_of xs k) = Some (sorted_json x)), m)"
        "sorted_json x = sorted_json y \<longleftrightarrow>
          (\<forall>(k, x)\<in>set xs. map_option sorted_json (map_of ys k) = Some (sorted_json x)) \<and>
          (\<forall>(k, x)\<in>set ys. map_option sorted_json (map_of xs k) = Some (sorted_json x))"
      if "x = JObject xs" "y = JObject ys" "members_in fuel h (nd_child an) xs" "members_in fuel h (nd_child bn) ys" for xs ys
    proof -
      have u: "unique_names z" if "(k, z) \<in> set xs \<union> set ys" for k z
        using that Suc.prems(3,4) \<open>x = JObject xs\<close> \<open>y = JObject ys\<close> by auto
      have len: "length xs < Suc (ch_limit h)" "length ys < Suc (ch_limit h)"
        using in_length(2) that(3,4) Suc.prems(5) by (auto simp: less_Suc_eq_le)
      show "compare_members (Suc (ch_limit h)) (compare fuel True h) True h b (nd_child an) m =
          (Val (\<forall>(k, x)\<in>set xs. map_option sorted_json (map_of ys k) = Some (sorted_json x)), m)"
        using u Suc.prems(5) by (intro compare_members_ok[OF _ bn that(4) _ that(3) len(1)] Suc.IH) auto
      show "compare_members (Suc (ch_limit h)) (compare fuel True h) True h a (nd_child bn) m =
          (Val (\<forall>(k, x)\<in>set ys. map_option sorted_json (map_of xs k) = Some (sorted_json x)), m)"
        using u Suc.prems(5) by (intro compare_members_ok[OF _ an that(3) _ that(4) len(2)] Suc.IH) auto
      show "sorted_json x = sorted_json y \<longleftrightarrow>
          (\<forall>(k, x)\<in>set xs. map_option sorted_json (map_of ys k) = Some (sorted_json x)) \<and>
          (\<forall>(k, x)\<in>set ys. map_option sorted_json (map_of xs k) = Some (sorted_json x))"
        using sorted_object_eq[of xs ys] that(1,2) Suc.prems(3,4) by simp
    qed
    note kinds = value_inD[OF Suc.prems(1)] value_inD[OF Suc.prems(2)]
    show ?thesis
    proof (cases x)
      case (JArray xs)
      with kinds an bn False arr show ?thesis by (auto simp: heap_simps cret_def)
    next
      case (JObject xs)
      with kinds(1) an have an': "nd_value an = CjObject" "members_in fuel h (nd_child an) xs" by auto
      show ?thesis
      proof (cases "nd_value bn = CjObject")
        case True
        with kinds(2) bn obtain ys where ys: "y = JObject ys" "members_in fuel h (nd_child bn) ys" by auto
        note o = obj[OF JObject ys(1) an'(2) ys(2)]
        with an bn an' True False show ?thesis
          by (simp add: heap_simps cbind_def[of "compare_members _ _ _ _ _ _"] cret_def)
      next
        case False
        with kinds(2) an bn an' JObject show ?thesis by (auto simp: heap_simps cret_def)
      qed
    qed (use kinds an bn False in \<open>auto simp: heap_simps cret_def\<close>)
  qed
qed (simp add: value_in_def)

section \<open>Properties\<close>

lemma example_heap_tree:
  "tree_at example_heap 0 (CNode CjArray None [CNode CjArray None [CNode CjArray None []], CNode CjArray None []])"
  "heap_ok example_heap"
  by (simp_all add: tree_at_def reads_Some_iff example_heap_def heap_of_node heap_of_ok plain_node_def)

text \<open>C15. \<open>cJSON_Duplicate\<close> of a tree returns whatever the allocator does. Either it fails, and only where
  an allocation failed: then every node it had allocated is freed again and the heap has exactly the
  nodes of before. Or it returns a node that spells out the same tree, values and names included, in
  nodes that are all new and owned by the copy, and nothing else has changed.\<close>

theorem cJSON_Duplicate_copies:
  assumes "heap_ok h" and "tree_at h i t"
  shows "\<exists>p h' m'. cJSON_Duplicate (Some i) True h m = (Val (p, h'), m') \<and>
    (case p of
       None \<Rightarrow> m \<noteq> [] \<and> (\<forall>x. ch_node h' x = ch_node h x)
     | Some c \<Rightarrow> tree_at h' c t \<and> (\<exists>S. owns h' (Some c) S \<and> (\<forall>x\<in>S. ch_node h x = None) \<and>
         (\<forall>x. x \<notin> S \<longrightarrow> ch_node h' x = ch_node h x)))"
proof -
  have "\<exists>r m'. cJSON_Duplicate (Some i) True h m = (Val r, m') \<and> copied (m = []) h t r"
    using settles_returns[OF cJSON_Duplicate_ok[OF assms], of m] settles_plenty[OF cJSON_Duplicate_ok[OF assms]] by (cases "m = []") auto
  then obtain p h' m' where r: "cJSON_Duplicate (Some i) True h m = (Val (p, h'), m')" "copied (m = []) h t (p, h')"
    by (metis prod.collapse)
  show ?thesis
  proof (cases p)
    case None
    with r show ?thesis by (auto simp: copied_def grown_def)
  next
    case (Some c)
    with r(2) obtain S where S: "grown S h h'" "whole h' c t S" "detached h' c" by (auto simp: copied_def)
    have "\<forall>x\<in>S. ch_node h x = None" using grown_old[OF S(1) assms(1)] by blast
    moreover have "\<forall>x. x \<notin> S \<longrightarrow> ch_node h' x = ch_node h x" using S(1) by (simp add: grown_def)
    ultimately show ?thesis using r(1) Some whole_tree[OF S(2)] whole_owns[OF S(2,3)] by auto
  qed
qed

theorem cJSON_Duplicate_copies_witness:
  "\<exists>p h' m'. cJSON_Duplicate (Some 0) True example_heap [True, True, False] = (Val (p, h'), m') \<and>
    (case p of
       None \<Rightarrow> [True, True, False] \<noteq> [] \<and> (\<forall>x. ch_node h' x = ch_node example_heap x)
     | Some c \<Rightarrow> tree_at h' c (CNode CjArray None [CNode CjArray None [CNode CjArray None []], CNode CjArray None []]) \<and>
         (\<exists>S. owns h' (Some c) S \<and> (\<forall>x\<in>S. ch_node example_heap x = None) \<and>
           (\<forall>x. x \<notin> S \<longrightarrow> ch_node h' x = ch_node example_heap x)))"
  by (rule cJSON_Duplicate_copies[OF example_heap_tree(2,1)])

text \<open>A heap with two objects at 0 and 3 whose members, at 1 and 2 and at 4 and 5, have these names and numbers.\<close>

definition pair_heap :: "string \<times> double \<Rightarrow> string \<times> double \<Rightarrow> string \<times> double \<Rightarrow> string \<times> double \<Rightarrow> cheap" where
  "pair_heap p q r s =
     (let obj = \<lambda>c. \<lparr>nd_next = None, nd_prev = None, nd_child = Some c, nd_value = CjObject, nd_string = None,
            nd_ref = False, nd_const = False\<rparr>;
          num = \<lambda>nxt prv (k, x). \<lparr>nd_next = nxt, nd_prev = prv, nd_child = None, nd_value = CjNumber x, nd_string = Some k,
            nd_ref = False, nd_const = False\<rparr>
      in heap_of [obj 1, num (Some 2) None p, num None (Some 1) q, obj 4, num (Some 5) None r, num None (Some 4) s])"

lemma pair_heap_json:
  "heap_ok (pair_heap (k1, x1) (k2, x2) (k3, x3) (k4, x4))"
  "json_at (pair_heap (k1, x1) (k2, x2) (k3, x3) (k4, x4)) 0 (JObject [(k1, JNumber x1), (k2, JNumber x2)])"
  "json_at (pair_heap (k1, x1) (k2, x2) (k3, x3) (k4, x4)) 3 (JObject [(k3, JNumber x3), (k4, JNumber x4)])"
  by (simp_all add: pair_heap_def Let_def heap_of_ok json_at_def tree_at_def reads_Some_iff heap_of_node)

text \<open>C16. \<open>LDJSONCompare\<close> (\<open>cJSON_Compare\<close>, case sensitive) decides equality of JSON values, where no object
  has two members with the same name: on any two nodes it returns, without a fault, whether their
  values are equal once the members of every object are put in the order of their names. It is
  therefore an equivalence that ignores exactly the order of members.\<close>

theorem LDJSONCompare_decides:
  assumes "heap_ok h" and "json_at h a x" and "json_at h b y" and "unique_names x" and "unique_names y"
  shows "LDJSONCompare h (Some a) (Some b) m = (Val (sorted_json x = sorted_json y), m)"
  using compare_ok[OF value_in_json[OF assms(2,1)] value_in_json[OF assms(3,1)] assms(4,5,1)]
  by (simp add: LDJSONCompare_def cJSON_Compare_def)

theorem LDJSONCompare_decides_witness:
  "LDJSONCompare (pair_heap (''a'', 1) (''b'', 2) (''b'', 2) (''a'', 1)) (Some 0) (Some 3) [] = (Val True, [])"
  using LDJSONCompare_decides[OF pair_heap_json, of "''a''" 1 "''b''" 2 "''b''" 2 "''a''" 1 "[]"] by simp

text \<open>The comparison fails its purpose on a value with a repeated name, which \<open>LDObject_AddOwnedKey\<close>
  allows: \<open>{"a":1,"a":2}\<close> is not equal to a second object with exactly the same members, since both
  members are looked up by name and compared with the first one that has it; it is equal only to
  itself, by the identity of the pointers.\<close>

theorem repeated_name_unequal:
  "LDJSONCompare (pair_heap (''a'', 1) (''a'', 2) (''a'', 1) (''a'', 2)) (Some 0) (Some 3) m = (Val False, m) \<and>
   LDJSONCompare (pair_heap (''a'', 1) (''a'', 2) (''a'', 1) (''a'', 2)) (Some 0) (Some 0) m = (Val True, m)"
  by (simp add: LDJSONCompare_def cJSON_Compare_def pair_heap_def Let_def heap_of_def load_def cbind_def cret_def
      compare_members.simps get_object_item_def)

end
