(* ===== verification/Ldvalue.thy ===== *)
theory Ldvalue
  imports Cjson_Tree
begin

text \<open>
  The values of \<open>c-sdk-common/src/ldvalue.c\<close>: immutable \<open>LDValue\<close>s, the builders \<open>LDObject\<close> and \<open>LDArray\<close>
  and iterators, all of them pointers to nodes of the heap of \<open>Cjson_List\<close>. The casts between them
  are the identity. \<open>LD_ASSERT_API\<close> is empty in the shipped build, so that a \<open>NULL\<close> argument reaches
  the functions of \<open>cJSON.c\<close>; an iterator that is \<open>NULL\<close> is dereferenced. Parsing and printing of an
  \<open>LDValue\<close>, one call of \<open>cJSON.c\<close> each, are covered by \<open>Cjson_Parse\<close> and \<open>Cjson_Print\<close> on JSON
  trees and have no definition here.
\<close>

section \<open>Constructors\<close>

definition LDValue_Null :: "cheap \<Rightarrow> (cptr \<times> cheap) cmd" where
  "LDValue_Null h = cJSON_CreateNull h"

definition LDValue_Bool :: "bool \<Rightarrow> cheap \<Rightarrow> (cptr \<times> cheap) cmd" where
  "LDValue_Bool boolVal h = cJSON_CreateBool boolVal h"

definition LDValue_True :: "cheap \<Rightarrow> (cptr \<times> cheap) cmd" where
  "LDValue_True h = LDValue_Bool True h"

definition LDValue_False :: "cheap \<Rightarrow> (cptr \<times> cheap) cmd" where
  "LDValue_False h = LDValue_Bool False h"

definition LDValue_Number :: "double \<Rightarrow> cheap \<Rightarrow> (cptr \<times> cheap) cmd" where
  "LDValue_Number number h = cJSON_CreateNumber number h"

text \<open>The string, which must not be \<open>NULL\<close>, is not copied, and the node does not own it.\<close>

definition LDValue_ConstantString :: "string \<Rightarrow> cheap \<Rightarrow> (cptr \<times> cheap) cmd" where
  "LDValue_ConstantString s h = cJSON_CreateStringReference s h"

definition LDValue_OwnedString :: "cstring \<Rightarrow> cheap \<Rightarrow> (cptr \<times> cheap) cmd" where
  "LDValue_OwnedString s h = cJSON_CreateString s h"

definition LDValue_Array :: "cptr \<Rightarrow> cptr" where
  "LDValue_Array array = array"

definition LDValue_Object :: "cptr \<Rightarrow> cptr" where
  "LDValue_Object obj = obj"

definition LDValue_Clone :: "cptr \<Rightarrow> cheap \<Rightarrow> (cptr \<times> cheap) cmd" where
  "LDValue_Clone source h = cJSON_Duplicate source True h"

definition LDValue_Free :: "cptr \<Rightarrow> cheap \<Rightarrow> cheap cmd" where
  "LDValue_Free v h = cJSON_Delete v h"

section \<open>Reading a value\<close>

datatype LDValueType =
    LDValueType_Unrecognized | LDValueType_Null | LDValueType_Bool | LDValueType_Number
  | LDValueType_String | LDValueType_Array | LDValueType_Object

text \<open>\<open>cJSON_IsBool\<close> and its kin: no pointer, no type.\<close>

definition item_is :: "(cj_value \<Rightarrow> bool) \<Rightarrow> cheap \<Rightarrow> cptr \<Rightarrow> bool cmd" where
  "item_is kind h item = (case item of None \<Rightarrow> cret False | Some a \<Rightarrow> cbind (load h a) (\<lambda>n. cret (kind (nd_value n))))"

definition is_bool :: "cheap \<Rightarrow> cptr \<Rightarrow> bool cmd" where
  "is_bool = item_is (\<lambda>v. node_type v = 1 \<or> node_type v = 2)"

definition is_true :: "cheap \<Rightarrow> cptr \<Rightarrow> bool cmd" where
  "is_true = item_is (\<lambda>v. node_type v = 2)"

definition is_null :: "cheap \<Rightarrow> cptr \<Rightarrow> bool cmd" where
  "is_null = item_is (\<lambda>v. node_type v = 4)"

definition is_number :: "cheap \<Rightarrow> cptr \<Rightarrow> bool cmd" where
  "is_number = item_is (\<lambda>v. node_type v = 8)"

definition is_string :: "cheap \<Rightarrow> cptr \<Rightarrow> bool cmd" where
  "is_string = item_is (\<lambda>v. node_type v = 16)"

definition is_array :: "cheap \<Rightarrow> cptr \<Rightarrow> bool cmd" where
  "is_array = item_is (\<lambda>v. node_type v = 32)"

definition is_object :: "cheap \<Rightarrow> cptr \<Rightarrow> bool cmd" where
  "is_object = item_is (\<lambda>v. node_type v = 64)"

definition LDValue_Type :: "cheap \<Rightarrow> cptr \<Rightarrow> LDValueType cmd" where
  "LDValue_Type h v =
     cbind (is_bool h v) (\<lambda>r. if r then cret LDValueType_Bool else
     cbind (is_number h v) (\<lambda>r. if r then cret LDValueType_Number else
     cbind (is_null h v) (\<lambda>r. if r then cret LDValueType_Null else
     cbind (is_object h v) (\<lambda>r. if r then cret LDValueType_Object else
     cbind (is_array h v) (\<lambda>r. if r then cret LDValueType_Array else
     cbind (is_string h v) (\<lambda>r. if r then cret LDValueType_String else
       cret LDValueType_Unrecognized))))))"

definition LDValue_Equal :: "cheap \<Rightarrow> cptr \<Rightarrow> cptr \<Rightarrow> bool cmd" where
  "LDValue_Equal h left right = cJSON_Compare h left right True"

definition field :: "cheap \<Rightarrow> cptr \<Rightarrow> (cnode \<Rightarrow> 'a) \<Rightarrow> 'a cmd" where
  "field h p f = (case p of None \<Rightarrow> cfault Undefined | Some a \<Rightarrow> cbind (load h a) (\<lambda>n. cret (f n)))"

definition LDValue_GetNumber :: "cheap \<Rightarrow> cptr \<Rightarrow> double cmd" where
  "LDValue_GetNumber h v =
     cbind (is_number h v) (\<lambda>r. if \<not> r then cret 0
       else field h v (\<lambda>n. case nd_value n of CjNumber x \<Rightarrow> x | _ \<Rightarrow> 0))"

definition LDValue_GetBool :: "cheap \<Rightarrow> cptr \<Rightarrow> bool cmd" where
  "LDValue_GetBool h v = cbind (is_bool h v) (\<lambda>r. if \<not> r then cret False else is_true h v)"

definition LDValue_GetString :: "cheap \<Rightarrow> cptr \<Rightarrow> cstring cmd" where
  "LDValue_GetString h v =
     cbind (is_string h v) (\<lambda>r. if \<not> r then cret (Some []) else field h v (\<lambda>n. value_string (nd_value n)))"

definition is_collection :: "cheap \<Rightarrow> cptr \<Rightarrow> bool cmd" where
  "is_collection h v = cbind (is_object h v) (\<lambda>r. if r then cret True else is_array h v)"

definition LDValue_GetIter :: "cheap \<Rightarrow> cptr \<Rightarrow> cptr cmd" where
  "LDValue_GetIter h v = cbind (is_collection h v) (\<lambda>r. if \<not> r then cret None else field h v nd_child)"

definition LDValue_Count :: "cheap \<Rightarrow> cptr \<Rightarrow> u32 cmd" where
  "LDValue_Count h v =
     cbind (is_collection h v) (\<lambda>r. if \<not> r then cret 0 else cbind (cJSON_GetArraySize h v) (\<lambda>n. cret (of_int n)))"

definition LDIter_Next :: "cheap \<Rightarrow> cptr \<Rightarrow> cptr cmd" where
  "LDIter_Next h iterator = field h iterator nd_next"

definition LDIter_Key :: "cheap \<Rightarrow> cptr \<Rightarrow> cstring cmd" where
  "LDIter_Key h iterator = field h iterator nd_string"

definition LDIter_Val :: "cptr \<Rightarrow> cptr" where
  "LDIter_Val iterator = iterator"

section \<open>Builders\<close>

definition LDObject_New :: "cheap \<Rightarrow> (cptr \<times> cheap) cmd" where
  "LDObject_New h = cJSON_CreateObject h"

definition LDObject_Free :: "cptr \<Rightarrow> cheap \<Rightarrow> cheap cmd" where
  "LDObject_Free obj h = cJSON_Delete obj h"

definition LDObject_AddConstantKey :: "cptr \<Rightarrow> cstring \<Rightarrow> cptr \<Rightarrow> cheap \<Rightarrow> cheap cmd" where
  "LDObject_AddConstantKey obj key v h = cJSON_AddItemToObjectCS h obj key v"

definition LDObject_AddOwnedKey :: "cptr \<Rightarrow> cstring \<Rightarrow> cptr \<Rightarrow> cheap \<Rightarrow> cheap cmd" where
  "LDObject_AddOwnedKey obj key v h = cJSON_AddItemToObject h obj key v"

definition LDObject_Build :: "cptr \<Rightarrow> cheap \<Rightarrow> (cptr \<times> cheap) cmd" where
  "LDObject_Build obj h = cJSON_Duplicate obj True h"

definition LDArray_New :: "cheap \<Rightarrow> (cptr \<times> cheap) cmd" where
  "LDArray_New h = cJSON_CreateArray h"

definition LDArray_Free :: "cptr \<Rightarrow> cheap \<Rightarrow> cheap cmd" where
  "LDArray_Free array h = cJSON_Delete array h"

definition LDArray_Add :: "cptr \<Rightarrow> cptr \<Rightarrow> cheap \<Rightarrow> cheap cmd" where
  "LDArray_Add array child h = cJSON_AddItemToArray h array child"

definition LDArray_Build :: "cptr \<Rightarrow> cheap \<Rightarrow> (cptr \<times> cheap) cmd" where
  "LDArray_Build array h = cJSON_Duplicate array True h"

section \<open>Lemmas: building\<close>

lemma add_item_link:
  assumes "holds_tree h a v k xs ts S"
  shows "add_item_to_array h (Some a) (Some i) m = cbind (link_child a (end_of None xs) i h) (\<lambda>h. cret (True, h)) m"
proof -
  obtain n where n: "ch_node h a = Some n" "dseg h None (nd_child n) xs None" "distinct xs" "heap_ok h"
    using assms by (auto simp: holds_tree_def dest: forest_distinct)
  show ?thesis
  proof (cases "nd_child n")
    case None
    then have "xs = []" using n(2) by (cases xs) auto
    with n(1) None show ?thesis by (simp add: add_item_to_array_def link_child_def heap_simps)
  next
    case (Some c)
    then have "xs \<noteq> []" using n(2) by (cases xs) auto
    moreover have "last_loop (ch_limit h) h c m = (Val (last xs), m)"
      using last_loop_ok[OF n(2)[unfolded Some]] dseg_length[OF n(2,3,4)] by simp
    ultimately show ?thesis
      using n(1) Some by (simp add: add_item_to_array_def link_child_def heap_simps end_of_def cbind_def[of "last_loop _ _ _"])
  qed
qed

lemma settles_eq: "(\<And>m. c m = d m) \<Longrightarrow> settles b d Q \<Longrightarrow> settles b c Q"
  by (simp add: settles_def)

lemma add_tree_ok:
  assumes "holds_tree h a v k xs ts S" and "whole h i t T" and "detached h i" and "insert a S \<inter> T = {}"
  shows "settles b (add_item_to_array h (Some a) (Some i)) (\<lambda>(ok, h').
    ok \<and> holds_tree h' a v k (xs @ [i]) (ts @ [t]) (S \<union> T) \<and> same_outside (insert a (S \<union> T)) h h' \<and>
    (detached h a \<longrightarrow> detached h' a))"
  by (rule settles_eq[OF add_item_link[OF assms(1)]], rule settles_cbind[OF link_tree[OF assms]]) simp

lemma LDArray_Add_ok:
  assumes "holds_tree h a v k xs ts S" and "whole h i t T" and "detached h i" and "insert a S \<inter> T = {}"
  shows "settles b (LDArray_Add (Some a) (Some i) h) (\<lambda>h'.
    holds_tree h' a v k (xs @ [i]) (ts @ [t]) (S \<union> T) \<and> same_outside (insert a (S \<union> T)) h h' \<and>
    (detached h a \<longrightarrow> detached h' a))"
  unfolding LDArray_Add_def cJSON_AddItemToArray_def
  by (rule settles_cbind[OF add_tree_ok[OF assms]]) auto

text \<open>A new name for the root of a tree.\<close>

lemma rename_tree:
  assumes "whole h i (CNode w k us) T" and "ch_node h i = Some n"
  shows "whole (put_cnode i (Some (n\<lparr>nd_string := s, nd_const := c\<rparr>)) h) i (CNode w s us) T"
proof -
  obtain C where C: "nd_ref n \<longrightarrow> nd_child n = None" "chain h (nd_child n) us C" "i \<notin> C" "w = nd_value n" "T = insert i C"
    using assms by (auto simp: whole_def)
  have "chain (put_cnode i (Some (n\<lparr>nd_string := s, nd_const := c\<rparr>)) h) (nd_child n) us C"
    using C(3) by (intro chain_other[OF C(2)]) auto
  with C show ?thesis by (auto simp: whole_def)
qed

lemma add_named_ok:
  assumes "holds_tree h a v k xs ts S" and "whole h i (CNode w k' us) T" and "detached h i" and "insert a S \<inter> T = {}"
  shows "settles b (add_item_to_object h (Some a) (Some key) (Some i) constant_key) (\<lambda>(ok, h').
    if ok then holds_tree h' a v k (xs @ [i]) (ts @ [CNode w (Some key) us]) (S \<union> T) \<and>
      same_outside (insert a (S \<union> T)) h h' \<and> (detached h a \<longrightarrow> detached h' a)
    else h' = h \<and> \<not> b \<and> \<not> constant_key)" (is "settles b _ ?Q")
proof -
  obtain n where n: "ch_node h i = Some n" "nd_next n = None" "nd_prev n = None" using assms(3) by (auto simp: detached_def)
  have i: "i \<in> T" "i \<noteq> a" "i \<notin> S" using whole_mem[OF assms(2)] assms(4) by auto
  let ?h1 = "put_cnode i (Some (n\<lparr>nd_string := Some key, nd_const := constant_key\<rparr>)) h"
  have h1: "holds_tree ?h1 a v k xs ts S"
    using i n(1) assms(1) by (intro holds_other[OF assms(1)]) (auto simp: holds_tree_def heap_ok_def)
  have d1: "detached ?h1 i" "detached ?h1 a = detached h a" using n i by (simp_all add: detached_def)
  have out: "same_outside U h h'" if "same_outside U ?h1 h'" "i \<in> U" for U h'
  proof -
    have "ch_node h x \<noteq> None" if "ch_node h' x \<noteq> None" for x
      using that \<open>same_outside U ?h1 h'\<close> n(1) by (cases "x = i") (auto simp: same_outside_def)
    moreover have "ch_node h' x = ch_node h x" if "x \<notin> U" for x
      using that \<open>same_outside U ?h1 h'\<close> \<open>i \<in> U\<close> by (auto simp: same_outside_def)
    ultimately show ?thesis using \<open>same_outside U ?h1 h'\<close> by (simp add: same_outside_def)
  qed
  have "settles b (add_item_to_array ?h1 (Some a) (Some i)) ?Q"
    using i d1(2) out
    by (intro settles_mono[OF add_tree_ok[OF h1 rename_tree[OF assms(2) n(1)] d1(1) assms(4)]]) auto
  then have add: "settles b (cbind (store_node (\<lambda>n. n\<lparr>nd_string := Some key, nd_const := constant_key\<rparr>) i h) (\<lambda>h.
      add_item_to_array h (Some a) (Some i))) ?Q" by (rule settles_store[OF n(1)])
  have "settles b (if constant_key then cret (Some ()) else ctry LDAlloc) (\<lambda>r. b \<or> constant_key \<longrightarrow> r \<noteq> None)"
    using settles_ctry_alloc[of b] by auto
  then show ?thesis
    unfolding add_item_to_object_def option.case prod.case by (rule settles_cbind) (use add in auto)
qed

section \<open>Lemmas: iteration\<close>

text \<open>The loop of a client over a value: the key and the value at every position.\<close>

primrec iterate :: "nat \<Rightarrow> cheap \<Rightarrow> cptr \<Rightarrow> (cstring \<times> cptr) list cmd" where
  "iterate 0 h iter = cfault OutOfFuel"
| "iterate (Suc fuel) h iter =
     (if iter = None then cret []
      else
        cbind (LDIter_Key h iter) (\<lambda>key.
        cbind (LDIter_Next h iter) (\<lambda>next_iter.
        cbind (iterate fuel h next_iter) (\<lambda>rest. cret ((key, LDIter_Val iter) # rest)))))"

lemma iterate_ok:
  "members_in d h p xs \<Longrightarrow> length xs < fuel \<Longrightarrow>
   \<exists>as. (\<forall>m. iterate fuel h p m = (Val (zip (map (\<lambda>(k, _). Some k) xs) (map Some as)), m)) \<and>
     list_all2 (\<lambda>a (_, j). json_at h a j) as xs"
proof (induction xs arbitrary: p fuel)
  case Nil
  then have "p = None" by (cases p) (auto dest: members_inD)
  with Nil.prems(2) show ?case by (cases fuel) (auto simp: cret_def)
next
  case (Cons x xs)
  then obtain a where p: "p = Some a" by (cases p) (auto dest: members_inD)
  with members_inD(2) Cons.prems(1) obtain n k j where n: "ch_node h a = Some n" "x = (k, j)" "nd_string n = Some k"
      "value_in d h a j" "members_in d h (nd_next n) xs" by blast
  obtain f where f: "fuel = Suc f" "length xs < f" using Cons.prems(2) by (cases fuel) auto
  from Cons.IH[OF n(5) f(2)] obtain as where as: "\<And>m. iterate f h (nd_next n) m = (Val (zip (map (\<lambda>(k, _). Some k) xs) (map Some as)), m)"
      "list_all2 (\<lambda>a (_, j). json_at h a j) as xs" by blast
  have "json_at h a j" using n(4) by (auto simp: value_in_def json_at_def)
  with as n p f show ?case
    by (intro exI[of _ "a # as"]) (simp add: LDIter_Key_def LDIter_Next_def LDIter_Val_def field_def cbind_def load_def cret_def)
qed

lemma size_loop_reads:
  "reads h p ts \<Longrightarrow> length ts \<le> fuel \<Longrightarrow> size_loop fuel h p k m = (Val (k + length ts), m)"
proof (induction ts arbitrary: p fuel k)
  case Nil
  then have "p = None" by (cases p) (auto simp: reads_Some_iff)
  then show ?case by (cases fuel) (auto simp: cret_def)
next
  case (Cons t ts)
  then obtain a n where a: "p = Some a" "ch_node h a = Some n" "reads h (nd_next n) ts"
    by (cases p) (auto simp: reads_Some_tree)
  obtain f where f: "fuel = Suc f" "length ts \<le> f" using Cons.prems(2) by (cases fuel) auto
  with Cons.IH[OF a(3) f(2), of "Suc k"] a show ?case by (simp add: heap_simps)
qed

lemma is_collection_ok:
  "ch_node h a = Some n \<Longrightarrow> is_collection h (Some a) m = (Val (nd_value n = CjObject \<or> nd_value n = CjArray), m)"
  unfolding is_collection_def is_object_def is_array_def item_is_def
  by (cases "nd_value n") (simp_all add: cbind_def load_def cret_def)

section \<open>Properties\<close>

text \<open>C17. A value built from an array builder is independent of it: the builder may go on growing, the
  value stays the array of the elements so far, and the builder then has one element more. Freeing the
  builder frees its nodes and all its elements and leaves the value intact. None of the calls faults.\<close>

theorem built_value_independent:
  assumes "holds_tree h a CjArray k xs ts S" and "detached h a"
    and "whole h i t T" and "detached h i" and "insert a S \<inter> T = {}"
    and "LDArray_Build (Some a) h m = (Val (Some c, h1), m1)"
  shows "\<exists>h2 m2 h3. LDArray_Add (Some a) (Some i) h1 m1 = (Val h2, m2) \<and> LDArray_Free (Some a) h2 m2 = (Val h3, m2) \<and>
    tree_at h2 a (CNode CjArray k (ts @ [t])) \<and> tree_at h2 c (CNode CjArray k ts) \<and>
    tree_at h3 c (CNode CjArray k ts) \<and> (\<forall>x\<in>insert a (S \<union> T). ch_node h3 x = None)"
proof -
  let ?t = "CNode CjArray k ts"
  have ok: "heap_ok h" using assms(1) by (simp add: holds_tree_def)
  have at: "tree_at h a ?t" by (rule whole_tree[OF holds_whole[OF assms(1)]])
  have "copied False h ?t (Some c, h1)"
    using settles_Val[OF cJSON_Duplicate_ok[OF ok at]] assms(6) by (simp add: LDArray_Build_def)
  then obtain C where C: "grown C h h1" "whole h1 c ?t C" by (auto simp: copied_def)
  have old: "ch_node h1 x = ch_node h x \<and> x \<notin> C" if "x \<in> insert a (S \<union> T)" for x
    using grown_old[OF C(1) ok] holds_nodes[OF assms(1)] whole_nodes[OF assms(3)] that by blast
  have ok1: "heap_ok h1" using C(1) by (simp add: grown_def)
  have h1: "holds_tree h1 a CjArray k xs ts S" "whole h1 i t T" "detached h1 i" "detached h1 a"
    using old ok1 assms(2,4) whole_mem[OF assms(3)] holds_other[OF assms(1), of h1] whole_other[OF assms(3), of h1]
    by (auto simp: detached_def)
  obtain h2 m2 where h2: "LDArray_Add (Some a) (Some i) h1 m1 = (Val h2, m2)" "holds_tree h2 a CjArray k (xs @ [i]) (ts @ [t]) (S \<union> T)"
      "same_outside (insert a (S \<union> T)) h1 h2" "detached h2 a"
    using settles_returns[OF LDArray_Add_ok[OF h1(1-3) assms(5)], of m1] h1(4) by blast
  have "ch_node h2 x = ch_node h1 x" if "x \<in> C" for x using h2(3) old that by (auto simp: same_outside_def)
  then have c2: "whole h2 c ?t C" by (rule whole_other[OF C(2)])
  have w2: "whole h2 a (CNode CjArray k (ts @ [t])) (insert a (S \<union> T))" by (rule holds_whole[OF h2(2)])
  have "LDArray_Free (Some a) h2 m2 = (Val (without (insert a (S \<union> T)) h2), m2)"
    unfolding LDArray_Free_def using h2(2) by (intro cJSON_Delete_ok whole_owns[OF w2 h2(4)]) (simp add: holds_tree_def)
  moreover have "whole (without (insert a (S \<union> T)) h2) c ?t C" using old by (intro whole_other[OF c2]) auto
  ultimately show ?thesis using h2(1) whole_tree[OF w2] whole_tree[OF c2] whole_tree by fastforce
qed

text \<open>The array builder at 0 of \<open>example_heap\<close> with the new item at 6.\<close>

lemma example_builder:
  "holds_tree example_heap 0 CjArray None [1, 2] [CNode CjArray None [CNode CjArray None []], CNode CjArray None []] {1, 3, 2}"
  "detached example_heap 0" "whole example_heap 6 (CNode CjArray None []) {6}" "detached example_heap 6"
proof -
  have leaf: "chain example_heap (Some 3) [CNode CjArray None []] {3}"
    using chain.chain_Some[of example_heap 3 "plain_node None None None" "[]" "{}" "[]" "{}"]
    by (simp add: example_heap_def heap_of_node plain_node_def chain.chain_None)
  have w1: "whole example_heap 1 (CNode CjArray None [CNode CjArray None []]) {1, 3}"
    unfolding whole_def using leaf
    by (intro exI[of _ "plain_node (Some 2) None (Some 3)"] exI[of _ "[CNode CjArray None []]"] exI[of _ "{3}"])
      (simp add: example_heap_def heap_of_node plain_node_def)
  have w2: "whole example_heap 2 (CNode CjArray None []) {2}" and w6: "whole example_heap 6 (CNode CjArray None []) {6}"
    unfolding whole_def by (auto simp: example_heap_def heap_of_node plain_node_def intro: chain.chain_None)
  show "whole example_heap 6 (CNode CjArray None []) {6}" by (rule w6)
  have "forest example_heap [1, 2] [CNode CjArray None [CNode CjArray None []], CNode CjArray None []] {1, 3, 2}"
    using forest_append[OF forest_append[OF _ w1, of "[]" "[]" "{}"] w2] by (simp add: insert_commute)
  moreover have "ch_node example_heap 0 = Some (plain_node None None (Some 1))"
    by (simp add: example_heap_def heap_of_node)
  ultimately show "holds_tree example_heap 0 CjArray None [1, 2] [CNode CjArray None [CNode CjArray None []], CNode CjArray None []] {1, 3, 2}"
    using example_heap_lists(1) unfolding holds_tree_def child_list_def by (simp add: plain_node_def)
  show "detached example_heap 0" "detached example_heap 6"
    by (simp_all add: detached_def example_heap_def heap_of_node plain_node_def)
qed

theorem built_value_independent_witness:
  "\<exists>c h1 h2 m2 h3. LDArray_Build (Some 0) example_heap [] = (Val (Some c, h1), []) \<and>
    LDArray_Add (Some 0) (Some 6) h1 [] = (Val h2, m2) \<and> LDArray_Free (Some 0) h2 m2 = (Val h3, m2) \<and>
    tree_at h3 c (CNode CjArray None [CNode CjArray None [CNode CjArray None []], CNode CjArray None []])"
proof -
  have "tree_at example_heap 0 (CNode CjArray None [CNode CjArray None [CNode CjArray None []], CNode CjArray None []])"
    "heap_ok example_heap" by (rule example_heap_tree)+
  from settles_plenty[OF cJSON_Duplicate_ok[OF this(2,1)]] obtain c h1 where
    "LDArray_Build (Some 0) example_heap [] = (Val (Some c, h1), [])"
    by (fastforce simp: LDArray_Build_def copied_def split: option.splits)
  with built_value_independent[OF example_builder _ this] show ?thesis by fastforce
qed

text \<open>A clone is equal to its original and holds the same value, where no object has two members with
  the same name.\<close>

theorem clone_equals_original:
  assumes "heap_ok h" and "json_at h a j" and "unique_names j" and "LDValue_Clone (Some a) h m = (Val (Some c, h1), m1)"
  shows "json_at h1 c j \<and> LDValue_Equal h1 (Some a) (Some c) m' = (Val True, m')"
proof -
  obtain t where t: "tree_at h a t" "tree_json t = Some j" using assms(2) by (auto simp: json_at_def)
  have "copied False h t (Some c, h1)"
    using settles_Val[OF cJSON_Duplicate_ok[OF assms(1) t(1)]] assms(4) by (simp add: LDValue_Clone_def)
  then obtain C where C: "grown C h h1" "whole h1 c t C" by (auto simp: copied_def)
  have at: "json_at h1 a j" "json_at h1 c j" "heap_ok h1"
    using t grown_tree[OF C(1) assms(1)] whole_tree[OF C(2)] C(1) by (auto simp: json_at_def grown_def)
  with compare_ok[OF value_in_json[OF at(1,3)] value_in_json[OF at(2,3)] assms(3,3) at(3)]
  show ?thesis by (simp add: LDValue_Equal_def cJSON_Compare_def)
qed

theorem clone_equals_original_witness:
  "\<exists>c h1. LDValue_Clone (Some 0) (pair_heap (''a'', 1) (''b'', 2) (''b'', 2) (''a'', 1)) [] = (Val (Some c, h1), []) \<and>
     LDValue_Equal h1 (Some 0) (Some c) [] = (Val True, [])"
proof -
  let ?h = "pair_heap (''a'', 1) (''b'', 2) (''b'', 2) (''a'', 1)"
  obtain t where "tree_at ?h 0 t" using pair_heap_json(2)[of "''a''" 1 "''b''" 2 "''b''" 2 "''a''" 1] unfolding json_at_def by blast
  from settles_plenty[OF cJSON_Duplicate_ok[OF pair_heap_json(1) this]] obtain c h1 where
    "LDValue_Clone (Some 0) ?h [] = (Val (Some c, h1), [])"
    by (fastforce simp: LDValue_Clone_def copied_def split: option.splits)
  with clone_equals_original[OF pair_heap_json(1,2) _ this] show ?thesis by fastforce
qed

text \<open>The loop over an object value with \<open>LDValue_GetIter\<close>, \<open>LDIter_Key\<close>, \<open>LDIter_Val\<close> and
  \<open>LDIter_Next\<close> ends and visits every member once, in order, with its name and its value, and
  \<open>LDValue_Count\<close> is the number of members (modulo \<open>2\<^sup>32\<close>).\<close>

theorem iterator_visits_members:
  assumes "heap_ok h" and "json_at h a (JObject xs)"
  shows "\<exists>as. cbind (LDValue_GetIter h (Some a)) (iterate (Suc (ch_limit h)) h) m =
      (Val (zip (map (\<lambda>(k, _). Some k) xs) (map Some as)), m) \<and>
    list_all2 (\<lambda>a (_, j). json_at h a j) as xs \<and> LDValue_Count h (Some a) m = (Val (of_nat (length xs)), m)"
proof -
  obtain n where n: "ch_node h a = Some n" "nd_value n = CjObject" "members_in (ch_limit h) h (nd_child n) xs"
    using value_inD[OF value_in_json[OF assms(2,1)]] by auto
  obtain ts where ts: "reads h (nd_child n) ts" "length ts = length xs"
    using n(3) by (auto simp: members_in_def dest: those_length)
  have "length xs < Suc (ch_limit h)" using in_length(2)[OF n(3) assms(1)] by simp
  from iterate_ok[OF n(3) this] obtain as where as: "\<And>m. iterate (Suc (ch_limit h)) h (nd_child n) m =
      (Val (zip (map (\<lambda>(k, _). Some k) xs) (map Some as)), m)" "list_all2 (\<lambda>a (_, j). json_at h a j) as xs" by blast
  have "LDValue_GetIter h (Some a) m = (Val (nd_child n), m)"
    using n(1,2) is_collection_ok[OF n(1)] by (simp add: LDValue_GetIter_def field_def cbind_def[of "is_collection _ _"] load_def cbind_def[of "cret _"] cret_def)
  moreover have "size_loop (ch_limit h) h (nd_child n) 0 m = (Val (length xs), m)"
    using size_loop_reads[OF ts(1), of "ch_limit h" 0 m] ts(2) in_length(2)[OF n(3) assms(1)] by simp
  then have "cJSON_GetArraySize h (Some a) m = (Val (sint (of_nat (length xs) :: u32)), m)"
    using n(1) by (simp add: cJSON_GetArraySize_def heap_simps cbind_def[of "size_loop _ _ _ _"] cret_def)
  then have "LDValue_Count h (Some a) m = (Val (of_nat (length xs)), m)"
    using n(1,2) is_collection_ok[OF n(1)]
    by (simp add: LDValue_Count_def cbind_def[of "is_collection _ _"] cbind_def[of "cJSON_GetArraySize _ _"] cret_def)
  ultimately show ?thesis using as by (auto simp: cbind_def[of "LDValue_GetIter _ _"])
qed

theorem iterator_visits_members_witness:
  "\<exists>as. cbind (LDValue_GetIter (pair_heap (''a'', 1) (''b'', 2) (''b'', 2) (''a'', 1)) (Some 0))
        (iterate (Suc (ch_limit (pair_heap (''a'', 1) (''b'', 2) (''b'', 2) (''a'', 1))))
           (pair_heap (''a'', 1) (''b'', 2) (''b'', 2) (''a'', 1))) [] =
      (Val (zip [Some ''a'', Some ''b''] (map Some as)), []) \<and>
    LDValue_Count (pair_heap (''a'', 1) (''b'', 2) (''b'', 2) (''a'', 1)) (Some 0) [] = (Val 2, [])"
  using iterator_visits_members[OF pair_heap_json(1,2), of "''a''" 1 "''b''" 2 "''b''" 2 "''a''" 1 "[]"] by auto

text \<open>
  A value whose key cannot be copied is lost: \<open>LDObject_AddOwnedKey\<close> returns nothing, leaves object and
  value as they were, and the caller, who must not use the value any more, cannot free it.
\<close>

theorem owned_key_value_lost:
  "LDObject_AddOwnedKey (Some a) (Some key) (Some i) h (False # m) = (Val h, m)"
  by (simp add: LDObject_AddOwnedKey_def cJSON_AddItemToObject_def add_item_to_object_def cbind_def ctry_def cret_def)

end
