(* ===== verification/Utility.thy ===== *)
theory Utility
  imports Json
begin

text \<open>
  Helpers of \<open>c-sdk-common/src/utility.c\<close> and \<open>c-sdk-common/src/ldtime.c\<close>: replacing an owned
  string, random identifiers, and timestamps. What the operating system answers is an
  argument: \<open>rng i\<close> is the outcome of the \<open>i\<close>th call of \<open>LDi_random\<close>, and a clock is a pair of
  seconds and nanoseconds or a failure.
\<close>

section \<open>Owned strings\<close>

definition LDSetString :: "cstring \<Rightarrow> cstring \<Rightarrow> (bool \<times> cstring) cmd" where
  "LDSetString target value =
     (case value of
        Some v \<Rightarrow>
          cbind (ctry (LDStrDup v)) (\<lambda>tmp.
            case tmp of Some t \<Rightarrow> cret (True, Some t) | None \<Rightarrow> cret (False, target))
      | None \<Rightarrow> cret (True, None))"

lemma LDSetString_ok [alloc_ok]: "LDSetString target value [] = (Val (True, value), [])"
  by (cases "value") (simp_all add: LDSetString_def alloc_ok)

lemma LDSetString_cases:
  "\<exists>m'. LDSetString target value m = (Val (True, value), m') \<or>
        LDSetString target value m = (Val (False, target), m')"
  by (cases "value"; cases m rule: LDAlloc.cases) (simp_all add: LDSetString_def cmd_simps)

lemma no_fault_LDSetString [intro!, simp]: "no_fault (LDSetString target value)"
  by (auto simp: LDSetString_def split: option.splits)

section \<open>Random identifiers\<close>

definition alphabet :: string where
  "alphabet = ''0123456789ABCDEF''"

text \<open>The characters written before a call fails stay in the buffer.\<close>

fun randomHex_loop :: "(nat \<Rightarrow> u32 option) \<Rightarrow> nat \<Rightarrow> nat \<Rightarrow> string \<Rightarrow> bool \<times> string" where
  "randomHex_loop rng i 0 buffer = (True, buffer)"
| "randomHex_loop rng i (Suc n) buffer =
     (case rng i of
        None \<Rightarrow> (False, buffer)
      | Some r \<Rightarrow> randomHex_loop rng (Suc i) n (buffer @ [alphabet ! unat (r mod 16)]))"

definition LDi_randomHex :: "(nat \<Rightarrow> u32 option) \<Rightarrow> nat \<Rightarrow> bool \<times> string" where
  "LDi_randomHex rng bufferSize = randomHex_loop rng 0 bufferSize []"

definition LD_UUID_SIZE :: nat where "LD_UUID_SIZE = 36"

definition LDi_UUIDv4 :: "(nat \<Rightarrow> u32 option) \<Rightarrow> bool \<times> string" where
  "LDi_UUIDv4 rng =
     (case LDi_randomHex rng LD_UUID_SIZE of
        (False, buffer) \<Rightarrow> (False, buffer)
      | (True, buffer) \<Rightarrow>
          (True, buffer[8 := CHR ''-'', 13 := CHR ''-'', 18 := CHR ''-'', 23 := CHR ''-'']))"

lemma hex_digit_in_alphabet: "alphabet ! unat ((r :: u32) mod 16) \<in> set alphabet"
proof (rule nth_mem)
  have "unat (r mod 16) < 16" by (simp add: unat_mod)
  then show "unat (r mod 16) < length alphabet" by (simp add: alphabet_def)
qed

lemma randomHex_loop_shape:
  "randomHex_loop rng i n buffer = (ok, s) \<Longrightarrow>
   \<exists>t. s = buffer @ t \<and> set t \<subseteq> set alphabet \<and> length t \<le> n \<and> (ok \<longrightarrow> length t = n)"
proof (induction n arbitrary: i buffer)
  case (Suc n)
  show ?case
  proof (cases "rng i")
    case (Some r)
    with Suc.prems obtain t where "s = (buffer @ [alphabet ! unat (r mod 16)]) @ t"
        "set t \<subseteq> set alphabet" "length t \<le> n" "ok \<longrightarrow> length t = n"
      using Suc.IH by fastforce
    then show ?thesis
      using hex_digit_in_alphabet[of r] by (intro exI[of _ "alphabet ! unat (r mod 16) # t"]) auto
  qed (use Suc.prems in simp)
qed simp

lemma randomHex_loop_total:
  "(\<And>j. rng j \<noteq> None) \<Longrightarrow> fst (randomHex_loop rng i n buffer)"
  by (induction n arbitrary: i buffer) (auto split: option.splits)

lemma LDi_randomHex_shape:
  assumes "LDi_randomHex rng n = (ok, s)"
  shows "set s \<subseteq> set alphabet" and "length s \<le> n" and "ok \<Longrightarrow> length s = n"
  using randomHex_loop_shape[of rng 0 n "[]" ok s] assms by (auto simp: LDi_randomHex_def)

section \<open>Clocks and timestamps\<close>

text \<open>\<open>floor(sec * 1000 + nsec / 1000000)\<close>\<close>

definition LDi_timeSpecToMilliseconds :: "int \<times> int \<Rightarrow> double" where
  "LDi_timeSpecToMilliseconds ts =
     of_int \<lfloor>of_int (fst ts) * 1000 + (of_int (snd ts) / 1000000 :: double)\<rfloor>"

definition LDi_getMilliseconds :: "(int \<times> int) option \<Rightarrow> double cmd" where
  "LDi_getMilliseconds clock =
     (case clock of
        Some ts \<Rightarrow> cret (LDi_timeSpecToMilliseconds ts)
      | None \<Rightarrow> cfault AssertFailed)"

record LDTimestamp =
  ts_ms :: double

definition LDTimestamp_InitEmpty :: LDTimestamp where
  "LDTimestamp_InitEmpty = \<lparr>ts_ms = -1\<rparr>"

definition LDTimestamp_InitNow :: "(int \<times> int) option \<Rightarrow> LDTimestamp cmd" where
  "LDTimestamp_InitNow clock = cbind (LDi_getMilliseconds clock) (\<lambda>ms. cret \<lparr>ts_ms = ms\<rparr>)"

definition LDTimestamp_InitUnixSeconds :: "int \<Rightarrow> LDTimestamp cmd" where
  "LDTimestamp_InitUnixSeconds unixSeconds =
     cbind (LD_ASSERT (unixSeconds \<ge> 0)) (\<lambda>_. cret \<lparr>ts_ms = 1000 * of_int unixSeconds\<rparr>)"

definition LDTimestamp_InitUnixMillis :: "double \<Rightarrow> LDTimestamp cmd" where
  "LDTimestamp_InitUnixMillis unixMilliseconds =
     cbind (LD_ASSERT (unixMilliseconds \<ge> 0)) (\<lambda>_. cret \<lparr>ts_ms = unixMilliseconds\<rparr>)"

definition LDTimestamp_IsEmpty :: "LDTimestamp \<Rightarrow> bool" where
  "LDTimestamp_IsEmpty t = (ts_ms t = -1)"

definition LDTimestamp_IsSet :: "LDTimestamp \<Rightarrow> bool" where
  "LDTimestamp_IsSet t = (ts_ms t \<ge> 0)"

definition LDTimestamp_Before :: "LDTimestamp \<Rightarrow> LDTimestamp \<Rightarrow> bool cmd" where
  "LDTimestamp_Before a b =
     cbind (LD_ASSERT (LDTimestamp_IsSet a)) (\<lambda>_.
     cbind (LD_ASSERT (LDTimestamp_IsSet b)) (\<lambda>_. cret (ts_ms a < ts_ms b)))"

definition LDTimestamp_After :: "LDTimestamp \<Rightarrow> LDTimestamp \<Rightarrow> bool cmd" where
  "LDTimestamp_After a b =
     cbind (LD_ASSERT (LDTimestamp_IsSet a)) (\<lambda>_.
     cbind (LD_ASSERT (LDTimestamp_IsSet b)) (\<lambda>_. cret (ts_ms a > ts_ms b)))"

definition LDTimestamp_Equal :: "LDTimestamp \<Rightarrow> LDTimestamp \<Rightarrow> bool cmd" where
  "LDTimestamp_Equal a b =
     cbind (LD_ASSERT (LDTimestamp_IsSet a)) (\<lambda>_.
     cbind (LD_ASSERT (LDTimestamp_IsSet b)) (\<lambda>_. cret (ts_ms a = ts_ms b)))"

definition LDTimestamp_AsUnixMillis :: "LDTimestamp \<Rightarrow> double cmd" where
  "LDTimestamp_AsUnixMillis t = cbind (LD_ASSERT (LDTimestamp_IsSet t)) (\<lambda>_. cret (ts_ms t))"

definition LDTimestamp_MarshalUnixMillis :: "LDTimestamp \<Rightarrow> json cmd" where
  "LDTimestamp_MarshalUnixMillis t =
     (if LDTimestamp_IsEmpty t then LDNewNull else LDNewNumber (ts_ms t))"

definition LDTimer_Elapsed :: "double \<Rightarrow> (int \<times> int) option \<Rightarrow> double cmd" where
  "LDTimer_Elapsed timer clock = cbind (LDi_getMilliseconds clock) (\<lambda>nowMs. cret (nowMs - timer))"

definition LDi_normalize :: "double \<Rightarrow> double \<Rightarrow> double \<Rightarrow> double \<Rightarrow> double \<Rightarrow> double" where
  "LDi_normalize n nmin nmax omin omax = (n - nmin) * (omax - omin) / (nmax - nmin) + omin"

lemmas timestamp_defs = LDTimestamp_IsEmpty_def LDTimestamp_IsSet_def LDTimestamp_Before_def
  LDTimestamp_After_def LDTimestamp_Equal_def LDTimestamp_AsUnixMillis_def
  LDTimestamp_InitEmpty_def LDTimestamp_InitNow_def LDi_getMilliseconds_def

text \<open>A timestamp is empty or set, never both, once it comes from one of the constructors.\<close>

lemma clock_ms_nonneg: "0 \<le> s \<Longrightarrow> 0 \<le> ns \<Longrightarrow> 0 \<le> LDi_timeSpecToMilliseconds (s, ns)"
  by (simp add: LDi_timeSpecToMilliseconds_def)

lemma clock_ms_mono:
  "s \<le> s' \<Longrightarrow> 0 \<le> ns \<Longrightarrow> ns < 1000000000 \<Longrightarrow> 0 \<le> ns' \<Longrightarrow> (s = s' \<longrightarrow> ns \<le> ns') \<Longrightarrow>
   LDi_timeSpecToMilliseconds (s, ns) \<le> LDi_timeSpecToMilliseconds (s', ns')"
proof -
  assume a: "s \<le> s'" "0 \<le> ns" "ns < 1000000000" "0 \<le> ns'" "s = s' \<longrightarrow> ns \<le> ns'"
  then have "s * 1000000000 + ns \<le> s' * 1000000000 + ns'" by (cases "s = s'") auto
  then have "of_int (s * 1000000000 + ns) \<le> (of_int (s' * 1000000000 + ns') :: double)"
    by (simp only: of_int_le_iff)
  then show ?thesis
    unfolding LDi_timeSpecToMilliseconds_def by (auto intro!: floor_mono simp: field_simps)
qed

lemma LDi_normalize_bounds:
  assumes "nmin < nmax" and "nmin \<le> n" and "n \<le> nmax" and "omin \<le> omax"
  shows "omin \<le> LDi_normalize n nmin nmax omin omax" and "LDi_normalize n nmin nmax omin omax \<le> omax"
proof -
  let ?t = "(n - nmin) / (nmax - nmin)"
  have t: "0 \<le> ?t" "?t \<le> 1" using assms by (simp_all add: divide_le_eq)
  have eq: "LDi_normalize n nmin nmax omin omax = ?t * (omax - omin) + omin"
    by (simp add: LDi_normalize_def)
  show "omin \<le> LDi_normalize n nmin nmax omin omax" using assms by (simp add: LDi_normalize_def)
  have "?t * (omax - omin) \<le> 1 * (omax - omin)" by (rule mult_right_mono) (use t assms(4) in auto)
  then show "LDi_normalize n nmin nmax omin omax \<le> omax" by (simp add: eq)
qed

section \<open>Properties\<close>

text \<open>A payload identifier has 36 characters: hyphens at the positions 8, 13, 18 and 23 and
  hexadecimal digits everywhere else.\<close>

theorem UUIDv4_shape:
  assumes "LDi_UUIDv4 rng = (True, s)"
  shows "length s = 36 \<and>
    (\<forall>i < 36. if i \<in> {8, 13, 18, 23} then s ! i = CHR ''-'' else s ! i \<in> set alphabet)"
proof -
  obtain b where b: "LDi_randomHex rng 36 = (True, b)"
      "s = b[8 := CHR ''-'', 13 := CHR ''-'', 18 := CHR ''-'', 23 := CHR ''-'']"
    using assms by (auto simp: LDi_UUIDv4_def LD_UUID_SIZE_def split: prod.splits bool.splits)
  have len: "length b = 36" using LDi_randomHex_shape(3)[OF b(1)] by simp
  have "b ! i \<in> set alphabet" if "i < 36" for i
    by (rule subsetD[OF LDi_randomHex_shape(1)[OF b(1)] nth_mem]) (simp add: that len)
  with b(2) len show ?thesis by (auto simp: nth_list_update)
qed

theorem UUIDv4_shape_witness:
  "length (snd (LDi_UUIDv4 (\<lambda>i. Some 7))) = 36"
proof -
  have "fst (LDi_UUIDv4 (\<lambda>i. Some 7))"
    using randomHex_loop_total[of "\<lambda>i. Some 7" 0 36 "[]"]
    by (auto simp: LDi_UUIDv4_def LDi_randomHex_def LD_UUID_SIZE_def split: prod.splits bool.splits)
  then have "LDi_UUIDv4 (\<lambda>i. Some 7) = (True, snd (LDi_UUIDv4 (\<lambda>i. Some 7)))"
    by (cases "LDi_UUIDv4 (\<lambda>i. Some 7)") auto
  from UUIDv4_shape[OF this] show ?thesis by blast
qed

end
