(* ===== verification/Platform.thy ===== *)
theory Platform
  imports Utility
begin

text \<open>
  The platform utilities of \<open>src/ldutil.c\<close> on Linux: random text and the identifier of the device, which is
  read from a file. What the calls of the C library answer is a record: whether the file can be opened
  and positioned, its size and the bytes that are read.
\<close>

definition LDi_randomhex :: "(nat \<Rightarrow> u32 option) \<Rightarrow> nat \<Rightarrow> bool \<times> string" where
  "LDi_randomhex rng buffersize = randomHex_loop rng 0 buffersize []"

text \<open>\<open>LDi_millisleep\<close>: the seconds to sleep, rounded to the nearest; the sum may leave the range of \<open>int\<close>.\<close>

definition LDi_millisleep :: "int \<Rightarrow> int cmd" where
  "LDi_millisleep ms = (if ms + 500 > INT_MAX then cfault Undefined else cret (c_trunc (of_int (ms + 500) / 1000)))"

record os_file =
  fl_opens :: bool
  fl_seeks_end :: bool
  fl_size :: "nat option"
  fl_seeks_start :: bool
  fl_bytes :: string

text \<open>\<open>fread\<close> stores at most the bytes asked for; a short read has stored some as well.\<close>

definition store_bytes :: "string \<Rightarrow> string \<Rightarrow> string cmd" where
  "store_bytes bytes buffer =
     (if length bytes \<le> length buffer then cret (bytes @ drop (length bytes) buffer) else cfault Undefined)"

definition readfile :: "os_file \<Rightarrow> string \<Rightarrow> nat \<Rightarrow> (int \<times> string) cmd" where
  "readfile handle buffer buffersize =
     (if \<not> fl_opens handle then cret (- 1, buffer)
      else if \<not> fl_seeks_end handle then cret (- 1, buffer)
      else
        (case fl_size handle of
           None \<Rightarrow> cret (- 1, buffer)
         | Some filesize \<Rightarrow>
             (if filesize > buffersize then cret (- 1, buffer)
              else if \<not> fl_seeks_start handle then cret (- 1, buffer)
              else
                (let bytes = take filesize (fl_bytes handle) in
                 cbind (store_bytes bytes buffer) (\<lambda>buffer.
                   if length bytes \<noteq> filesize then cret (- 1, buffer)
                   else cret (int filesize, buffer))))))"

text \<open>The buffer of 256 bytes is cleared and one byte is never written.\<close>

definition LDi_deviceid :: "os_file \<Rightarrow> string cmd" where
  "LDi_deviceid machine_id =
     cbind (readfile machine_id (replicate 256 nul) 255) (\<lambda>(size, buffer).
       if size = - 1 then cnull
       else if nul \<notin> set buffer then cfault Undefined
       else LDStrDup (c_str buffer))"

text \<open>What a file gives to read: its bytes, where every call succeeds and they fit.\<close>

definition readable :: "os_file \<Rightarrow> nat \<Rightarrow> string option" where
  "readable handle buffersize =
     (case fl_size handle of
        None \<Rightarrow> None
      | Some n \<Rightarrow>
          (if fl_opens handle \<and> fl_seeks_end handle \<and> fl_seeks_start handle \<and> n \<le> buffersize \<and> n \<le> length (fl_bytes handle)
           then Some (take n (fl_bytes handle)) else None))"

lemma readfile_ok:
  assumes "buffersize \<le> length buffer"
  shows "\<exists>buf. readfile handle buffer buffersize m =
    (Val (case readable handle buffersize of None \<Rightarrow> (- 1, buf)
      | Some bytes \<Rightarrow> (int (length bytes), bytes @ drop (length bytes) buffer)), m)"
proof (cases "fl_opens handle \<and> fl_seeks_end handle \<and> fl_seeks_start handle \<and> (\<exists>n. fl_size handle = Some n \<and> n \<le> buffersize)")
  case True
  then obtain n where n: "fl_size handle = Some n" "n \<le> buffersize" "fl_opens handle" "fl_seeks_end handle" "fl_seeks_start handle"
    by auto
  let ?bytes = "take n (fl_bytes handle)"
  have "length ?bytes \<le> length buffer" using n(2) assms by auto
  then have "readfile handle buffer buffersize m =
      (Val (if length ?bytes \<noteq> n then - 1 else int n, ?bytes @ drop (length ?bytes) buffer), m)"
    using n by (simp add: readfile_def store_bytes_def Let_def cbind_def cret_def)
  then show ?thesis using n by (auto simp: readable_def)
qed (auto simp: readfile_def readable_def cret_def split: option.splits)

text \<open>
  The identifier of a device is read without leaving the buffer, whatever the file: it is the text of the
  file up to the first byte 0, shorter than the buffer, and a file of more than 255 bytes is refused
  as a whole. There is one exactly where the file can be read and the copy allocated.
\<close>

theorem deviceid_bounded:
  "LDi_deviceid machine_id m =
     (case readable machine_id 255 of None \<Rightarrow> (Null, m) | Some bytes \<Rightarrow> LDStrDup (c_str bytes) m)"
  "readable machine_id 255 = Some bytes \<Longrightarrow> length (c_str bytes) \<le> 255"
proof -
  show short: "readable machine_id 255 = Some bytes \<Longrightarrow> length (c_str bytes) \<le> 255" for bytes
    using length_takeWhile_le[of "\<lambda>c. c \<noteq> nul" bytes] by (auto simp: readable_def c_str_def split: option.splits if_splits)
  obtain buf where buf: "readfile machine_id (replicate 256 nul) 255 m =
      (Val (case readable machine_id 255 of None \<Rightarrow> (- 1, buf)
        | Some bytes \<Rightarrow> (int (length bytes), bytes @ drop (length bytes) (replicate 256 nul))), m)"
    using readfile_ok[of 255 "replicate 256 nul"] by auto
  show "LDi_deviceid machine_id m =
     (case readable machine_id 255 of None \<Rightarrow> (Null, m) | Some bytes \<Rightarrow> LDStrDup (c_str bytes) m)"
  proof (cases "readable machine_id 255")
    case None
    with buf show ?thesis by (simp add: LDi_deviceid_def cbind_def cnull_def)
  next
    case (Some bytes)
    then have "length bytes \<le> 255" by (auto simp: readable_def split: option.splits if_splits)
    then obtain k where k: "256 - length bytes = Suc k" by (cases "256 - length bytes") auto
    then have "drop (length bytes) (replicate 256 nul) = nul # replicate k nul" by (simp only: drop_replicate replicate_Suc)
    moreover have "c_str (bytes @ nul # replicate k nul) = c_str bytes" unfolding c_str_def by (induction bytes) simp_all
    ultimately show ?thesis using buf Some by (simp add: LDi_deviceid_def cbind_def[of "readfile _ _ _"])
  qed
qed

end
