(* ===== verification/Logging.thy ===== *)
theory Logging
  imports Prelude
begin

text \<open>
  The logger of \<open>c-sdk-common/src/logging.c\<close>: a level and a function that the application may set, and
  two functions that write lines to the standard output. The formatted text, before it is cut to the
  buffer, is an argument of \<open>LDi_log\<close>; what loggers were called with and what was written is recorded.
\<close>

datatype LDLogLevel =
    LD_LOG_FATAL | LD_LOG_CRITICAL | LD_LOG_ERROR | LD_LOG_WARNING | LD_LOG_INFO | LD_LOG_DEBUG | LD_LOG_TRACE

primrec level_number :: "LDLogLevel \<Rightarrow> nat" where
  "level_number LD_LOG_FATAL = 0"
| "level_number LD_LOG_CRITICAL = 1"
| "level_number LD_LOG_ERROR = 2"
| "level_number LD_LOG_WARNING = 3"
| "level_number LD_LOG_INFO = 4"
| "level_number LD_LOG_DEBUG = 5"
| "level_number LD_LOG_TRACE = 6"

text \<open>The levels are ordered as the numbers of the enumeration.\<close>

instantiation LDLogLevel :: linorder
begin

definition less_eq_LDLogLevel :: "LDLogLevel \<Rightarrow> LDLogLevel \<Rightarrow> bool" where
  "less_eq_LDLogLevel a b \<longleftrightarrow> level_number a \<le> level_number b"

definition less_LDLogLevel :: "LDLogLevel \<Rightarrow> LDLogLevel \<Rightarrow> bool" where
  "less_LDLogLevel a b \<longleftrightarrow> level_number a < level_number b"

instance
proof
  fix a b :: LDLogLevel
  show "a \<le> b \<Longrightarrow> b \<le> a \<Longrightarrow> a = b"
    by (cases a; cases b) (simp_all add: less_eq_LDLogLevel_def)
qed (auto simp: less_eq_LDLogLevel_def less_LDLogLevel_def)

end

primrec LDLogLevelToString :: "LDLogLevel \<Rightarrow> string" where
  "LDLogLevelToString LD_LOG_FATAL = ''LD_LOG_FATAL''"
| "LDLogLevelToString LD_LOG_CRITICAL = ''LD_LOG_CRITICAL''"
| "LDLogLevelToString LD_LOG_ERROR = ''LD_LOG_ERROR''"
| "LDLogLevelToString LD_LOG_WARNING = ''LD_LOG_WARNING''"
| "LDLogLevelToString LD_LOG_INFO = ''LD_LOG_INFO''"
| "LDLogLevelToString LD_LOG_DEBUG = ''LD_LOG_DEBUG''"
| "LDLogLevelToString LD_LOG_TRACE = ''LD_LOG_TRACE''"

record sdk_log =
  lg_level :: LDLogLevel
  lg_set :: bool
  lg_calls :: "(LDLogLevel \<times> string) list"
  lg_output :: "string list"

definition LDBasicLogger :: "LDLogLevel \<Rightarrow> string \<Rightarrow> sdk_log \<Rightarrow> sdk_log" where
  "LDBasicLogger level line s =
     s\<lparr>lg_output := lg_output s @ [''['' @ LDLogLevelToString level @ ''] '' @ c_str line]\<rparr>"

text \<open>\<open>locked\<close>: whether the lock could be taken.\<close>

definition LDBasicLoggerThreadSafe :: "bool \<Rightarrow> LDLogLevel \<Rightarrow> string \<Rightarrow> sdk_log \<Rightarrow> sdk_log" where
  "LDBasicLoggerThreadSafe locked level line s = (if \<not> locked then s else LDBasicLogger level line s)"

definition LDConfigureGlobalLogger :: "LDLogLevel \<Rightarrow> bool \<Rightarrow> sdk_log \<Rightarrow> sdk_log" where
  "LDConfigureGlobalLogger level logger s = s\<lparr>lg_set := logger, lg_level := level\<rparr>"

text \<open>\<open>vsnprintf\<close> cuts the text to 4095 characters and terminates it.\<close>

definition LDi_log :: "LDLogLevel \<Rightarrow> cstring \<Rightarrow> sdk_log \<Rightarrow> sdk_log" where
  "LDi_log level formatted s =
     (case formatted of
        None \<Rightarrow> s
      | Some line \<Rightarrow>
          (if \<not> lg_set s \<or> level > lg_level s then s
           else s\<lparr>lg_calls := lg_calls s @ [(level, take 4095 (c_str line))]\<rparr>))"

text \<open>After the application has set a logger for a level it is called with exactly the messages of that level
  or a more severe one, in their order, each cut to the buffer.\<close>

theorem log_filters_by_level:
  "lg_calls (foldl (\<lambda>s (level, line). LDi_log level (Some line) s) (LDConfigureGlobalLogger threshold True s) messages) =
     lg_calls s @ map (\<lambda>(level, line). (level, take 4095 (c_str line))) (filter (\<lambda>(level, _). level \<le> threshold) messages)"
proof -
  have "lg_calls (foldl (\<lambda>s (level, line). LDi_log level (Some line) s) t messages) =
      lg_calls t @ map (\<lambda>(level, line). (level, take 4095 (c_str line))) (filter (\<lambda>(level, _). level \<le> threshold) messages)"
    if "lg_set t" "lg_level t = threshold" for t
    using that by (induction messages arbitrary: t) (auto simp: LDi_log_def)
  then show ?thesis by (simp add: LDConfigureGlobalLogger_def)
qed

end
