(* ===== verification/Base64.thy ===== *)
theory Base64
  imports Prelude
begin

text \<open>
  The URL flavour of base64 (\<open>third-party/src/base64.c\<close>) that the SDK uses to put a user into a
  request path. Bytes are characters; a write beyond the allocated output and a table index out
  of range are faults. The size computation is that of a 64 bit \<open>size_t\<close>: the product may wrap
  around, the sums behind the division cannot.
\<close>

unbundle bit_operations_syntax

section \<open>Encoding\<close>

definition base64_table :: string where
  "base64_table = ''ABCDEFGHIJKLMNOPQRSTUVWXYZabcdefghijklmnopqrstuvwxyz0123456789-_''"

definition put_char :: "nat \<Rightarrow> string \<Rightarrow> char \<Rightarrow> string cmd" where
  "put_char olen out c = (if length out < olen then cret (out @ [c]) else cfault Undefined)"

definition put_digit :: "nat \<Rightarrow> string \<Rightarrow> nat \<Rightarrow> string cmd" where
  "put_digit olen out i =
     (if i < length base64_table then put_char olen out (base64_table ! i) else cfault Undefined)"

fun encode_loop :: "nat \<Rightarrow> nat list \<Rightarrow> string \<Rightarrow> (nat list \<times> string) cmd" where
  "encode_loop olen (a # b # c # rest) out =
     cbind (put_digit olen out (drop_bit 2 a)) (\<lambda>out.
     cbind (put_digit olen out (push_bit 4 (a AND 0x03) OR drop_bit 4 b)) (\<lambda>out.
     cbind (put_digit olen out (push_bit 2 (b AND 0x0F) OR drop_bit 6 c)) (\<lambda>out.
     cbind (put_digit olen out (c AND 0x3F)) (\<lambda>out.
       encode_loop olen rest out))))"
| "encode_loop olen rest out = cret (rest, out)"

fun encode_rest :: "nat \<Rightarrow> nat list \<Rightarrow> string \<Rightarrow> string cmd" where
  "encode_rest olen [a] out =
     cbind (put_digit olen out (drop_bit 2 a)) (\<lambda>out.
     cbind (put_digit olen out (push_bit 4 (a AND 0x03))) (\<lambda>out.
     cbind (put_char olen out (CHR ''='')) (\<lambda>out.
       put_char olen out (CHR ''=''))))"
| "encode_rest olen (a # b # rest) out =
     cbind (put_digit olen out (drop_bit 2 a)) (\<lambda>out.
     cbind (put_digit olen out (push_bit 4 (a AND 0x03) OR drop_bit 4 b)) (\<lambda>out.
     cbind (put_digit olen out (push_bit 2 (b AND 0x0F))) (\<lambda>out.
       put_char olen out (CHR ''=''))))"
| "encode_rest olen [] out = cret out"

definition encode_size :: "nat \<Rightarrow> nat" where
  "encode_size n =
     (let olen = (n * 4 mod 2 ^ 64) div 3 + 4; olen = olen + olen div 72 in olen + 1)"

text \<open>The terminator must fit behind the output too.\<close>

definition LDi_base64_encode :: "string \<Rightarrow> string cmd" where
  "LDi_base64_encode src =
     (let n = length src; olen = encode_size n in
      if olen < n then cnull
      else
        cbind LDAlloc (\<lambda>_.
        cbind (encode_loop olen (map of_char src) []) (\<lambda>(rest, out).
        cbind (encode_rest olen rest out) (\<lambda>out.
        cbind (put_char olen out nul) (\<lambda>_.
          cret out)))))"

section \<open>Decoding\<close>

definition dtable :: "char \<Rightarrow> nat" where
  "dtable c =
     (if c = CHR ''='' then 0
      else case map_of (zip base64_table [0..<64]) c of Some i \<Rightarrow> i | None \<Rightarrow> 0x80)"

definition decode_block :: "nat \<Rightarrow> nat \<Rightarrow> nat \<Rightarrow> nat \<Rightarrow> nat list" where
  "decode_block b0 b1 b2 b3 =
     [(push_bit 2 b0 OR drop_bit 4 b1) mod 256, (push_bit 4 b1 OR drop_bit 2 b2) mod 256,
      (push_bit 6 b2 OR b3) mod 256]"

text \<open>\<open>block\<close> holds the digits of the current group; the third of three is the fourth to come.\<close>

fun decode_loop :: "nat \<Rightarrow> string \<Rightarrow> nat \<Rightarrow> nat list \<Rightarrow> nat list \<Rightarrow> nat list cmd" where
  "decode_loop olen [] pad block out = cret out"
| "decode_loop olen (c # cs) pad block out =
     (if dtable c = 0x80 then decode_loop olen cs pad block out
      else
        (let pad = (if c = CHR ''='' then pad + 1 else pad) in
         case block of
           [b0, b1, b2] \<Rightarrow>
             (let out = out @ decode_block b0 b1 b2 (dtable c) in
              if olen < length out then cfault Undefined
              else if pad \<noteq> 0 then
                (if pad = 1 then cret (take (length out - 1) out)
                 else if pad = 2 then cret (take (length out - 2) out)
                 else cnull)
              else decode_loop olen cs pad [] out)
         | _ \<Rightarrow> decode_loop olen cs pad (block @ [dtable c]) out))"

definition LDi_base64_decode :: "string \<Rightarrow> string cmd" where
  "LDi_base64_decode src =
     (let count = length (filter (\<lambda>c. dtable c \<noteq> 0x80) src) in
      if count = 0 \<or> count mod 4 \<noteq> 0 then cnull
      else
        cbind LDAlloc (\<lambda>_.
        cbind (decode_loop (count div 4 * 3) src 0 [] []) (\<lambda>out. cret (map char_of out))))"

section \<open>Lemmas: bits\<close>

lemma or_eq_add:
  fixes a b :: nat
  assumes "b < 2 ^ n"
  shows "push_bit n a OR b = a * 2 ^ n + b"
proof -
  have "\<not> bit (push_bit n a) k \<or> \<not> bit b k" for k
  proof (cases "k < n")
    case False
    have "b = take_bit n b" using assms by (simp add: take_bit_nat_eq_self)
    with False have "\<not> bit b k" by (metis bit_take_bit_iff)
    then show ?thesis by simp
  qed (simp add: bit_push_bit_iff)
  then show ?thesis by (simp add: disjunctive_add[symmetric] push_bit_eq_mult)
qed

lemma and_masks: "(a :: nat) AND 0x03 = a mod 4" "a AND 0x0F = a mod 16" "a AND 0x3F = a mod 64"
  using take_bit_eq_mask[of 2 a] take_bit_eq_mask[of 4 a] take_bit_eq_mask[of 6 a]
  by (simp_all add: take_bit_eq_mod mask_eq_exp_minus_1)

lemma drop_divs: "drop_bit 2 (a :: nat) = a div 4" "drop_bit 4 a = a div 16" "drop_bit 6 a = a div 64"
  by (simp_all add: drop_bit_eq_div)

lemma encode_digits:
  assumes "a < 256" and "b < 256" and "c < (256 :: nat)"
  shows "push_bit 4 (a AND 0x03) OR drop_bit 4 b = a mod 4 * 16 + b div 16"
    and "push_bit 2 (b AND 0x0F) OR drop_bit 6 c = b mod 16 * 4 + c div 64"
    and "push_bit 4 (a AND 0x03) = a mod 4 * 16" and "push_bit 2 (b AND 0x0F) = b mod 16 * 4"
  using assms or_eq_add[of "b div 16" 4 "a mod 4"] or_eq_add[of "c div 64" 2 "b mod 16"]
  by (simp_all add: and_masks drop_divs push_bit_eq_mult div_less_iff_less_mult)

lemma decode_block_eq:
  assumes "b0 < 64" and "b1 < 64" and "b2 < 64" and "b3 < 64"
  shows "decode_block b0 b1 b2 b3 =
    [b0 * 4 + b1 div 16, (b1 * 16 + b2 div 4) mod 256, (b2 * 64 + b3) mod 256]"
  using assms or_eq_add[of "b1 div 16" 2 b0] or_eq_add[of "b2 div 4" 4 b1] or_eq_add[of b3 6 b2]
  by (simp add: decode_block_def drop_divs div_less_iff_less_mult)

section \<open>The reference: digits to base 64 of 24 bit numbers\<close>

definition group_digits :: "nat \<Rightarrow> nat list" where
  "group_digits n = [n div 64 ^ 3, n div 64 ^ 2 mod 64, n div 64 mod 64, n mod 64]"

fun base64_text :: "nat list \<Rightarrow> string" where
  "base64_text (a # b # c # rest) =
     map (\<lambda>i. base64_table ! i) (group_digits (a * 65536 + b * 256 + c)) @ base64_text rest"
| "base64_text [a, b] = map (\<lambda>i. base64_table ! i) (take 3 (group_digits (a * 65536 + b * 256))) @ ''=''"
| "base64_text [a] = map (\<lambda>i. base64_table ! i) (take 2 (group_digits (a * 65536))) @ ''==''"
| "base64_text [] = []"

lemma mod_scaled: "(x * 16 + y) mod 64 = x mod 4 * 16 + y" if "y < 16" for x y :: nat
proof -
  have "(16 * x + y) mod (16 * 4) = 16 * ((16 * x + y) div 16 mod 4) + (16 * x + y) mod 16"
    by (rule mod_mult2_eq)
  with that show ?thesis by (simp add: mult.commute)
qed

lemma mod_scaled4: "(x * 4 + y) mod 64 = x mod 16 * 4 + y" if "y < 4" for x y :: nat
proof -
  have "(4 * x + y) mod (4 * 16) = 4 * ((4 * x + y) div 4 mod 16) + (4 * x + y) mod 4"
    by (rule mod_mult2_eq)
  with that show ?thesis by (simp add: mult.commute)
qed

lemma group_digits_eq:
  assumes "a < 256" and "b < 256" and "c < (256 :: nat)"
  shows "group_digits (a * 65536 + b * 256 + c) =
    [a div 4, a mod 4 * 16 + b div 16, b mod 16 * 4 + c div 64, c mod 64]"
proof -
  let ?n = "a * 65536 + b * 256 + c"
  have q: "?n div 256 = a * 256 + b" "(a * 256 + b) div 256 = a" using assms by simp_all
  have "?n div 64 ^ 3 = ?n div 256 div 256 div 4" by (simp add: div_mult2_eq[symmetric])
  then have 0: "?n div 64 ^ 3 = a div 4" by (simp only: q)
  have "?n div 64 ^ 2 = (a * 256 + b) div 16" by (simp add: q(1)[symmetric] div_mult2_eq[symmetric])
  also have "\<dots> = a * 16 + b div 16" by simp
  finally have 1: "?n div 64 ^ 2 mod 64 = a mod 4 * 16 + b div 16"
    using mod_scaled[of "b div 16" a] assms(2) by (simp add: div_less_iff_less_mult)
  have "?n div 64 = (a * 256 + b) * 4 + c div 64" by simp
  moreover have "(a * 256 + b) mod 16 = b mod 16"
  proof -
    have "a * 256 + b = b + 16 * (a * 16)" by simp
    then show ?thesis by (metis mod_mult_self2)
  qed
  ultimately have 2: "?n div 64 mod 64 = b mod 16 * 4 + c div 64"
    using mod_scaled4[of "c div 64" "a * 256 + b"] assms(3) by (simp only: div_less_iff_less_mult)
  have 3: "?n mod 64 = c mod 64"
  proof -
    have "?n = c + 64 * (a * 1024 + b * 4)" by simp
    then show ?thesis by (metis mod_mult_self2)
  qed
  show ?thesis unfolding group_digits_def 0 1 2 3 ..
qed

lemma table_length: "length base64_table = 64"
  by (simp add: base64_table_def)

lemma digits_small:
  assumes "a < 256" and "b < 256" and "c < (256 :: nat)"
  shows "a div 4 < 64" and "a mod 4 * 16 + b div 16 < 64" and "b mod 16 * 4 + c div 64 < 64" and "c mod 64 < 64"
proof -
  have "b div 16 < 16" "a mod 4 < 4" "c div 64 < 4" "b mod 16 < 16"
    using assms by (simp_all add: div_less_iff_less_mult)
  then show "a mod 4 * 16 + b div 16 < 64" "b mod 16 * 4 + c div 64 < 64" by linarith+
qed (use assms in \<open>simp_all add: div_less_iff_less_mult\<close>)

lemma ensures_digit:
  "i < 64 \<Longrightarrow> length out < olen \<Longrightarrow> outcome b (put_digit olen out i) (\<lambda>r. r = out @ [base64_table ! i])"
  "length out < olen \<Longrightarrow> outcome b (put_char olen out c) (\<lambda>r. r = out @ [c])"
  by (simp_all add: put_digit_def put_char_def table_length)

section \<open>Lemmas: encoding\<close>

lemma encode_rest_spec:
  assumes "length rest < 3" and "\<forall>x \<in> set rest. x < 256" and "length out + length (base64_text rest) < olen"
  shows "outcome b (encode_rest olen rest out) (\<lambda>r. r = out @ base64_text rest)"
proof -
  note steps = outcome_cbind[OF ensures_digit(1)] outcome_cbind[OF ensures_digit(2)]
    outcome_mono[OF ensures_digit(2)]
  consider "rest = []" | x where "rest = [x]" | x y where "rest = [x, y]"
    using assms(1) by (cases rest rule: base64_text.cases) auto
  then show ?thesis
  proof cases
    case 2
    then have x: "x < 256" using assms(2) by simp
    show ?thesis
      unfolding 2 encode_rest.simps encode_digits(3)[OF x x x] unfolding drop_divs
      using assms(3) digits_small[OF x, of 0 0] group_digits_eq[OF x, of 0 0] 2
      by (intro steps) auto
  next
    case 3
    then have xy: "x < 256" "y < 256" using assms(2) by simp_all
    show ?thesis
      unfolding 3 encode_rest.simps encode_digits(1,4)[OF xy xy(2)] unfolding drop_divs
      using assms(3) digits_small[OF xy, of 0] group_digits_eq[OF xy, of 0] 3
      by (intro steps) auto
  qed simp
qed

lemma encode_loop_spec:
  assumes "\<forall>x \<in> set xs. x < 256" and "length out + length (base64_text xs) + 1 \<le> olen"
  shows "outcome b (encode_loop olen xs out) (\<lambda>(rest, out'). length rest < 3 \<and> (\<forall>x \<in> set rest. x < 256) \<and>
    out' @ base64_text rest = out @ base64_text xs)"
  using assms
proof (induction olen xs out rule: encode_loop.induct)
  case (1 olen a b' c rest out)
  have s: "a < 256" "b' < 256" "c < 256" using 1(2) by simp_all
  have len: "length (base64_text (a # b' # c # rest)) = 4 + length (base64_text rest)"
    by (simp add: group_digits_def)
  have IH: "outcome b (encode_loop olen rest r) (\<lambda>(rest', out'). length rest' < 3 \<and> (\<forall>x \<in> set rest'. x < 256) \<and>
      out' @ base64_text rest' = out @ base64_text (a # b' # c # rest))"
    if "r = (((out @ [base64_table ! (a div 4)]) @ [base64_table ! (a mod 4 * 16 + b' div 16)]) @
      [base64_table ! (b' mod 16 * 4 + c div 64)]) @ [base64_table ! (c mod 64)]" for r
    using 1(1)[of r] 1(2,3) that group_digits_eq[OF s] by (auto elim!: outcome_mono)
  show ?case
    unfolding encode_loop.simps encode_digits(1,2)[OF s] unfolding drop_divs and_masks
    using 1(3) len digits_small[OF s]
    by (intro outcome_cbind[OF ensures_digit(1)] IH) (simp_all del: append_assoc)
qed (auto simp: less_Suc_eq)

lemma base64_text_length: "length (base64_text xs) = (length xs + 2) div 3 * 4"
proof (induction xs rule: base64_text.induct)
  case (1 a b c rest)
  have "(length rest + 5) div 3 = (length rest + 2) div 3 + 1" using div_add_self2[of 3 "length rest + 2"] by simp
  with 1 show ?case by (simp add: group_digits_def add.commute)
qed (simp_all add: group_digits_def)

text \<open>Either the size did not wrap around and suffices, or the overflow check rejects it.\<close>

lemma encode_size_enough:
  assumes "\<not> encode_size n < n" and "n < 2 ^ 64"
  shows "(n + 2) div 3 * 4 + 1 \<le> encode_size n"
proof (cases "n < 2 ^ 62")
  case True
  then have "n * 4 mod 2 ^ 64 = n * 4" by simp
  then have "n * 4 div 3 + 5 \<le> encode_size n" by (simp add: encode_size_def Let_def)
  then show ?thesis by linarith
next
  case False
  define r where "r = n * 4 mod 2 ^ 64"
  have r: "r \<le> 4 * n - 2 ^ 64"
  proof -
    have "2 ^ 64 \<le> n * 4" using False by simp
    then have "r = (n * 4 - 2 ^ 64) mod 2 ^ 64" unfolding r_def by (metis le_mod_geq)
    then show ?thesis by (simp add: mult.commute)
  qed
  have "encode_size n = r div 3 + 4 + (r div 3 + 4) div 72 + 1" by (simp add: encode_size_def r_def Let_def)
  moreover have "r < 2 ^ 64" by (simp add: r_def)
  ultimately have "encode_size n < n" using False r assms(2) by simp
  with assms(1) show ?thesis by simp
qed

lemma LDi_base64_encode_spec:
  assumes "length src < 2 ^ 64"
  shows "outcome (length src < 2 ^ 62) (LDi_base64_encode src) (\<lambda>r. r = base64_text (map of_char src))"
proof -
  let ?n = "length src" and ?t = "base64_text (map of_char src)"
  have small: "\<forall>x \<in> set (map of_char src). x < (256 :: nat)" by auto
  have keep: "\<not> encode_size ?n < ?n" if "?n < 2 ^ 62"
  proof -
    have "?n * 4 mod 2 ^ 64 = ?n * 4" using that by simp
    then show ?thesis by (simp add: encode_size_def Let_def)
  qed
  show ?thesis
  proof (cases "encode_size ?n < ?n")
    case True
    with keep show ?thesis by (auto simp: LDi_base64_encode_def Let_def)
  next
    case False
    then have room: "length ?t + 1 \<le> encode_size ?n"
      using encode_size_enough[OF False assms] by (simp add: base64_text_length)
    have tail: "outcome b (cbind (encode_rest (encode_size ?n) rest out) (\<lambda>out.
        cbind (put_char (encode_size ?n) out nul) (\<lambda>_. cret out))) (\<lambda>r. r = ?t)"
      if r: "length rest < 3" "\<forall>x \<in> set rest. x < 256" "out @ base64_text rest = ?t" for b rest out
    proof (rule outcome_cbind[OF encode_rest_spec[OF r(1,2)]])
      have "length (out @ base64_text rest) < encode_size ?n" unfolding r(3) using room by simp
      then show "length out + length (base64_text rest) < encode_size ?n" by simp
    qed (use room r(3) in \<open>auto intro!: outcome_cbind[OF ensures_digit(2)]\<close>)
    show ?thesis
      unfolding LDi_base64_encode_def Let_def if_not_P[OF False]
      using room tail by (intro outcome_alloc outcome_cbind[OF encode_loop_spec[OF small]]) auto
  qed
qed

section \<open>Lemmas: decoding\<close>

abbreviation digit_count :: "string \<Rightarrow> nat" where
  "digit_count s \<equiv> length (filter (\<lambda>c. dtable c \<noteq> 0x80) s)"

lemma decode_loop_safe:
  "length block \<le> 3 \<Longrightarrow> length out + 3 * ((length block + digit_count cs) div 4) \<le> olen \<Longrightarrow>
   ensures (decode_loop olen cs pad block out) (\<lambda>_. True)"
proof (induction cs arbitrary: pad block out)
  case (Cons c cs)
  show ?case
  proof (cases "dtable c = 0x80")
    case False
    show ?thesis
    proof (cases "length block = 3")
      case True
      then obtain b0 b1 b2 where b: "block = [b0, b1, b2]"
        by (auto simp: numeral_3_eq_3 length_Suc_conv)
      then have "length out + 3 + 3 * (digit_count cs div 4) \<le> olen" using Cons.prems(2) False by simp
      with False show ?thesis
        by (auto simp: b Let_def decode_block_def intro!: Cons.IH)
    next
      case short: False
      then have "length block < 3" using Cons.prems(1) by simp
      then have step: "decode_loop olen (c # cs) pad block out =
          decode_loop olen cs (if c = CHR ''='' then pad + 1 else pad) (block @ [dtable c]) out"
        using False by (auto simp: Let_def split: list.splits)
      have "ensures (decode_loop olen cs (if c = CHR ''='' then pad + 1 else pad) (block @ [dtable c]) out) (\<lambda>_. True)"
        using Cons.prems(2) False \<open>length block < 3\<close> by (intro Cons.IH) simp_all
      then show ?thesis unfolding step .
    qed
  qed (use Cons in simp)
qed simp

lemma table_distinct: "distinct base64_table"
  by (simp add: base64_table_def)

lemma table_no_pad: "CHR ''='' \<notin> set base64_table"
  by (simp add: base64_table_def)

lemma dtable_digit: "i < 64 \<Longrightarrow> dtable (base64_table ! i) = i \<and> base64_table ! i \<noteq> CHR ''=''"
proof -
  assume i: "i < 64"
  then have mem: "base64_table ! i \<in> set base64_table" by (simp add: table_length)
  then have "base64_table ! i \<noteq> CHR ''=''" using table_no_pad by metis
  moreover have "map_of (zip base64_table [0..<64]) (base64_table ! i) = Some ([0..<64] ! i)"
    using i by (intro map_of_zip_nth) (simp_all add: table_length table_distinct)
  ultimately show ?thesis using i by (simp add: dtable_def)
qed

lemma digit_facts:
  assumes "i < 64"
  shows "dtable (base64_table ! i) \<noteq> 0x80" and "dtable (base64_table ! i) = i" and "base64_table ! i \<noteq> CHR ''=''"
  using dtable_digit[OF assms] assms by auto

lemma dtable_pad: "dtable (CHR ''='') = 0"
  by (simp add: dtable_def)

lemma decode_group:
  assumes "i0 < 64" and "i1 < 64" and "i2 < 64" and "i3 < 64"
  shows "decode_loop olen (map (\<lambda>i. base64_table ! i) [i0, i1, i2, i3] @ cs) 0 [] out =
    (if olen < length out + 3 then cfault Undefined
     else decode_loop olen cs 0 [] (out @ decode_block i0 i1 i2 i3))"
  using digit_facts[OF assms(1)] digit_facts[OF assms(2)] digit_facts[OF assms(3)] digit_facts[OF assms(4)]
  by (simp add: Let_def decode_block_def)

lemma decode_group_back:
  assumes "a < 256" and "b < 256" and "c < (256 :: nat)"
  shows "decode_block (a div 4) (a mod 4 * 16 + b div 16) (b mod 16 * 4 + c div 64) (c mod 64) = [a, b, c]"
proof -
  have s: "b div 16 < 16" "c div 64 < 4" using assms by (simp_all add: div_less_iff_less_mult)
  have "a div 4 * 4 + (a mod 4 * 16 + b div 16) div 16 = a" using s(1) by simp
  moreover have "(a mod 4 * 16 + b div 16) * 16 + (b mod 16 * 4 + c div 64) div 4 = a mod 4 * 256 + b"
    using s(2) by (simp add: algebra_simps)
  moreover have "(b mod 16 * 4 + c div 64) * 64 + c mod 64 = b mod 16 * 256 + c"
    by (simp add: algebra_simps)
  ultimately show ?thesis
    using assms digits_small[OF assms] by (simp add: decode_block_eq)
qed

lemma decode_text_back:
  "\<forall>x \<in> set xs. x < 256 \<Longrightarrow>
   decode_loop olen (base64_text xs) 0 [] out m \<in> {(Fault Undefined, m), (Val (out @ xs), m)}"
proof (induction xs arbitrary: out rule: base64_text.induct)
  case (1 a b c rest)
  then have s: "a < 256" "b < 256" "c < 256" by simp_all
  show ?case
    using 1(1)[of "out @ [a, b, c]"] 1(2) decode_group[OF digits_small[OF s], of olen "base64_text rest" out]
    by (auto simp: group_digits_eq[OF s] decode_group_back[OF s] cfault_def split: if_splits simp del: decode_loop.simps)
next
  case (2 a b)
  then have s: "a < 256" "b < 256" "0 < (256 :: nat)" by simp_all
  note ds = digits_small[OF s]
  show ?case
    using digit_facts[OF ds(1)] digit_facts[OF ds(2)] digit_facts[OF ds(3)] group_digits_eq[OF s] decode_group_back[OF s]
    by (simp add: dtable_pad Let_def cret_def cfault_def)
next
  case (3 a)
  then have s: "a < 256" "0 < (256 :: nat)" "0 < (256 :: nat)" by simp_all
  note ds = digits_small[OF s]
  show ?case
    using digit_facts[OF ds(1)] digit_facts[OF ds(2)] group_digits_eq[OF s] decode_group_back[OF s]
    by (simp add: dtable_pad Let_def cret_def cfault_def)
qed (simp add: cret_def)

lemma text_digits: "\<forall>x \<in> set xs. x < 256 \<Longrightarrow> set (base64_text xs) \<subseteq> set base64_table \<union> {CHR ''=''}"
proof (induction xs rule: base64_text.induct)
  case (1 a b c rest)
  then have s: "a < 256" "b < 256" "c < 256" by simp_all
  with 1 digits_small[OF s] group_digits_eq[OF s] show ?case by (auto simp: table_length)
next
  case (2 a b)
  then have s: "a < 256" "b < 256" "0 < (256 :: nat)" by simp_all
  with digits_small[OF s] group_digits_eq[OF s] show ?case by (auto simp: table_length)
next
  case (3 a)
  then have s: "a < 256" "0 < (256 :: nat)" "0 < (256 :: nat)" by simp_all
  with digits_small[OF s] group_digits_eq[OF s] show ?case by (auto simp: table_length)
qed simp

lemma digit_count_text: "\<forall>x \<in> set xs. x < 256 \<Longrightarrow> digit_count (base64_text xs) = length (base64_text xs)"
proof -
  assume "\<forall>x \<in> set xs. x < 256"
  have "dtable c \<noteq> 0x80" if c: "c \<in> set (base64_text xs)" for c
  proof (cases "c = CHR ''=''")
    case False
    then have "c \<in> set base64_table" using c text_digits[OF \<open>\<forall>x \<in> set xs. x < 256\<close>] by auto
    then obtain i where "i < 64" "c = base64_table ! i" by (auto simp: in_set_conv_nth table_length)
    with dtable_digit[of i] show ?thesis by simp
  qed (simp add: dtable_pad)
  then show ?thesis by (simp add: filter_id_conv)
qed

lemma decode_base64_text:
  assumes "src \<noteq> []"
  shows "LDi_base64_decode (base64_text (map of_char src)) [] = (Val src, [])"
proof -
  let ?xs = "map of_char src :: nat list"
  let ?t = "base64_text ?xs"
  have small: "\<forall>x \<in> set ?xs. x < (256 :: nat)" by auto
  have safe: "ensures (decode_loop (digit_count s div 4 * 3) s 0 [] []) (\<lambda>_. True)" for s
    by (rule decode_loop_safe) simp_all
  have count: "digit_count ?t = length ?t" "length ?t mod 4 = 0" "length ?t \<noteq> 0"
    using digit_count_text[OF small] assms(1) by (simp_all add: base64_text_length div_eq_0_iff Suc_le_eq)
  have "decode_loop (digit_count ?t div 4 * 3) ?t 0 [] [] [] \<in> {(Fault Undefined, []), (Val ?xs, [])}"
    using decode_text_back[OF small, of "digit_count ?t div 4 * 3" "[]"] by simp
  with no_faultD[OF ensures_no_fault[OF safe[of ?t]], of "[]" Undefined]
  have "decode_loop (digit_count ?t div 4 * 3) ?t 0 [] [] [] = (Val ?xs, [])" by auto
  then show ?thesis
    using count by (simp add: LDi_base64_decode_def Let_def cbind_def cret_def comp_def)
qed

lemma LDi_base64_decode_safe: "ensures (LDi_base64_decode any) (\<lambda>_. True)"
proof -
  have "ensures (decode_loop (digit_count s div 4 * 3) s 0 [] []) (\<lambda>_. True)" for s
    by (rule decode_loop_safe) simp_all
  then show ?thesis
    unfolding LDi_base64_decode_def Let_def by (intro ensures_if ensures_alloc ensures_cbind[OF _]) auto
qed

section \<open>Properties\<close>

text \<open>Encoding is exact for every input a 64 bit machine can hold: the output is, group by group,
  the digits to base 64 of the input, it is never written beyond the allocation although the size
  is computed with wrap-around, and it consists of characters that need no escaping in a path. A
  text shorter than \<open>2^62\<close> bytes is encoded if memory suffices.\<close>

theorem base64_encode_exact:
  assumes "length src < 2 ^ 64"
  shows "ensures (LDi_base64_encode src) (\<lambda>r. r = base64_text (map of_char src) \<and>
      length r = (length src + 2) div 3 * 4 \<and> set r \<subseteq> set base64_table \<union> {CHR ''=''}) \<and>
    (length src < 2 ^ 62 \<longrightarrow> LDi_base64_encode src [] = (Val (base64_text (map of_char src)), []))"
proof -
  have small: "\<forall>x \<in> set (map of_char src). x < (256 :: nat)" by auto
  have "ensures (LDi_base64_encode src) (\<lambda>r. r = base64_text (map of_char src))"
    using LDi_base64_encode_spec[OF assms] by (rule outcome_ensures)
  then have "ensures (LDi_base64_encode src) (\<lambda>r. r = base64_text (map of_char src) \<and>
      length r = (length src + 2) div 3 * 4 \<and> set r \<subseteq> set base64_table \<union> {CHR ''=''})"
    using text_digits[OF small] by (elim ensures_mono) (auto simp: base64_text_length)
  moreover have "LDi_base64_encode src [] = (Val (base64_text (map of_char src)), [])" if "length src < 2 ^ 62"
    using LDi_base64_encode_spec[OF assms] that by (intro outcome_value) simp
  ultimately show ?thesis by blast
qed

theorem base64_encode_exact_witness:
  "LDi_base64_encode ''{}'' [] = (Val (base64_text (map of_char ''{}'')), [])"
  using base64_encode_exact[of "''{}''"] by simp

text \<open>C21. Decoding undoes encoding for every nonempty text (an empty one is refused), and decoding
  arbitrary bytes never writes beyond its allocation.\<close>

theorem base64_decode_encode:
  assumes "src \<noteq> []" and "length src < 2 ^ 62"
  shows "cbind (LDi_base64_encode src) LDi_base64_decode [] = (Val src, []) \<and> ensures (LDi_base64_decode any) (\<lambda>_. True)"
proof -
  have "LDi_base64_encode src [] = (Val (base64_text (map of_char src)), [])"
    using LDi_base64_encode_spec[of src] assms(2) by (intro outcome_value) simp
  with decode_base64_text[OF assms(1)] LDi_base64_decode_safe show ?thesis by (simp add: cbind_def)
qed

theorem base64_decode_encode_witness:
  "cbind (LDi_base64_encode ''user'') LDi_base64_decode [] = (Val ''user'', [])"
  using base64_decode_encode[of "''user''" "[]"] by simp

end
