(* ===== verification/Config.thy ===== *)
theory Config
  imports Utility Listener
begin

text \<open>
  The configuration object (\<open>src/config.h\<close>, \<open>src/config.c\<close>). Every setter is a definition; the
  \<open>NULL\<close> guards of the shipped build return without effect. The lemmas show which
  configurations an application can build: the polling intervals respect their minimum, the
  private attribute names are an array, and the environment table maps distinct secondary
  names to keys.
\<close>

section \<open>State\<close>

record LDConfig =
  allAttributesPrivate :: bool
  backgroundPollingIntervalMillis :: int
  appURI :: cstring
  connectionTimeoutMillis :: int
  requestTimeoutMillis :: int
  disableBackgroundUpdating :: bool
  eventsCapacity :: u32
  eventsFlushIntervalMillis :: int
  eventsURI :: cstring
  mobileKey :: cstring
  offline :: bool
  pollingIntervalMillis :: int
  streaming :: bool
  streamURI :: cstring
  useReport :: bool
  proxyURI :: cstring
  verifyPeer :: bool
  useReasons :: bool
  certFile :: cstring
  inlineUsersInEvents :: bool
  autoAliasOptOut :: bool
  secondaryMobileKeys :: json_ptr
  privateAttributeNames :: json_ptr

type_synonym config_ptr = "LDConfig option"

definition LDPrimaryEnvironmentName :: string where
  "LDPrimaryEnvironmentName = ''default''"

section \<open>Strings\<close>

text \<open>The length is computed as \<open>unsigned int\<close>; strings of \<open>2^32\<close> bytes are not considered.\<close>

definition LDi_trimTrailingSlash :: "string \<Rightarrow> string cmd" where
  "LDi_trimTrailingSlash s =
     (let len = length s in
      if len = 0 \<or> s ! (len - 1) \<noteq> CHR ''/'' then LDStrDup s else LDStrNDup s (len - 1))"

definition LDi_setTrimmedString :: "cstring \<Rightarrow> cstring \<Rightarrow> (bool \<times> cstring) cmd" where
  "LDi_setTrimmedString target s =
     (case s of
        None \<Rightarrow> cfault AssertFailed
      | Some t \<Rightarrow>
          cbind (ctry (LDi_trimTrailingSlash t)) (\<lambda>r.
            case r of
              None \<Rightarrow> cret (False, target)
            | Some withoutTrailingSlash \<Rightarrow> LDSetString target (Some withoutTrailingSlash)))"

section \<open>Construction\<close>

text \<open>An allocated configuration before its strings are set.\<close>

definition config_defaults :: LDConfig where
  "config_defaults =
     \<lparr>allAttributesPrivate = False, backgroundPollingIntervalMillis = 15 * 60 * 1000,
      appURI = None, connectionTimeoutMillis = 10 * 1000, requestTimeoutMillis = 30 * 1000,
      disableBackgroundUpdating = False, eventsCapacity = 100,
      eventsFlushIntervalMillis = 30000, eventsURI = None, mobileKey = None, offline = False,
      pollingIntervalMillis = 30 * 1000, streaming = True, streamURI = None, useReport = False,
      proxyURI = None, verifyPeer = True, useReasons = False, certFile = None,
      inlineUsersInEvents = False, autoAliasOptOut = False, secondaryMobileKeys = None,
      privateAttributeNames = None\<rparr>"

definition set_or_null :: "cstring \<Rightarrow> cstring \<Rightarrow> cstring cmd" where
  "set_or_null target s = cbind (LDSetString target s) (\<lambda>(ok, r). if ok then cret r else cnull)"

definition LDConfigNew :: "cstring \<Rightarrow> LDConfig cmd" where
  "LDConfigNew key =
     (if key = None then cnull
      else
        cbind LDAlloc (\<lambda>_.
        cbind (set_or_null None (Some ''https://app.launchdarkly.com'')) (\<lambda>app.
        cbind (set_or_null None (Some ''https://mobile.launchdarkly.com'')) (\<lambda>events.
        cbind (set_or_null None key) (\<lambda>mobile.
        cbind (set_or_null None (Some ''https://clientstream.launchdarkly.com'')) (\<lambda>stream.
        cbind LDNewObject (\<lambda>keys.
          cret (config_defaults
            \<lparr>appURI := app, eventsURI := events, mobileKey := mobile, streamURI := stream,
             secondaryMobileKeys := Some keys\<rparr>))))))))"

section \<open>Setters\<close>

definition LDConfigSetAllAttributesPrivate :: "config_ptr \<Rightarrow> bool \<Rightarrow> config_ptr" where
  "LDConfigSetAllAttributesPrivate config b = map_option (allAttributesPrivate_update (\<lambda>_. b)) config"

definition LDConfigSetDisableBackgroundUpdating :: "config_ptr \<Rightarrow> bool \<Rightarrow> config_ptr" where
  "LDConfigSetDisableBackgroundUpdating config b = map_option (disableBackgroundUpdating_update (\<lambda>_. b)) config"

definition LDConfigSetOffline :: "config_ptr \<Rightarrow> bool \<Rightarrow> config_ptr" where
  "LDConfigSetOffline config b = map_option (offline_update (\<lambda>_. b)) config"

definition LDConfigSetStreaming :: "config_ptr \<Rightarrow> bool \<Rightarrow> config_ptr" where
  "LDConfigSetStreaming config b = map_option (streaming_update (\<lambda>_. b)) config"

definition LDConfigSetUseReport :: "config_ptr \<Rightarrow> bool \<Rightarrow> config_ptr" where
  "LDConfigSetUseReport config b = map_option (useReport_update (\<lambda>_. b)) config"

definition LDConfigSetUseEvaluationReasons :: "config_ptr \<Rightarrow> bool \<Rightarrow> config_ptr" where
  "LDConfigSetUseEvaluationReasons config b = map_option (useReasons_update (\<lambda>_. b)) config"

definition LDConfigSetVerifyPeer :: "config_ptr \<Rightarrow> bool \<Rightarrow> config_ptr" where
  "LDConfigSetVerifyPeer config b = map_option (verifyPeer_update (\<lambda>_. b)) config"

definition LDConfigSetInlineUsersInEvents :: "config_ptr \<Rightarrow> bool \<Rightarrow> config_ptr" where
  "LDConfigSetInlineUsersInEvents config b = map_option (inlineUsersInEvents_update (\<lambda>_. b)) config"

definition LDConfigAutoAliasOptOut :: "config_ptr \<Rightarrow> bool \<Rightarrow> config_ptr" where
  "LDConfigAutoAliasOptOut config b = map_option (autoAliasOptOut_update (\<lambda>_. b)) config"

definition LDConfigSetConnectionTimeoutMillis :: "config_ptr \<Rightarrow> int \<Rightarrow> config_ptr" where
  "LDConfigSetConnectionTimeoutMillis config millis = map_option (connectionTimeoutMillis_update (\<lambda>_. millis)) config"

definition LDConfigSetRequestTimeoutMillis :: "config_ptr \<Rightarrow> int \<Rightarrow> config_ptr" where
  "LDConfigSetRequestTimeoutMillis config millis = map_option (requestTimeoutMillis_update (\<lambda>_. millis)) config"

definition LDConfigSetEventsFlushIntervalMillis :: "config_ptr \<Rightarrow> int \<Rightarrow> config_ptr" where
  "LDConfigSetEventsFlushIntervalMillis config millis = map_option (eventsFlushIntervalMillis_update (\<lambda>_. millis)) config"

definition LDConfigSetConnectionTimeoutMillies :: "config_ptr \<Rightarrow> int \<Rightarrow> config_ptr" where
  "LDConfigSetConnectionTimeoutMillies config millis = LDConfigSetConnectionTimeoutMillis config millis"

text \<open>The \<open>int\<close> argument is stored as \<open>unsigned int\<close>: a negative capacity wraps around.\<close>

definition LDConfigSetEventsCapacity :: "config_ptr \<Rightarrow> int \<Rightarrow> config_ptr" where
  "LDConfigSetEventsCapacity config capacity =
     map_option (eventsCapacity_update (\<lambda>_. word_of_int capacity)) config"

definition LDConfigSetBackgroundPollingIntervalMillis :: "config_ptr \<Rightarrow> int \<Rightarrow> config_ptr" where
  "LDConfigSetBackgroundPollingIntervalMillis config millis =
     (let minimum = 15 * 60 * 1000 in
      map_option (backgroundPollingIntervalMillis_update
        (\<lambda>_. if millis \<ge> minimum then millis else minimum)) config)"

definition LDConfigSetPollingIntervalMillis :: "config_ptr \<Rightarrow> int \<Rightarrow> config_ptr" where
  "LDConfigSetPollingIntervalMillis config millis =
     (let minimum = 30 * 1000 in
      map_option (pollingIntervalMillis_update
        (\<lambda>_. if millis \<ge> minimum then millis else minimum)) config)"

text \<open>The string setters: \<open>set\<close> is \<open>LDi_setTrimmedString\<close> for an address, \<open>LDSetString\<close> otherwise.\<close>

definition config_set_string ::
  "(cstring \<Rightarrow> cstring \<Rightarrow> (bool \<times> cstring) cmd) \<Rightarrow> (LDConfig \<Rightarrow> cstring) \<Rightarrow>
   (cstring \<Rightarrow> LDConfig \<Rightarrow> LDConfig) \<Rightarrow> config_ptr \<Rightarrow> cstring \<Rightarrow> (bool \<times> config_ptr) cmd" where
  "config_set_string setter get put config s =
     (case config of
        None \<Rightarrow> cret (False, None)
      | Some c \<Rightarrow>
          (if s = None then cret (False, config)
           else cbind (setter (get c) s) (\<lambda>(ok, t). cret (ok, Some (put t c)))))"

definition LDConfigSetAppURI :: "config_ptr \<Rightarrow> cstring \<Rightarrow> (bool \<times> config_ptr) cmd" where
  "LDConfigSetAppURI = config_set_string LDi_setTrimmedString appURI (\<lambda>t. appURI_update (\<lambda>_. t))"

definition LDConfigSetEventsURI :: "config_ptr \<Rightarrow> cstring \<Rightarrow> (bool \<times> config_ptr) cmd" where
  "LDConfigSetEventsURI = config_set_string LDi_setTrimmedString eventsURI (\<lambda>t. eventsURI_update (\<lambda>_. t))"

definition LDConfigSetStreamURI :: "config_ptr \<Rightarrow> cstring \<Rightarrow> (bool \<times> config_ptr) cmd" where
  "LDConfigSetStreamURI = config_set_string LDi_setTrimmedString streamURI (\<lambda>t. streamURI_update (\<lambda>_. t))"

definition LDConfigSetProxyURI :: "config_ptr \<Rightarrow> cstring \<Rightarrow> (bool \<times> config_ptr) cmd" where
  "LDConfigSetProxyURI = config_set_string LDi_setTrimmedString proxyURI (\<lambda>t. proxyURI_update (\<lambda>_. t))"

definition LDConfigSetMobileKey :: "config_ptr \<Rightarrow> cstring \<Rightarrow> (bool \<times> config_ptr) cmd" where
  "LDConfigSetMobileKey = config_set_string LDSetString mobileKey (\<lambda>t. mobileKey_update (\<lambda>_. t))"

definition LDConfigSetSSLCertificateAuthority :: "config_ptr \<Rightarrow> cstring \<Rightarrow> (bool \<times> config_ptr) cmd" where
  "LDConfigSetSSLCertificateAuthority = config_set_string LDSetString certFile (\<lambda>t. certFile_update (\<lambda>_. t))"

definition LDConfigSetPrivateAttributes :: "config_ptr \<Rightarrow> json_ptr \<Rightarrow> config_ptr cmd" where
  "LDConfigSetPrivateAttributes config attributes =
     (case config of
        None \<Rightarrow> cret None
      | Some c \<Rightarrow>
          cbind (LD_ASSERT (attributes \<noteq> None \<longrightarrow> LDJSONGetType attributes = LDArray)) (\<lambda>_.
            cret (Some (c\<lparr>privateAttributeNames := attributes\<rparr>))))"

text \<open>
  There is no guard here: a \<open>NULL\<close> argument is undefined behaviour. The test for a name that is
  already used compares the stored key, not the name, with the new name.
\<close>

definition LDConfigAddSecondaryMobileKey ::
  "config_ptr \<Rightarrow> cstring \<Rightarrow> cstring \<Rightarrow> (bool \<times> config_ptr) cmd" where
  "LDConfigAddSecondaryMobileKey config name key =
     (if name = None then cfault Undefined
      else if strcmp (the name) LDPrimaryEnvironmentName = 0 then cret (False, config)
      else
        (case (config, key) of
           (Some c, Some k) \<Rightarrow>
             (if mobileKey c = None then cfault Undefined
              else if strcmp k (the (mobileKey c)) = 0 then cret (False, config)
              else
                (let tmp = LDObjectLookup (secondaryMobileKeys c) name in
                 if tmp \<noteq> None \<and> LDGetText tmp = None then cfault Undefined
                 else if tmp \<noteq> None \<and> strcmp (the (LDGetText tmp)) (the name) = 0
                 then cret (False, config)
                 else
                   cbind (ctry (LDNewText key)) (\<lambda>tmp.
                     if tmp = None then cret (False, config)
                     else
                       cbind (ctry (LDObjectSetKey (secondaryMobileKeys c) name tmp)) (\<lambda>r.
                         case r of
                           None \<Rightarrow> cret (False, config)
                         | Some keys \<Rightarrow>
                             cret (True, Some (c\<lparr>secondaryMobileKeys := Some keys\<rparr>))))))
         | _ \<Rightarrow> cfault Undefined))"

section \<open>The configurations that can be built\<close>

text \<open>
  A configuration comes from \<open>LDConfigNew\<close> and calls of the setters with any arguments, under
  any behaviour of the allocator.
\<close>

inductive config_built :: "LDConfig \<Rightarrow> bool" where
  new: "LDConfigNew key m = (Val c, m') \<Longrightarrow> config_built c"
| flag: "config_built c \<Longrightarrow>
    f \<in> {LDConfigSetAllAttributesPrivate, LDConfigSetDisableBackgroundUpdating, LDConfigSetOffline,
         LDConfigSetStreaming, LDConfigSetUseReport, LDConfigSetUseEvaluationReasons,
         LDConfigSetVerifyPeer, LDConfigSetInlineUsersInEvents, LDConfigAutoAliasOptOut} \<Longrightarrow>
    f (Some c) b = Some c' \<Longrightarrow> config_built c'"
| number: "config_built c \<Longrightarrow> is_int i \<Longrightarrow>
    f \<in> {LDConfigSetConnectionTimeoutMillis, LDConfigSetConnectionTimeoutMillies,
         LDConfigSetRequestTimeoutMillis, LDConfigSetEventsFlushIntervalMillis,
         LDConfigSetEventsCapacity, LDConfigSetBackgroundPollingIntervalMillis,
         LDConfigSetPollingIntervalMillis} \<Longrightarrow>
    f (Some c) i = Some c' \<Longrightarrow> config_built c'"
| str: "config_built c \<Longrightarrow>
    f \<in> {LDConfigSetAppURI, LDConfigSetEventsURI, LDConfigSetStreamURI, LDConfigSetProxyURI,
         LDConfigSetMobileKey, LDConfigSetSSLCertificateAuthority} \<Longrightarrow>
    f (Some c) s m = (Val (ok, Some c'), m') \<Longrightarrow> config_built c'"
| attributes: "config_built c \<Longrightarrow>
    LDConfigSetPrivateAttributes (Some c) attrs m = (Val (Some c'), m') \<Longrightarrow> config_built c'"
| secondary: "config_built c \<Longrightarrow>
    LDConfigAddSecondaryMobileKey (Some c) name key m = (Val (ok, Some c'), m') \<Longrightarrow> config_built c'"

definition config_inv :: "LDConfig \<Rightarrow> bool" where
  "config_inv c \<longleftrightarrow>
     pollingIntervalMillis c \<ge> 30000 \<and> backgroundPollingIntervalMillis c \<ge> 900000 \<and>
     mobileKey c \<noteq> None \<and> appURI c \<noteq> None \<and> eventsURI c \<noteq> None \<and> streamURI c \<noteq> None \<and>
     (privateAttributeNames c \<noteq> None \<longrightarrow> LDJSONGetType (privateAttributeNames c) = LDArray) \<and>
     (\<exists>xs. secondaryMobileKeys c = Some (JObject xs) \<and> distinct (map fst xs) \<and>
        LDPrimaryEnvironmentName \<notin> fst ` set xs \<and> (\<forall>(n, v) \<in> set xs. cJSON_IsString v))"

section \<open>Lemmas\<close>

lemmas config_setter_defs = LDConfigSetAllAttributesPrivate_def LDConfigSetDisableBackgroundUpdating_def
  LDConfigSetOffline_def LDConfigSetStreaming_def LDConfigSetUseReport_def
  LDConfigSetUseEvaluationReasons_def LDConfigSetVerifyPeer_def LDConfigSetInlineUsersInEvents_def
  LDConfigAutoAliasOptOut_def LDConfigSetConnectionTimeoutMillis_def
  LDConfigSetConnectionTimeoutMillies_def LDConfigSetRequestTimeoutMillis_def
  LDConfigSetEventsFlushIntervalMillis_def LDConfigSetEventsCapacity_def
  LDConfigSetBackgroundPollingIntervalMillis_def LDConfigSetPollingIntervalMillis_def
  LDConfigSetAppURI_def LDConfigSetEventsURI_def LDConfigSetStreamURI_def LDConfigSetProxyURI_def
  LDConfigSetMobileKey_def LDConfigSetSSLCertificateAuthority_def

lemma set_or_null_Val: "set_or_null t s m = (Val r, m') \<Longrightarrow> r = s"
  using LDSetString_cases[of t s m] by (auto simp: set_or_null_def cmd_Val_iffs split: if_splits)

lemma config_inv_new: "LDConfigNew key m = (Val c, m') \<Longrightarrow> config_inv c"
  by (auto simp: LDConfigNew_def cmd_Val_iffs LDNewObject_def config_inv_def config_defaults_def
      split: if_splits dest!: set_or_null_Val)

lemma LDSetString_keeps_Some:
  "LDSetString t (Some s) m = (Val (ok, r), m') \<Longrightarrow> t \<noteq> None \<Longrightarrow> r \<noteq> None"
  using LDSetString_cases[of t "Some s" m] by auto

lemma LDi_setTrimmedString_keeps_Some:
  "LDi_setTrimmedString t (Some s) m = (Val (ok, r), m') \<Longrightarrow> t \<noteq> None \<Longrightarrow> r \<noteq> None"
  by (auto simp: LDi_setTrimmedString_def cmd_Val_iffs split: option.splits dest: LDSetString_keeps_Some)

lemma config_set_string_Val:
  assumes "config_set_string setter get put (Some c) s m = (Val (ok, Some c'), m')"
    and "setter \<in> {LDSetString, LDi_setTrimmedString}"
  shows "c' = c \<or> (\<exists>t. c' = put t c \<and> (get c \<noteq> None \<longrightarrow> t \<noteq> None))"
proof (cases s)
  case None
  with assms show ?thesis by (simp add: config_set_string_def cret_Val_iff)
next
  case (Some v)
  with assms obtain t m1 where "setter (get c) (Some v) m = (Val (ok, t), m1)" "c' = put t c"
    by (auto simp: config_set_string_def cmd_Val_iffs)
  with assms(2) LDSetString_keeps_Some LDi_setTrimmedString_keeps_Some show ?thesis by blast
qed

lemma config_inv_str:
  assumes "config_inv c" and "f (Some c) s m = (Val (ok, Some c'), m')"
    and "f \<in> {LDConfigSetAppURI, LDConfigSetEventsURI, LDConfigSetStreamURI, LDConfigSetProxyURI,
         LDConfigSetMobileKey, LDConfigSetSSLCertificateAuthority}"
  shows "config_inv c'"
  using assms(3,2)
  by (elim insertE emptyE)
    (use assms(1) in \<open>auto simp: config_setter_defs config_inv_def dest!: config_set_string_Val\<close>)

lemma LDConfigAddSecondaryMobileKey_Val:
  assumes "LDConfigAddSecondaryMobileKey (Some c) name key m = (Val (ok, Some c'), m')"
  shows "c' = c \<or> (\<exists>n k obj m1 m2. n \<noteq> LDPrimaryEnvironmentName \<and>
     LDObjectSetKey (secondaryMobileKeys c) (Some n) (Some (JText k)) m1 = (Val obj, m2) \<and>
     c' = c\<lparr>secondaryMobileKeys := Some obj\<rparr>)"
proof (cases "c' = c")
  case False
  have "name \<noteq> None"
    using assms by (cases name) (simp_all add: LDConfigAddSecondaryMobileKey_def cfault_not_Val)
  moreover have "key \<noteq> None"
    using assms False calculation
    by (cases key)
      (auto simp: LDConfigAddSecondaryMobileKey_def cfault_not_Val cret_Val_iff split: if_splits)
  ultimately obtain n k where nk: "name = Some n" "key = Some k" by auto
  with assms False obtain t m1 r m2 where "n \<noteq> LDPrimaryEnvironmentName"
    "ctry (LDNewText (Some k)) m = (Val (Some t), m1)"
    "ctry (LDObjectSetKey (secondaryMobileKeys c) (Some n) (Some t)) m1 = (Val (Some r), m2)"
    "c' = c\<lparr>secondaryMobileKeys := Some r\<rparr>"
    unfolding LDConfigAddSecondaryMobileKey_def Let_def
    by (simp add: cmd_Val_iffs cfault_not_Val split: if_splits option.splits) blast
  then show ?thesis using LDNewText_Val unfolding ctry_Val_iff by blast
qed simp

lemma config_inv_secondary:
  assumes inv: "config_inv c"
    and r: "LDConfigAddSecondaryMobileKey (Some c) name key m = (Val (ok, Some c'), m')"
  shows "config_inv c'"
proof -
  obtain xs where xs: "secondaryMobileKeys c = Some (JObject xs)" "distinct (map fst xs)"
      "LDPrimaryEnvironmentName \<notin> fst ` set xs" "\<forall>(n, v) \<in> set xs. cJSON_IsString v"
    using inv by (auto simp: config_inv_def)
  consider "c' = c" | n k obj m1 m2 where "n \<noteq> LDPrimaryEnvironmentName"
      "LDObjectSetKey (Some (JObject xs)) (Some n) (Some (JText k)) m1 = (Val obj, m2)"
      "c' = c\<lparr>secondaryMobileKeys := Some obj\<rparr>"
    using LDConfigAddSecondaryMobileKey_Val[OF r] unfolding xs(1) by blast
  then show ?thesis
  proof cases
    case 2
    then consider "obj = JObject (delete_first n xs)" | "obj = JObject (obj_put xs n (JText k))"
      using LDObjectSetKey_Val by blast
    then obtain ys where ys: "obj = JObject ys" "distinct (map fst ys)" "set ys \<subseteq> insert (n, JText k) (set xs)"
      using xs(2) distinct_delete_first distinct_obj_put set_obj_put set_delete_first
      by (metis insertCI subsetD subsetI)
    with 2 xs inv show ?thesis by (fastforce simp: config_inv_def)
  qed (use inv in simp)
qed

lemma config_built_inv: "config_built c \<Longrightarrow> config_inv c"
proof (induction rule: config_built.induct)
  case (flag c f b c')
  then show ?case by (auto simp: config_setter_defs config_inv_def)
next
  case (number c i f c')
  then show ?case by (auto simp: config_setter_defs config_inv_def Let_def)
next
  case (attributes c attrs m c' m')
  then show ?case
    by (auto simp: LDConfigSetPrivateAttributes_def config_inv_def cmd_Val_iffs LD_ASSERT_def cfault_def
        split: if_splits)
qed (auto intro: config_inv_new config_inv_str config_inv_secondary)

section \<open>Properties\<close>

text \<open>C39. However an application builds a configuration, and whatever the allocator does, the
  polling intervals respect their minimum, the addresses and the mobile key are set, the
  private attribute names are an array, and the secondary environments have distinct names,
  none of them the primary one, with keys that are texts.\<close>

theorem config_built_wellformed:
  assumes "config_built c"
  shows "pollingIntervalMillis c \<ge> 30000 \<and> backgroundPollingIntervalMillis c \<ge> 900000 \<and>
    mobileKey c \<noteq> None \<and> appURI c \<noteq> None \<and> eventsURI c \<noteq> None \<and> streamURI c \<noteq> None \<and>
    (privateAttributeNames c \<noteq> None \<longrightarrow> LDJSONGetType (privateAttributeNames c) = LDArray) \<and>
    (\<exists>xs. secondaryMobileKeys c = Some (JObject xs) \<and> distinct (map fst xs) \<and>
       LDPrimaryEnvironmentName \<notin> fst ` set xs \<and> (\<forall>(n, v) \<in> set xs. cJSON_IsString v))"
  using config_built_inv[OF assms] by (simp add: config_inv_def)

definition sample_config :: LDConfig where
  "sample_config =
     config_defaults\<lparr>appURI := Some ''https://app.launchdarkly.com'',
       eventsURI := Some ''https://mobile.launchdarkly.com'', mobileKey := Some ''mob'',
       streamURI := Some ''https://clientstream.launchdarkly.com'',
       secondaryMobileKeys := Some (JObject [])\<rparr>"

lemma sample_config_new: "LDConfigNew (Some ''mob'') [] = (Val sample_config, [])"
  by (simp add: LDConfigNew_def set_or_null_def alloc_ok sample_config_def)

theorem config_built_wellformed_witness:
  "config_built sample_config \<and> pollingIntervalMillis sample_config \<ge> 30000"
  using config_built_wellformed[OF config_built.new[OF sample_config_new]]
    config_built.new[OF sample_config_new] by blast

text \<open>Setting a service address removes exactly one trailing slash; an allocation failure
  leaves the old address.\<close>

theorem setAppURI_trims:
  "\<exists>m'. LDConfigSetAppURI (Some c) (Some uri) m =
     (Val (True, Some (c\<lparr>appURI := Some (if uri \<noteq> [] \<and> last uri = CHR ''/'' then butlast uri else uri)\<rparr>)), m') \<or>
   LDConfigSetAppURI (Some c) (Some uri) m = (Val (False, Some c), m')"
proof -
  let ?t = "if uri \<noteq> [] \<and> last uri = CHR ''/'' then butlast uri else uri"
  have trim: "LDi_trimTrailingSlash uri = cbind LDAlloc (\<lambda>_. cret ?t)"
    by (auto simp: LDi_trimTrailingSlash_def Let_def LDStrDup_def LDStrNDup_def last_conv_nth
        butlast_conv_take)
  have keep: "c\<lparr>appURI := appURI c\<rparr> = c" by simp
  show ?thesis
  proof (cases "fst (LDAlloc m) = Null")
    case True
    then have "LDConfigSetAppURI (Some c) (Some uri) m = (Val (False, Some c), tl m)"
      by (cases m rule: LDAlloc.cases)
        (simp_all add: LDConfigSetAppURI_def config_set_string_def LDi_setTrimmedString_def trim
          cmd_simps keep)
    then show ?thesis by blast
  next
    case False
    then have "ctry (cbind LDAlloc (\<lambda>_. cret ?t)) m = (Val (Some ?t), tl m)"
      by (cases m rule: LDAlloc.cases) (simp_all add: cmd_simps)
    with LDSetString_cases[of "appURI c" "Some ?t" "tl m"] show ?thesis
      by (auto simp: LDConfigSetAppURI_def config_set_string_def LDi_setTrimmedString_def trim
          cbind_def[of "ctry (cbind LDAlloc (\<lambda>_. cret ?t))"] cbind_def[of "LDSetString (appURI c) (Some ?t)"]
          cbind_def[of "cbind (ctry (cbind LDAlloc (\<lambda>_. cret ?t))) _"] cret_def)
  qed
qed

text \<open>A secondary environment name can be added twice, contrary to the documented contract:
  the second call succeeds and replaces the key, unless the stored key happens to equal the
  name.\<close>

theorem secondary_name_added_twice:
  assumes "config_inv c" and "name \<noteq> LDPrimaryEnvironmentName"
    and "mobileKey c \<noteq> Some key1" and "mobileKey c \<noteq> Some key2" and "key1 \<noteq> name"
    and "LDObjectLookup (secondaryMobileKeys c) (Some name) = None"
  shows "\<exists>c1 c2. LDConfigAddSecondaryMobileKey (Some c) (Some name) (Some key1) [] = (Val (True, Some c1), []) \<and>
    LDConfigAddSecondaryMobileKey (Some c1) (Some name) (Some key2) [] = (Val (True, Some c2), []) \<and>
    LDObjectLookup (secondaryMobileKeys c2) (Some name) = Some (JText key2)"
proof -
  obtain xs mob where xs: "secondaryMobileKeys c = Some (JObject xs)" "distinct (map fst xs)"
      "mobileKey c = Some mob"
    using assms(1) by (auto simp: config_inv_def)
  with assms show ?thesis
    by (simp add: LDConfigAddSecondaryMobileKey_def alloc_ok Let_def obj_simps)
qed

theorem secondary_name_added_twice_witness:
  "\<exists>c1 c2. LDConfigAddSecondaryMobileKey (Some sample_config) (Some ''qa'') (Some ''k1'') [] =
      (Val (True, Some c1), []) \<and>
    LDConfigAddSecondaryMobileKey (Some c1) (Some ''qa'') (Some ''k2'') [] = (Val (True, Some c2), [])"
proof -
  have "config_inv sample_config" by (rule config_inv_new[OF sample_config_new])
  from secondary_name_added_twice[OF this, of "''qa''" "''k1''" "''k2''"] show ?thesis
    by (auto simp: sample_config_def LDPrimaryEnvironmentName_def)
qed

end
