(* ===== verification/User.thy ===== *)
theory User
  imports Utility Listener Cjson
begin

text \<open>
  Users (\<open>c-sdk-common/src/user.c\<close>, \<open>src/user.c\<close>): construction, the attribute setters, the
  private attribute test, and the two JSON forms of a user, the full one that is sent to
  request flags and the redacted one that is put into events. The lemmas show that a priv
  attribute never reaches an event, whatever the allocator does, and what exactly the
  redacted form contains when memory suffices.
\<close>

section \<open>The user\<close>

record LDUser =
  user_key :: cstring
  user_anonymous :: bool
  user_secondary :: cstring
  user_ip :: cstring
  user_firstName :: cstring
  user_lastName :: cstring
  user_email :: cstring
  user_name :: cstring
  user_avatar :: cstring
  user_country :: cstring
  user_privateAttributeNames :: json_ptr
  user_custom :: json_ptr

type_synonym user_ptr = "LDUser option"

definition LDi_userNew :: "cstring \<Rightarrow> LDUser cmd" where
  "LDi_userNew key =
     cbind (LD_ASSERT (key \<noteq> None)) (\<lambda>_.
     cbind LDAlloc (\<lambda>_.
     cbind (LDSetString None key) (\<lambda>(ok, k).
       if \<not> ok then cnull
       else
         cbind LDNewArray (\<lambda>names.
           cret \<lparr>user_key = k, user_anonymous = False, user_secondary = None, user_ip = None,
                 user_firstName = None, user_lastName = None, user_email = None,
                 user_name = None, user_avatar = None, user_country = None,
                 user_privateAttributeNames = Some names, user_custom = None\<rparr>))))"

subsection \<open>Setters\<close>

definition LDUserSetAnonymous :: "user_ptr \<Rightarrow> bool \<Rightarrow> user_ptr" where
  "LDUserSetAnonymous user anon = map_option (\<lambda>u. u\<lparr>user_anonymous := anon\<rparr>) user"

text \<open>
  The string setters differ in the field, given by its selector and update. All of them but
  \<open>LDUserSetFirstName\<close> guard against a \<open>NULL\<close> user.
\<close>

definition user_set_string ::
  "(LDUser \<Rightarrow> cstring) \<Rightarrow> (cstring \<Rightarrow> LDUser \<Rightarrow> LDUser) \<Rightarrow> user_ptr \<Rightarrow> cstring \<Rightarrow> (bool \<times> user_ptr) cmd" where
  "user_set_string get put user v =
     (case user of
        None \<Rightarrow> cret (False, None)
      | Some u \<Rightarrow> cbind (LDSetString (get u) v) (\<lambda>(ok, s). cret (ok, Some (put s u))))"

definition LDUserSetIP :: "user_ptr \<Rightarrow> cstring \<Rightarrow> (bool \<times> user_ptr) cmd" where
  "LDUserSetIP = user_set_string user_ip (\<lambda>s. user_ip_update (\<lambda>_. s))"

definition LDUserSetFirstName :: "user_ptr \<Rightarrow> cstring \<Rightarrow> (bool \<times> user_ptr) cmd" where
  "LDUserSetFirstName user firstName =
     (if user = None then cfault Undefined
      else user_set_string user_firstName (\<lambda>s. user_firstName_update (\<lambda>_. s)) user firstName)"

definition LDUserSetLastName :: "user_ptr \<Rightarrow> cstring \<Rightarrow> (bool \<times> user_ptr) cmd" where
  "LDUserSetLastName = user_set_string user_lastName (\<lambda>s. user_lastName_update (\<lambda>_. s))"

definition LDUserSetEmail :: "user_ptr \<Rightarrow> cstring \<Rightarrow> (bool \<times> user_ptr) cmd" where
  "LDUserSetEmail = user_set_string user_email (\<lambda>s. user_email_update (\<lambda>_. s))"

definition LDUserSetName :: "user_ptr \<Rightarrow> cstring \<Rightarrow> (bool \<times> user_ptr) cmd" where
  "LDUserSetName = user_set_string user_name (\<lambda>s. user_name_update (\<lambda>_. s))"

definition LDUserSetAvatar :: "user_ptr \<Rightarrow> cstring \<Rightarrow> (bool \<times> user_ptr) cmd" where
  "LDUserSetAvatar = user_set_string user_avatar (\<lambda>s. user_avatar_update (\<lambda>_. s))"

definition LDUserSetCountry :: "user_ptr \<Rightarrow> cstring \<Rightarrow> (bool \<times> user_ptr) cmd" where
  "LDUserSetCountry = user_set_string user_country (\<lambda>s. user_country_update (\<lambda>_. s))"

definition LDUserSetSecondary :: "user_ptr \<Rightarrow> cstring \<Rightarrow> (bool \<times> user_ptr) cmd" where
  "LDUserSetSecondary = user_set_string user_secondary (\<lambda>s. user_secondary_update (\<lambda>_. s))"

definition LDUserSetCustom :: "user_ptr \<Rightarrow> json_ptr \<Rightarrow> user_ptr" where
  "LDUserSetCustom user custom = map_option (\<lambda>u. u\<lparr>user_custom := custom\<rparr>) user"

definition LDUserSetPrivateAttributes :: "user_ptr \<Rightarrow> json_ptr \<Rightarrow> user_ptr" where
  "LDUserSetPrivateAttributes user privateAttributes =
     (if privateAttributes = None then user
      else map_option (\<lambda>u. u\<lparr>user_privateAttributeNames := privateAttributes\<rparr>) user)"

definition LDUserSetCustomAttributesJSON :: "user_ptr \<Rightarrow> json_ptr \<Rightarrow> user_ptr" where
  "LDUserSetCustomAttributesJSON user custom = LDUserSetCustom user custom"

definition LDUserAddPrivateAttribute :: "user_ptr \<Rightarrow> cstring \<Rightarrow> (bool \<times> user_ptr) cmd" where
  "LDUserAddPrivateAttribute user attribute =
     (case user of
        None \<Rightarrow> cret (False, None)
      | Some u \<Rightarrow>
          (if attribute = None then cret (False, user)
           else
             cbind (ctry (LDNewText attribute)) (\<lambda>t.
               case t of
                 None \<Rightarrow> cret (False, user)
               | Some temp \<Rightarrow>
                   (case LDArrayPush (user_privateAttributeNames u) (Some temp) of
                      (ok, names) \<Rightarrow> cret (ok, Some (u\<lparr>user_privateAttributeNames := names\<rparr>))))))"

text \<open>
  \<open>LDUserNew\<close>: without a key the device identifier, or 32 random hexadecimal digits when there
  is none, becomes the key of an anonymous user. The buffer of the digits is zeroed, so a
  failing generator leaves a shorter key.
\<close>

definition LDUserNew :: "cstring \<Rightarrow> (nat \<Rightarrow> u32 option) \<Rightarrow> cstring \<Rightarrow> LDUser cmd" where
  "LDUserNew deviceIdentifier rng key =
     (case key of
        Some (c # cs) \<Rightarrow> LDi_userNew key
      | _ \<Rightarrow>
          (let actualKey = (case deviceIdentifier of
                              Some d \<Rightarrow> d
                            | None \<Rightarrow> snd (LDi_randomHex rng 32))
           in cbind (LDi_userNew (Some actualKey)) (\<lambda>user.
              cret (the (LDUserSetAnonymous (Some user) True)))))"

section \<open>Private attributes\<close>

text \<open>\<open>strcmp\<close> on an element that is not text reads through \<open>NULL\<close>.\<close>

fun text_in_iter :: "json_iter \<Rightarrow> string \<Rightarrow> bool result" where
  "text_in_iter [] text = Val False"
| "text_in_iter ((_, iter) # rest) text =
     (case LDGetText (Some iter) of
        None \<Rightarrow> Fault Undefined
      | Some t \<Rightarrow> if strcmp t text = 0 then Val True else text_in_iter rest text)"

definition LDi_textInArray :: "json_ptr \<Rightarrow> cstring \<Rightarrow> bool cmd" where
  "LDi_textInArray array text =
     cbind (LD_ASSERT (array \<noteq> None)) (\<lambda>_.
     cbind (LD_ASSERT (text \<noteq> None)) (\<lambda>_. clift (text_in_iter (LDGetIter array) (the text))))"

definition isPrivateAttr :: "LDUser \<Rightarrow> cstring \<Rightarrow> bool \<Rightarrow> json_ptr \<Rightarrow> bool cmd" where
  "isPrivateAttr user key allAttributesPrivate globalPrivateAttributeNames =
     cbind (LD_ASSERT (key \<noteq> None)) (\<lambda>_.
       if allAttributesPrivate then cret True
       else
         cbind (if globalPrivateAttributeNames \<noteq> None
                then LDi_textInArray globalPrivateAttributeNames key else cret False) (\<lambda>found.
           if found then cret True
           else LDi_textInArray (user_privateAttributeNames user) key))"

definition addHidden :: "json_ptr \<Rightarrow> cstring \<Rightarrow> json cmd" where
  "addHidden ref v =
     cbind (LD_ASSERT (v \<noteq> None)) (\<lambda>_.
     cbind (case ref of None \<Rightarrow> LDNewArray | Some a \<Rightarrow> cret a) (\<lambda>arr.
     cbind (LDNewText v) (\<lambda>text. cret (the (snd (LDArrayPush (Some arr) (Some text)))))))"

section \<open>The user in an event\<close>

text \<open>The string attributes in the order of the \<open>addstring\<close> macro calls.\<close>

definition user_strings :: "LDUser \<Rightarrow> (string \<times> cstring) list" where
  "user_strings user =
     [(''secondary'', user_secondary user), (''ip'', user_ip user),
      (''firstName'', user_firstName user), (''lastName'', user_lastName user),
      (''email'', user_email user), (''name'', user_name user),
      (''avatar'', user_avatar user), (''country'', user_country user)]"

fun event_user_strings ::
  "(string \<Rightarrow> bool cmd) \<Rightarrow> (string \<times> cstring) list \<Rightarrow> json \<Rightarrow> json_ptr \<Rightarrow> (json \<times> json_ptr) cmd" where
  "event_user_strings priv [] json hidden = cret (json, hidden)"
| "event_user_strings priv ((name, None) # rest) json hidden =
     event_user_strings priv rest json hidden"
| "event_user_strings priv ((name, Some v) # rest) json hidden =
     cbind (priv name) (\<lambda>p.
       if p then
         cbind (addHidden hidden (Some name)) (\<lambda>h. event_user_strings priv rest json (Some h))
       else
         cbind (json_set_new json name (LDNewText (Some v))) (\<lambda>json.
           event_user_strings priv rest json hidden))"

text \<open>
  The loop over a copy of the custom attributes; the next item is read before the current one
  is deleted from the copy by its name.
\<close>

fun event_user_custom ::
  "(string \<Rightarrow> bool cmd) \<Rightarrow> json_iter \<Rightarrow> json_ptr \<Rightarrow> json_ptr \<Rightarrow> (json_ptr \<times> json_ptr) cmd" where
  "event_user_custom priv [] custom hidden = cret (custom, hidden)"
| "event_user_custom priv ((None, _) # rest) custom hidden = cfault AssertFailed"
| "event_user_custom priv ((Some key, _) # rest) custom hidden =
     cbind (priv key) (\<lambda>p.
       if p then
         cbind (addHidden hidden (Some key)) (\<lambda>h.
           event_user_custom priv rest (LDObjectDeleteKey custom (Some key)) (Some h))
       else event_user_custom priv rest custom hidden)"

definition event_user_add_custom ::
  "(string \<Rightarrow> bool cmd) \<Rightarrow> json_ptr \<Rightarrow> json \<Rightarrow> json_ptr \<Rightarrow> (json \<times> json_ptr) cmd" where
  "event_user_add_custom priv userCustom json hidden =
     (case userCustom of
        None \<Rightarrow> cret (json, hidden)
      | Some c \<Rightarrow>
          cbind (LDJSONDuplicate (Some c)) (\<lambda>custom.
          cbind (if LDJSONGetType (Some custom) = LDObject
                 then event_user_custom priv (LDGetIter (Some custom)) (Some custom) hidden
                 else cret (Some custom, hidden)) (\<lambda>(custom, hidden).
          cbind (LDObjectSetKey (Some json) (Some ''custom'') custom) (\<lambda>json.
            cret (json, hidden)))))"

definition LDi_createEventUser :: "LDUser \<Rightarrow> bool \<Rightarrow> json_ptr \<Rightarrow> json cmd" where
  "LDi_createEventUser user allAttributesPrivate globalPrivateAttributeNames =
     (let priv = (\<lambda>key. isPrivateAttr user (Some key) allAttributesPrivate
                          globalPrivateAttributeNames)
      in
     cbind LDNewObject (\<lambda>json.
     cbind (json_set_new json ''key'' (LDNewText (user_key user))) (\<lambda>json.
     cbind (json_set_if (user_anonymous user) json ''anonymous''
              (LDNewBool (user_anonymous user))) (\<lambda>json.
     cbind (event_user_strings priv (user_strings user) json None) (\<lambda>(json, hidden).
     cbind (event_user_add_custom priv (user_custom user) json hidden) (\<lambda>(json, hidden).
       case hidden of
         None \<Rightarrow> cret json
       | Some h \<Rightarrow> LDObjectSetKey (Some json) (Some ''privateAttrs'') (Some h)))))))"

section \<open>The full user\<close>

text \<open>The results of these calls are not inspected: what fails is left out.\<close>

definition set_key_ignore :: "json_ptr \<Rightarrow> string \<Rightarrow> json cmd \<Rightarrow> json_ptr cmd" where
  "set_key_ignore attrs key mk =
     cbind (ctry mk) (\<lambda>item.
     cbind (ctry (LDObjectSetKey attrs (Some key) item)) (\<lambda>r.
       cret (case r of None \<Rightarrow> attrs | Some attrs' \<Rightarrow> Some attrs')))"

fun serialize_strings :: "(string \<times> cstring) list \<Rightarrow> json_ptr \<Rightarrow> json_ptr cmd" where
  "serialize_strings [] attrs = cret attrs"
| "serialize_strings ((name, None) # rest) attrs = serialize_strings rest attrs"
| "serialize_strings ((name, Some v) # rest) attrs =
     cbind (set_key_ignore attrs name (LDNewText (Some v))) (\<lambda>attrs. serialize_strings rest attrs)"

definition serializeUser_attrs :: "LDUser \<Rightarrow> json_ptr cmd" where
  "serializeUser_attrs user =
     cbind (ctry LDNewObject) (\<lambda>attrs.
     cbind (set_key_ignore attrs ''key'' (LDNewText (user_key user))) (\<lambda>attrs.
     cbind (if user_anonymous user then set_key_ignore attrs ''anonymous'' (LDNewBool True)
            else cret attrs) (\<lambda>attrs.
     cbind (serialize_strings (user_strings user) attrs) (\<lambda>attrs.
     cbind (if user_custom user \<noteq> None \<and> LDCollectionGetSize (user_custom user) > 0
            then set_key_ignore attrs ''custom'' (LDJSONDuplicate (user_custom user))
            else cret attrs) (\<lambda>attrs.
       if user_privateAttributeNames user \<noteq> None \<and>
          LDCollectionGetSize (user_privateAttributeNames user) > 0
       then set_key_ignore attrs ''privateAttributeNames''
              (LDJSONDuplicate (user_privateAttributeNames user))
       else cret attrs)))))"

definition LDi_serializeUser :: "LDUser \<Rightarrow> string cmd" where
  "LDi_serializeUser user =
     cbind (serializeUser_attrs user) (\<lambda>attrs. LDJSONSerialize attrs)"

section \<open>Reading one attribute\<close>

definition text_or_null :: "cstring \<Rightarrow> json cmd" where
  "text_or_null field = (if field \<noteq> None then LDNewText field else cnull)"

definition LDi_valueOfAttribute :: "LDUser \<Rightarrow> string \<Rightarrow> json cmd" where
  "LDi_valueOfAttribute user attribute =
     (if strcmp attribute ''key'' = 0 then text_or_null (user_key user)
      else if strcmp attribute ''secondary'' = 0 then text_or_null (user_secondary user)
      else if strcmp attribute ''ip'' = 0 then text_or_null (user_ip user)
      else if strcmp attribute ''email'' = 0 then text_or_null (user_email user)
      else if strcmp attribute ''firstName'' = 0 then text_or_null (user_firstName user)
      else if strcmp attribute ''lastName'' = 0 then text_or_null (user_lastName user)
      else if strcmp attribute ''avatar'' = 0 then text_or_null (user_avatar user)
      else if strcmp attribute ''country'' = 0 then text_or_null (user_country user)
      else if strcmp attribute ''name'' = 0 then text_or_null (user_name user)
      else if strcmp attribute ''anonymous'' = 0 then LDNewBool (user_anonymous user)
      else
        (case user_custom user of
           None \<Rightarrow> cnull
         | Some c \<Rightarrow>
             cbind (LD_ASSERT (LDJSONGetType (Some c) = LDObject)) (\<lambda>_.
               case LDObjectLookup (Some c) (Some attribute) of
                 Some node \<Rightarrow> LDJSONDuplicate (Some node)
               | None \<Rightarrow> cnull)))"

section \<open>Lemmas\<close>

subsection \<open>Which attributes are private\<close>

definition names_in :: "json_ptr \<Rightarrow> string set" where
  "names_in array = {t. JText t \<in> snd ` set (LDGetIter array)}"

definition attr_private :: "LDUser \<Rightarrow> bool \<Rightarrow> json_ptr \<Rightarrow> string \<Rightarrow> bool" where
  "attr_private user allPriv globals key \<longleftrightarrow>
     allPriv \<or> key \<in> names_in globals \<or> key \<in> names_in (user_privateAttributeNames user)"

definition all_text :: "json_ptr \<Rightarrow> bool" where
  "all_text array \<longleftrightarrow> list_all (\<lambda>x. cJSON_IsString (snd x)) (LDGetIter array)"

lemma names_in_None [simp]: "names_in None = {}"
  by (simp add: names_in_def LDGetIter_def)

lemma text_in_iter_Val: "text_in_iter it t = Val b \<Longrightarrow> b = (JText t \<in> snd ` set it)"
proof (induction it t rule: text_in_iter.induct)
  case (2 k iter rest t)
  then show ?case by (cases iter) (auto split: if_splits)
qed simp

lemma text_in_iter_text:
  "list_all (\<lambda>x. cJSON_IsString (snd x)) it \<Longrightarrow> text_in_iter it t = Val (JText t \<in> snd ` set it)"
proof (induction it t rule: text_in_iter.induct)
  case (2 k iter rest t)
  then show ?case by (cases iter) auto
qed simp

lemma isPrivateAttr_Val:
  assumes "isPrivateAttr user (Some k) allPriv globals m = (Val b, m')"
  shows "b = attr_private user allPriv globals k \<and> m' = m"
  using assms
  by (auto simp: isPrivateAttr_def LDi_textInArray_def attr_private_def names_in_def cmd_Val_iffs
      LD_ASSERT_def cfault_def split: if_splits dest!: text_in_iter_Val)

lemma isPrivateAttr_ok:
  assumes "user_privateAttributeNames user \<noteq> None" "all_text (user_privateAttributeNames user)"
    and "all_text globals"
  shows "isPrivateAttr user (Some k) allPriv globals m =
    (Val (attr_private user allPriv globals k), m)"
  using assms text_in_iter_text
  by (auto simp: isPrivateAttr_def LDi_textInArray_def attr_private_def names_in_def all_text_def
      cmd_simps)

subsection \<open>No private attribute in an event\<close>

definition redact :: "(string \<Rightarrow> bool) \<Rightarrow> json \<Rightarrow> json" where
  "redact P c = (case c of JObject xs \<Rightarrow> JObject (filter (\<lambda>(k, _). \<not> P k) xs) | _ \<Rightarrow> c)"

text \<open>A test that, whenever it returns, returns whether its argument satisfies \<open>P\<close>.\<close>

definition decides :: "('a \<Rightarrow> bool cmd) \<Rightarrow> ('a \<Rightarrow> bool) \<Rightarrow> bool" where
  "decides test P \<longleftrightarrow> (\<forall>k b m m'. test k m = (Val b, m') \<longrightarrow> b = P k)"

lemma decidesD: "decides test P \<Longrightarrow> test k m = (Val b, m') \<Longrightarrow> b = P k"
  by (auto simp: decides_def)

lemma isPrivateAttr_decides:
  "decides (\<lambda>k. isPrivateAttr user (Some k) allPriv globals) (attr_private user allPriv globals)"
  using isPrivateAttr_Val by (auto simp: decides_def)

lemma event_user_strings_Val:
  assumes P: "decides priv P"
    and "event_user_strings priv strs (JObject js) hidden m = (Val (j, h), m')"
  shows "\<exists>js'. j = JObject js' \<and>
    set js' \<subseteq> set js \<union> {(n, JText v) | n v. (n, Some v) \<in> set strs \<and> \<not> P n}"
  using assms(2)
proof (induction strs arbitrary: js hidden m)
  case (Cons s strs)
  obtain n f where s: "s = (n, f)" by fastforce
  show ?case
  proof (cases f)
    case None
    with Cons s show ?thesis by fastforce
  next
    case (Some v)
    with Cons.prems s obtain b m1 where b: "priv n m = (Val b, m1)"
      by (auto simp: cmd_Val_iffs)
    show ?thesis
    proof (cases b)
      case True
      with Cons.prems s Some b obtain h' m2 where
        "event_user_strings priv strs (JObject js) (Some h') m2 = (Val (j, h), m')"
        by (auto simp: cmd_Val_iffs)
      from Cons.IH[OF this] s show ?thesis by fastforce
    next
      case False
      with Cons.prems s Some b obtain j1 m2 where
        j1: "json_set_new (JObject js) n (LDNewText (Some v)) m1 = (Val j1, m2)"
        and rest: "event_user_strings priv strs j1 hidden m2 = (Val (j, h), m')"
        by (auto simp: cmd_Val_iffs)
      from json_set_new_sub[OF j1] obtain js1 where
        js1: "j1 = JObject js1" "set js1 \<subseteq> insert (n, JText v) (set js)"
        by (auto dest!: LDNewText_Val)
      moreover have "\<not> P n" using decidesD[OF P b] False by simp
      moreover obtain js' where js': "j = JObject js'"
          "set js' \<subseteq> set js1 \<union> {(n, JText v) | n v. (n, Some v) \<in> set strs \<and> \<not> P n}"
        using Cons.IH[of js1 hidden m2] rest js1(1) by blast
      ultimately have "set js' \<subseteq> set js \<union> {(n, JText v) | n v. (n, Some v) \<in> set (s # strs) \<and> \<not> P n}"
        unfolding s Some by (intro subsetI) (auto dest!: subsetD)
      with js'(1) show ?thesis by blast
    qed
  qed
qed (simp add: cret_Val_iff)

lemma event_user_custom_Val:
  assumes P: "decides priv P"
    and "event_user_custom priv (map (\<lambda>(k, x). (Some k, x)) xs) (Some (JObject (ys @ xs))) hidden m =
      (Val (c, h), m')"
    and "\<And>k. P k \<Longrightarrow> k \<notin> fst ` set ys"
  shows "c = Some (JObject (ys @ filter (\<lambda>(k, _). \<not> P k) xs))"
  using assms(2,3)
proof (induction xs arbitrary: ys hidden m)
  case (Cons x xs)
  obtain k v where x: "x = (k, v)" by fastforce
  with Cons.prems(1) obtain b m1 where b: "priv k m = (Val b, m1)"
    by (auto simp: cmd_Val_iffs)
  note P = decidesD[OF P b]
  show ?case
  proof (cases b)
    case True
    with P Cons.prems(2) have "delete_first k (ys @ x # xs) = ys @ xs" by (simp add: x)
    with Cons.prems(1) x b True obtain h' m2 where
      "event_user_custom priv (map (\<lambda>(k, x). (Some k, x)) xs) (Some (JObject (ys @ xs))) (Some h') m2 =
        (Val (c, h), m')"
      by (auto simp: cmd_Val_iffs)
    from Cons.IH[OF this Cons.prems(2)] show ?thesis using True P x by simp
  next
    case False
    with Cons.prems(1) x b have
      "event_user_custom priv (map (\<lambda>(k, x). (Some k, x)) xs) (Some (JObject ((ys @ [x]) @ xs))) hidden m1 =
        (Val (c, h), m')"
      by (auto simp: cmd_Val_iffs)
    from Cons.IH[OF this] Cons.prems(2) show ?thesis using False P x by auto
  qed
qed (simp add: cret_Val_iff)

lemma event_user_add_custom_Val:
  assumes P: "decides priv P"
    and r: "event_user_add_custom priv userCustom (JObject js) hidden m = (Val (j, h), m')"
  shows "\<exists>js'. j = JObject js' \<and>
    set js' \<subseteq> set js \<union> {(''custom'', redact P c) | c. userCustom = Some c}"
proof (cases userCustom)
  case None
  with r show ?thesis by (simp add: event_user_add_custom_def cret_Val_iff)
next
  case (Some c)
  with r obtain m1 c' h' m2 m3 where
    c': "(if LDJSONGetType (Some c) = LDObject
          then event_user_custom priv (LDGetIter (Some c)) (Some c) hidden
          else cret (Some c, hidden)) m1 = (Val (c', h'), m2)"
    and j: "LDObjectSetKey (Some (JObject js)) (Some ''custom'') c' m2 = (Val j, m3)"
    by (auto simp: event_user_add_custom_def cmd_Val_iffs LDJSONDuplicate_def)
  have "c' = Some (redact P c)"
  proof (cases c)
    case (JObject xs)
    with c' event_user_custom_Val[OF P, of xs "[]" hidden m1 c' h' m2] show ?thesis
      by (simp add: LDJSONGetType_def LDGetIter_def redact_def)
  qed (use c' in \<open>auto simp: LDJSONGetType_def redact_def cret_Val_iff\<close>)
  with j LDObjectSetKey_sub[of js "''custom''" "redact P c" m2 j m3] Some show ?thesis by auto
qed

text \<open>
  Every member of an event user is the key, the anonymous mark, the list of withheld names, a
  public string attribute or the custom attributes without the private ones.
\<close>

definition event_member_ok :: "LDUser \<Rightarrow> (string \<Rightarrow> bool) \<Rightarrow> string \<Rightarrow> json \<Rightarrow> bool" where
  "event_member_ok user P k v \<longleftrightarrow>
     k \<in> {''key'', ''anonymous'', ''privateAttrs''} \<or>
     (\<exists>s. (k, Some s) \<in> set (user_strings user) \<and> v = JText s \<and> \<not> P k) \<or>
     (\<exists>c. user_custom user = Some c \<and> k = ''custom'' \<and> v = redact P c)"

lemma LDi_createEventUser_members:
  assumes "LDi_createEventUser user allPriv globals m = (Val j, m')"
  shows "\<exists>xs. j = JObject xs \<and>
    (\<forall>(k, v) \<in> set xs. event_member_ok user (attr_private user allPriv globals) k v)"
proof -
  let ?priv = "\<lambda>k. isPrivateAttr user (Some k) allPriv globals"
  let ?P = "attr_private user allPriv globals"
  note P = isPrivateAttr_decides[of user allPriv globals]
  from assms obtain m0 j1 m1 j2 m2 j3 h3 m3 j4 h4 m4 where
    j1: "json_set_new (JObject []) ''key'' (LDNewText (user_key user)) m0 = (Val j1, m1)"
    and j2: "json_set_if (user_anonymous user) j1 ''anonymous'' (LDNewBool (user_anonymous user)) m1 = (Val j2, m2)"
    and j3: "event_user_strings ?priv (user_strings user) j2 None m2 = (Val (j3, h3), m3)"
    and j4: "event_user_add_custom ?priv (user_custom user) j3 h3 m3 = (Val (j4, h4), m4)"
    and j: "(case h4 of None \<Rightarrow> cret j4
      | Some h \<Rightarrow> LDObjectSetKey (Some j4) (Some ''privateAttrs'') (Some h)) m4 = (Val j, m')"
    by (auto simp: LDi_createEventUser_def Let_def cmd_Val_iffs LDNewObject_def)
  from json_set_new_sub[OF j1] obtain x1 where x1: "j1 = JObject x1" "fst ` set x1 \<subseteq> {''key''}"
    by fastforce
  with j2 obtain x2 where x2: "j2 = JObject x2" "fst ` set x2 \<subseteq> {''key'', ''anonymous''}"
    by (fastforce simp: json_set_if_def cret_Val_iff split: if_splits dest!: json_set_new_sub)
  from event_user_strings_Val[OF P j3[unfolded x2(1)]] obtain x3 where
    x3: "j3 = JObject x3"
      "set x3 \<subseteq> set x2 \<union> {(n, JText v) | n v. (n, Some v) \<in> set (user_strings user) \<and> \<not> ?P n}"
    by blast
  from event_user_add_custom_Val[OF P j4[unfolded x3(1)]] obtain x4 where
    x4: "j4 = JObject x4" "set x4 \<subseteq> set x3 \<union> {(''custom'', redact ?P c) | c. user_custom user = Some c}"
    by blast
  obtain h x5 where x5: "j = JObject x5" "set x5 \<subseteq> insert (''privateAttrs'', h) (set x4)"
    using j x4(1) by (cases h4) (auto simp: cret_Val_iff dest!: LDObjectSetKey_sub)
  have "event_member_ok user ?P k v" if kv: "(k, v) \<in> set x5" for k v
  proof -
    consider "k = ''privateAttrs''" | "\<exists>c. (k, v) = (''custom'', redact ?P c) \<and> user_custom user = Some c"
      | "\<exists>s. (k, v) = (k, JText s) \<and> (k, Some s) \<in> set (user_strings user) \<and> \<not> ?P k"
      | "(k, v) \<in> set x2"
      using subsetD[OF x5(2) kv] subsetD[OF x4(2), of "(k, v)"] subsetD[OF x3(2), of "(k, v)"] by auto
    then show ?thesis
    proof cases
      case 4
      then have "k \<in> fst ` set x2" by force
      with x2(2) show ?thesis by (auto simp: event_member_ok_def)
    qed (auto simp: event_member_ok_def)
  qed
  with x5 show ?thesis by blast
qed

lemma redact_lookup: "P k \<Longrightarrow> LDObjectLookup (Some (redact P c)) (Some k) = None"
  by (cases c) (auto simp: redact_def map_of_eq_None_iff)

lemma event_member_private:
  assumes "event_member_ok user P k v" and "k \<in> fst ` set (user_strings user)"
  shows "\<not> P k"
  using assms by (auto simp: event_member_ok_def user_strings_def)

subsection \<open>The exact form of an event user\<close>

definition hidden_array :: "string list \<Rightarrow> json_ptr" where
  "hidden_array ns = (if ns = [] then None else Some (JArray (map JText ns)))"

definition public_strings :: "(string \<Rightarrow> bool) \<Rightarrow> (string \<times> cstring) list \<Rightarrow> (string \<times> json) list" where
  "public_strings P strs = [(n, JText v). (n, Some v) \<leftarrow> strs, \<not> P n]"

definition private_strings :: "(string \<Rightarrow> bool) \<Rightarrow> (string \<times> cstring) list \<Rightarrow> string list" where
  "private_strings P strs = [n. (n, Some v) \<leftarrow> strs, P n]"

definition private_custom :: "(string \<Rightarrow> bool) \<Rightarrow> json_ptr \<Rightarrow> string list" where
  "private_custom P c = (case c of Some (JObject xs) \<Rightarrow> filter P (map fst xs) | _ \<Rightarrow> [])"

definition event_user_members :: "LDUser \<Rightarrow> string \<Rightarrow> (string \<Rightarrow> bool) \<Rightarrow> (string \<times> json) list" where
  "event_user_members user key P =
     [(''key'', JText key)] @
     (if user_anonymous user then [(''anonymous'', JBool True)] else []) @
     public_strings P (user_strings user) @
     (case user_custom user of None \<Rightarrow> [] | Some c \<Rightarrow> [(''custom'', redact P c)]) @
     (let ns = private_strings P (user_strings user) @ private_custom P (user_custom user)
      in if ns = [] then [] else [(''privateAttrs'', JArray (map JText ns))])"

lemma addHidden_ok [alloc_ok]:
  "addHidden (hidden_array ns) (Some k) [] = (Val (JArray (map JText (ns @ [k]))), [])"
  by (simp add: addHidden_def hidden_array_def LD_ASSERT_def alloc_ok)

lemma hidden_array_snoc: "Some (JArray (map JText (ns @ [k]))) = hidden_array (ns @ [k])"
  by (simp add: hidden_array_def)

lemma event_user_strings_ok:
  assumes "\<And>k. priv k [] = (Val (P k), [])"
  shows "event_user_strings priv strs (JObject js) (hidden_array ns) [] =
    (Val (JObject (foldl (\<lambda>zs (k, v). obj_put zs k v) js (public_strings P strs)),
          hidden_array (ns @ private_strings P strs)), [])"
proof (induction strs arbitrary: js ns)
  case (Cons s strs)
  obtain n f where s: "s = (n, f)" by fastforce
  show ?case
  proof (cases f)
    case None
    with Cons show ?thesis by (simp add: s public_strings_def private_strings_def)
  next
    case (Some v)
    with Cons[of js "ns @ [n]"] Cons[of "obj_put js n (JText v)" ns] show ?thesis
      by (simp add: s assms alloc_ok hidden_array_snoc[simplified] public_strings_def private_strings_def)
  qed
qed (simp add: alloc_ok public_strings_def private_strings_def)

lemma event_user_custom_ok:
  assumes "\<And>k. priv k [] = (Val (P k), [])"
    and "\<And>k. P k \<Longrightarrow> k \<notin> fst ` set ys"
  shows "event_user_custom priv (map (\<lambda>(k, x). (Some k, x)) xs) (Some (JObject (ys @ xs)))
      (hidden_array ns) [] =
    (Val (Some (JObject (ys @ filter (\<lambda>(k, _). \<not> P k) xs)),
          hidden_array (ns @ filter P (map fst xs))), [])"
  using assms(2)
proof (induction xs arbitrary: ys ns)
  case (Cons x xs)
  obtain k v where x: "x = (k, v)" by fastforce
  show ?case
  proof (cases "P k")
    case True
    with Cons show ?thesis
      by (simp add: x assms(1) alloc_ok hidden_array_snoc[simplified])
  next
    case False
    with Cons.IH[of "ys @ [x]" ns] Cons.prems show ?thesis
      by (force simp: x assms(1) alloc_ok)
  qed
qed (simp add: alloc_ok)

lemma event_user_add_custom_ok:
  assumes "\<And>k. priv k [] = (Val (P k), [])"
  shows "event_user_add_custom priv userCustom (JObject js) (hidden_array ns) [] =
    (Val (JObject (case userCustom of None \<Rightarrow> js | Some c \<Rightarrow> obj_put js ''custom'' (redact P c)),
          hidden_array (ns @ private_custom P userCustom)), [])"
proof (cases userCustom)
  case (Some c)
  then show ?thesis
  proof (cases c)
    case (JObject xs)
    with Some event_user_custom_ok[of priv P "[]" xs ns, OF assms] show ?thesis
      by (simp add: event_user_add_custom_def alloc_ok LDJSONGetType_def LDGetIter_def redact_def
          private_custom_def)
  qed (simp_all add: event_user_add_custom_def alloc_ok LDJSONGetType_def redact_def
      private_custom_def)
qed (simp add: event_user_add_custom_def alloc_ok private_custom_def)

lemma public_strings_names:
  "set (map fst (public_strings P strs)) \<subseteq> set (map fst strs)"
  by (force simp: public_strings_def split: option.splits)

lemma distinct_public_strings:
  "distinct (map fst strs) \<Longrightarrow> distinct (map fst (public_strings P strs))"
proof (induction strs)
  case (Cons s strs)
  then show ?case
    using public_strings_names[of P strs]
    by (cases s; cases "snd s") (force simp: public_strings_def)+
qed (simp add: public_strings_def)

lemma LDi_createEventUser_ok:
  assumes key: "user_key user = Some key"
    and names: "user_privateAttributeNames user \<noteq> None" "all_text (user_privateAttributeNames user)"
      "all_text globals"
  shows "LDi_createEventUser user allPriv globals [] =
    (Val (JObject (event_user_members user key (attr_private user allPriv globals))), [])"
proof -
  let ?P = "attr_private user allPriv globals"
  let ?js = "[(''key'', JText key)] @ (if user_anonymous user then [(''anonymous'', JBool True)] else [])"
  let ?pub = "public_strings ?P (user_strings user)"
  have priv: "\<And>k. isPrivateAttr user (Some k) allPriv globals [] = (Val (?P k), [])"
    using isPrivateAttr_ok[OF names] by blast
  have sub: "fst ` set ?pub \<subseteq> set (map fst (user_strings user))"
    using public_strings_names[of ?P "user_strings user"] by simp
  have "distinct (map fst ?pub)"
    by (rule distinct_public_strings) (simp add: user_strings_def)
  then have d: "distinct (map fst (?js @ ?pub))"
    using sub by (auto simp: user_strings_def)
  have anon: "json_set_if (user_anonymous user) (JObject [(''key'', JText key)]) ''anonymous''
      (LDNewBool (user_anonymous user)) [] = (Val (JObject ?js), [])"
    by (simp add: json_set_if_def alloc_ok obj_put_def)
  have "''custom'' \<notin> fst ` set (?js @ ?pub)" "''privateAttrs'' \<notin> fst ` set (?js @ ?pub)"
    using sub by (auto simp: user_strings_def)
  note custom = event_user_add_custom_ok[of "\<lambda>k. isPrivateAttr user (Some k) allPriv globals" ?P,
      OF priv]
  show ?thesis
    using \<open>''custom'' \<notin> _\<close> \<open>''privateAttrs'' \<notin> _\<close>
      event_user_strings_ok[of "\<lambda>k. isPrivateAttr user (Some k) allPriv globals" ?P
        "user_strings user" ?js "[]", OF priv]
    unfolding foldl_obj_put_new[OF d]
    by (simp add: LDi_createEventUser_def Let_def alloc_ok key obj_put_absent anon
        hidden_array_def[of "[]"] custom event_user_members_def)
      (auto simp: hidden_array_def alloc_ok obj_put_absent split: option.splits)
qed

section \<open>Lemmas: the full user\<close>

text \<open>What a request carries of the user.\<close>

definition user_members :: "LDUser \<Rightarrow> string \<Rightarrow> (string \<times> json) list" where
  "user_members user key =
     [(''key'', JText key)] @ (if user_anonymous user then [(''anonymous'', JBool True)] else []) @
     public_strings (\<lambda>_. False) (user_strings user) @
     (if LDCollectionGetSize (user_custom user) > 0 then [(''custom'', the (user_custom user))] else []) @
     (if LDCollectionGetSize (user_privateAttributeNames user) > 0
      then [(''privateAttributeNames'', the (user_privateAttributeNames user))] else [])"

lemma size_None [simp]: "LDCollectionGetSize None = 0"
  by (simp add: LDCollectionGetSize_def)

lemma set_key_ignore_put [alloc_ok]:
  "mk [] = (Val v, []) \<Longrightarrow> set_key_ignore (Some (JObject xs)) k mk [] = (Val (Some (JObject (obj_put xs k v))), [])"
  by (simp add: set_key_ignore_def alloc_ok del: LDObjectSetKey.simps)

lemma serialize_strings_ok:
  "serialize_strings strs (Some (JObject xs)) [] =
    (Val (Some (JObject (foldl (\<lambda>zs (k, v). obj_put zs k v) xs (public_strings (\<lambda>_. False) strs)))), [])"
proof (induction strs arbitrary: xs)
  case (Cons s strs)
  obtain n f where s: "s = (n, f)" by fastforce
  show ?case
    by (cases f) (simp_all add: s Cons alloc_ok public_strings_def)
qed (simp add: alloc_ok public_strings_def)

lemma serializeUser_attrs_ok:
  assumes key: "user_key user = Some key"
  shows "serializeUser_attrs user [] = (Val (Some (JObject (user_members user key))), [])"
proof -
  let ?js = "[(''key'', JText key)] @ (if user_anonymous user then [(''anonymous'', JBool True)] else [])"
  let ?pub = "public_strings (\<lambda>_. False) (user_strings user)"
  have sub: "fst ` set ?pub \<subseteq> set (map fst (user_strings user))"
    using public_strings_names[of "\<lambda>_. False" "user_strings user"] by simp
  have "distinct (map fst ?pub)"
    by (rule distinct_public_strings) (simp add: user_strings_def)
  then have d: "distinct (map fst (?js @ ?pub))"
    using sub by (auto simp: user_strings_def)
  have absent: "''custom'' \<notin> fst ` set (?js @ ?pub)" "''privateAttributeNames'' \<notin> fst ` set (?js @ ?pub)"
    using sub by (auto simp: user_strings_def)
  have anon: "(if user_anonymous user then set_key_ignore (Some (JObject [(''key'', JText key)])) ''anonymous'' (LDNewBool True)
      else cret (Some (JObject [(''key'', JText key)]))) [] = (Val (Some (JObject ?js)), [])"
    by (simp add: alloc_ok obj_put_def)
  have strs: "serialize_strings (user_strings user) (Some (JObject ?js)) [] = (Val (Some (JObject (?js @ ?pub))), [])"
    using serialize_strings_ok[of "user_strings user" ?js] unfolding foldl_obj_put_new[OF d] .
  show ?thesis
    using absent strs anon
    by (cases "user_custom user"; cases "user_privateAttributeNames user")
      (simp_all add: serializeUser_attrs_def alloc_ok key obj_put_absent user_members_def)
qed

lemma no_fault_serializeUser [intro!, simp]: "no_fault (LDi_serializeUser user)"
proof -
  have "no_fault mk \<Longrightarrow> no_fault (set_key_ignore a k mk)" for a k mk
    unfolding set_key_ignore_def by (intro no_fault_cbind no_fault_ctry) auto
  moreover from this have "no_fault (serialize_strings strs attrs)" for strs attrs
    by (induction strs attrs rule: serialize_strings.induct) auto
  ultimately show ?thesis
    unfolding LDi_serializeUser_def serializeUser_attrs_def
    by (intro no_fault_cbind no_fault_if no_fault_ctry no_fault_new no_fault_text no_fault_cret) auto
qed

lemma LDi_serializeUser_length: "ensures (LDi_serializeUser user) (\<lambda>t. int (length t) \<le> INT_MAX)"
proof (rule yields_no_fault)
  show "yields (LDi_serializeUser user) (\<lambda>t. int (length t) \<le> INT_MAX)"
    unfolding LDi_serializeUser_def LDJSONSerialize_def cJSON_PrintUnformatted_def
    by (rule yields_any) (simp add: print_length split: option.split)
qed simp

lemma LDi_serializeUser_ok:
  assumes "user_key user = Some key"
    and "int (length (json_text False (JObject (user_members user key)))) \<le> INT_MAX - 2"
  shows "LDi_serializeUser user [] = (Val (json_text False (JObject (user_members user key))), [])"
  using serializeUser_attrs_ok[OF assms(1)] json_text_ok(1)[OF assms(2)] by (simp add: LDi_serializeUser_def alloc_ok)

section \<open>Properties\<close>

definition sample_user :: LDUser where
  "sample_user =
     \<lparr>user_key = Some ''u'', user_anonymous = False, user_secondary = None, user_ip = None,
      user_firstName = Some ''Ann'', user_lastName = None, user_email = Some ''a@b'',
      user_name = None, user_avatar = None, user_country = None,
      user_privateAttributeNames = Some (JArray [JText ''email'']),
      user_custom = Some (JObject [(''age'', JNumber 3), (''ssn'', JText ''x'')])\<rparr>"

text \<open>C4. Privacy: whatever the allocator does, an attribute that is private (all attributes are, or
  the configuration or the user names it) does not appear in the user that an event carries,
  neither as a string attribute nor among the custom attributes.\<close>

theorem private_attribute_never_sent:
  assumes "LDi_createEventUser user allPriv globals m = (Val j, m')"
    and "attr_private user allPriv globals k"
  shows "(k \<in> fst ` set (user_strings user) \<longrightarrow> LDObjectLookup (Some j) (Some k) = None) \<and>
    LDObjectLookup (LDObjectLookup (Some j) (Some ''custom'')) (Some k) = None"
proof (intro conjI impI)
  let ?P = "attr_private user allPriv globals"
  obtain xs where j: "j = JObject xs"
    and ok: "\<And>k v. (k, v) \<in> set xs \<Longrightarrow> event_member_ok user ?P k v"
    using LDi_createEventUser_members[OF assms(1)] by fast
  show "LDObjectLookup (Some j) (Some k) = None" if "k \<in> fst ` set (user_strings user)"
    using ok event_member_private[OF _ that] assms(2) by (force simp: j map_of_eq_None_iff)
  show "LDObjectLookup (LDObjectLookup (Some j) (Some ''custom'')) (Some k) = None"
  proof (cases "map_of xs ''custom''")
    case (Some v)
    then have "event_member_ok user ?P ''custom'' v" using ok map_of_SomeD by fastforce
    then obtain c where "v = redact ?P c" by (auto simp: event_member_ok_def user_strings_def)
    with Some assms(2) show ?thesis by (simp add: j redact_lookup)
  qed (simp add: j)
qed

theorem private_attribute_never_sent_witness:
  "\<exists>j. LDi_createEventUser sample_user False (Some (JArray [JText ''ssn''])) [] = (Val j, []) \<and>
     LDObjectLookup (Some j) (Some ''email'') = None \<and>
     LDObjectLookup (LDObjectLookup (Some j) (Some ''custom'')) (Some ''ssn'') = None"
proof -
  let ?g = "Some (JArray [JText ''ssn''])"
  obtain j where j: "LDi_createEventUser sample_user False ?g [] = (Val j, [])"
    using LDi_createEventUser_ok[of sample_user "''u''" ?g False]
    by (auto simp: sample_user_def all_text_def LDGetIter_def)
  have "attr_private sample_user False ?g ''email''" "attr_private sample_user False ?g ''ssn''"
    by (simp_all add: attr_private_def names_in_def LDGetIter_def sample_user_def)
  with j private_attribute_never_sent[OF j, of "''email''"]
    private_attribute_never_sent[OF j, of "''ssn''"]
  show ?thesis by (simp add: user_strings_def)
qed

text \<open>With memory available the event user contains exactly the key, the anonymous mark, the
  public string attributes, the custom attributes without the private ones, and the names of
  the withheld attributes, in this order.\<close>

theorem event_user_exact:
  assumes "user_key user = Some key" and "user_privateAttributeNames user \<noteq> None"
    and "all_text (user_privateAttributeNames user)" and "all_text globals"
  shows "LDi_createEventUser user allPriv globals [] =
    (Val (JObject (event_user_members user key (attr_private user allPriv globals))), [])"
  using LDi_createEventUser_ok[OF assms] .

theorem event_user_exact_witness:
  "LDi_createEventUser sample_user False None [] =
     (Val (JObject [(''key'', JText ''u''), (''firstName'', JText ''Ann''),
        (''custom'', JObject [(''age'', JNumber 3), (''ssn'', JText ''x'')]),
        (''privateAttrs'', JArray [JText ''email''])]), [])"
  using event_user_exact[of sample_user "''u''" None False]
  by (simp add: sample_user_def all_text_def LDGetIter_def event_user_members_def user_strings_def
      public_strings_def private_strings_def private_custom_def redact_def attr_private_def names_in_def)

text \<open>A new user has the given key and is not anonymous; without a key it is anonymous and its
  key is the device identifier, or, if there is none and the generator works, 32 hexadecimal
  digits.\<close>

theorem LDUserNew_key:
  "LDUserNew deviceIdentifier rng key [] =
     (Val \<lparr>user_key = Some (case key of
              Some (c # cs) \<Rightarrow> c # cs
            | _ \<Rightarrow> (case deviceIdentifier of Some d \<Rightarrow> d | None \<Rightarrow> snd (LDi_randomHex rng 32))),
          user_anonymous = (key = None \<or> key = Some []), user_secondary = None, user_ip = None,
          user_firstName = None, user_lastName = None, user_email = None, user_name = None,
          user_avatar = None, user_country = None,
          user_privateAttributeNames = Some (JArray []), user_custom = None\<rparr>, []) \<and>
   ((\<forall>i. rng i \<noteq> None) \<longrightarrow>
      length (snd (LDi_randomHex rng 32)) = 32 \<and> set (snd (LDi_randomHex rng 32)) \<subseteq> set alphabet)"
proof -
  have "LDi_userNew (Some k) [] = (Val \<lparr>user_key = Some k, user_anonymous = False,
      user_secondary = None, user_ip = None, user_firstName = None, user_lastName = None,
      user_email = None, user_name = None, user_avatar = None, user_country = None,
      user_privateAttributeNames = Some (JArray []), user_custom = None\<rparr>, [])" for k
    by (simp add: LDi_userNew_def LD_ASSERT_def alloc_ok)
  then have 1: ?thesis if "(\<forall>i. rng i \<noteq> None) \<longrightarrow>
      length (snd (LDi_randomHex rng 32)) = 32 \<and> set (snd (LDi_randomHex rng 32)) \<subseteq> set alphabet"
    using that by (auto simp: LDUserNew_def LDUserSetAnonymous_def Let_def alloc_ok split: option.splits list.splits)
  obtain ok s where r: "LDi_randomHex rng 32 = (ok, s)" by fastforce
  then have "(\<forall>i. rng i \<noteq> None) \<longrightarrow> ok"
    using randomHex_loop_total[of rng 0 32 "[]"] by (auto simp: LDi_randomHex_def)
  with 1 LDi_randomHex_shape[OF r] r show ?thesis by auto
qed

theorem LDUserNew_key_witness:
  "set (snd (LDi_randomHex (\<lambda>i. Some (of_nat i)) 32)) \<subseteq> set alphabet \<and>
   length (snd (LDi_randomHex (\<lambda>i. Some (of_nat i)) 32)) = 32"
  using LDUserNew_key[of None "\<lambda>i. Some (of_nat i)" None] by auto

end
