(* ===== verification/Events.thy ===== *)
theory Events
  imports Config User Store_Runs Decimal
begin

text \<open>
  The event processor (\<open>src/event_processor.c\<close>): the bounded queue of events, the summary
  counters, the constructors of each kind of event and the payload that is sent. The lock is
  held while the queue or the counters change, so each operation is one step. The time that
  \<open>LDi_getUnixMilliseconds\<close> reads is an argument; the code ignores its status because a failing
  clock already aborts inside it.
\<close>

section \<open>State\<close>

record EventProcessor =
  ep_events :: json
  ep_summaryCounters :: json
  ep_summaryStart :: double
  ep_lastUserKeyFlush :: double
  ep_lastServerTime :: double
  ep_config :: LDConfig

definition LDi_getFlagVersion :: "LDFlag \<Rightarrow> int" where
  "LDi_getFlagVersion flag =
     (if flag_flagVersion flag \<noteq> -1 then flag_flagVersion flag else flag_version flag)"

text \<open>
  When the array cannot be allocated, the error path frees the counters, a pointer that has not been set
  yet: undefined behaviour. When the counters cannot be allocated, that pointer is \<open>NULL\<close>.
\<close>

definition LDi_newEventProcessor :: "LDConfig \<Rightarrow> double \<Rightarrow> EventProcessor cmd" where
  "LDi_newEventProcessor config now =
     cbind LDAlloc (\<lambda>_.
     cbind (ctry LDNewArray) (\<lambda>r.
       case r of
         None \<Rightarrow> cfault Undefined
       | Some events \<Rightarrow>
           cbind LDNewObject (\<lambda>counters.
             cret \<lparr>ep_events = events, ep_summaryCounters = counters, ep_summaryStart = 0,
                   ep_lastUserKeyFlush = now, ep_lastServerTime = 0, ep_config = config\<rparr>)))"

definition LDi_addEvent :: "EventProcessor \<Rightarrow> json_ptr \<Rightarrow> EventProcessor cmd" where
  "LDi_addEvent context event =
     cbind (LD_ASSERT (event \<noteq> None)) (\<lambda>_.
     cbind (LD_ASSERT (LDJSONGetType (Some (ep_events context)) = LDArray)) (\<lambda>_.
       if LDCollectionGetSize (Some (ep_events context)) \<ge> eventsCapacity (ep_config context)
       then cret context
       else
         cret (context\<lparr>ep_events := the (snd (LDArrayPush (Some (ep_events context)) event))\<rparr>)))"

section \<open>Constructing events\<close>

definition LDi_newBaseEvent :: "string \<Rightarrow> double \<Rightarrow> json cmd" where
  "LDi_newBaseEvent kind now =
     cbind LDNewObject (\<lambda>event.
     cbind (json_set_new event ''creationDate'' (LDNewNumber now)) (\<lambda>event.
       json_set_new event ''kind'' (LDNewText (Some kind))))"

definition event_user :: "EventProcessor \<Rightarrow> LDUser \<Rightarrow> json cmd" where
  "event_user context user =
     LDi_createEventUser user (allAttributesPrivate (ep_config context))
       (privateAttributeNames (ep_config context))"

definition LDi_addUserInfoToEvent :: "EventProcessor \<Rightarrow> json \<Rightarrow> LDUser \<Rightarrow> json cmd" where
  "LDi_addUserInfoToEvent context event user =
     (if inlineUsersInEvents (ep_config context)
      then json_set_new event ''user'' (event_user context user)
      else json_set_new event ''userKey'' (LDNewText (user_key user)))"

definition LDi_newIdentifyEvent :: "EventProcessor \<Rightarrow> LDUser \<Rightarrow> double \<Rightarrow> json cmd" where
  "LDi_newIdentifyEvent context user now =
     cbind (LDi_newBaseEvent ''identify'' now) (\<lambda>event.
     cbind (json_set_new event ''key'' (LDNewText (user_key user))) (\<lambda>event.
       json_set_new event ''user'' (event_user context user)))"

definition LDi_newCustomEvent ::
  "EventProcessor \<Rightarrow> LDUser \<Rightarrow> cstring \<Rightarrow> json_ptr \<Rightarrow> double \<Rightarrow> bool \<Rightarrow> double \<Rightarrow> json cmd" where
  "LDi_newCustomEvent context user key data metric hasMetric now =
     cbind (LD_ASSERT (key \<noteq> None)) (\<lambda>_.
     cbind (LDi_newBaseEvent ''custom'' now) (\<lambda>event.
     cbind (LDi_addUserInfoToEvent context event user) (\<lambda>event.
     cbind (json_set_new event ''key'' (LDNewText key)) (\<lambda>event.
     cbind (if data \<noteq> None then LDObjectSetKey (Some event) (Some ''data'') data
            else cret event) (\<lambda>event.
     cbind (json_set_if hasMetric event ''metricValue'' (LDNewNumber metric)) (\<lambda>event.
       json_set_if (user_anonymous user) event ''contextKind''
         (LDNewText (Some ''anonymousUser''))))))))"

definition contextKindString :: "LDUser \<Rightarrow> json cmd" where
  "contextKindString user =
     (if user_anonymous user then LDNewText (Some ''anonymousUser'') else LDNewText (Some ''user''))"

definition LDi_newAliasEvent :: "LDUser \<Rightarrow> LDUser \<Rightarrow> double \<Rightarrow> json cmd" where
  "LDi_newAliasEvent currentUser previousUser now =
     cbind (LDi_newBaseEvent ''alias'' now) (\<lambda>event.
     cbind (json_set_new event ''key'' (LDNewText (user_key currentUser))) (\<lambda>event.
     cbind (json_set_new event ''previousKey'' (LDNewText (user_key previousUser))) (\<lambda>event.
     cbind (json_set_new event ''contextKind'' (contextKindString currentUser)) (\<lambda>event.
       json_set_new event ''previousContextKind'' (contextKindString previousUser)))))"

text \<open>
  A value handed over as \<open>void *\<close> with its type. \<open>LDNull\<close> stands for a JSON value of any kind;
  a type that does not fit the pointer is undefined behaviour.
\<close>

datatype cvalue = CBool bool | CDouble double | CText string | CJson json

definition LDi_valueToJSON :: "cvalue option \<Rightarrow> LDJSONType \<Rightarrow> json cmd" where
  "LDi_valueToJSON v valueType =
     cbind (LD_ASSERT (v \<noteq> None)) (\<lambda>_.
       case (valueType, the v) of
         (LDNull, CJson j) \<Rightarrow> LDJSONDuplicate (Some j)
       | (LDBool, CBool b) \<Rightarrow> LDNewBool b
       | (LDText, CText t) \<Rightarrow> LDNewText (Some t)
       | (LDNumber, CDouble d) \<Rightarrow> LDNewNumber d
       | (LDObject, _) \<Rightarrow> cfault AssertFailed
       | (LDArray, _) \<Rightarrow> cfault AssertFailed
       | _ \<Rightarrow> cfault Undefined)"

definition feature_event_node :: "json \<Rightarrow> LDFlag option \<Rightarrow> bool \<Rightarrow> json cmd" where
  "feature_event_node event node detailed =
     (case node of
        None \<Rightarrow> cret event
      | Some flag \<Rightarrow>
          cbind (json_set_if (flag_variation flag \<noteq> -1) event ''variation''
                   (LDNewNumber (of_int (flag_variation flag)))) (\<lambda>event.
          cbind (json_set_new event ''version''
                   (LDNewNumber (of_int (LDi_getFlagVersion flag)))) (\<lambda>event.
            json_set_if (flag_reason flag \<noteq> None \<and> (detailed \<or> flag_trackReason flag))
              event ''reason'' (LDJSONDuplicate (flag_reason flag)))))"

definition LDi_newFeatureRequestEvent ::
  "EventProcessor \<Rightarrow> string \<Rightarrow> LDUser \<Rightarrow> LDJSONType \<Rightarrow> cvalue option \<Rightarrow> cvalue option \<Rightarrow>
   LDFlag option \<Rightarrow> bool \<Rightarrow> double \<Rightarrow> json cmd" where
  "LDi_newFeatureRequestEvent context flagKey user variationType fallbackValue actualValue
     node detailed now =
     cbind (LD_ASSERT (fallbackValue \<noteq> None)) (\<lambda>_.
     cbind (LDi_newBaseEvent ''feature'' now) (\<lambda>event.
     cbind (LDi_addUserInfoToEvent context event user) (\<lambda>event.
     cbind (json_set_new event ''key'' (LDNewText (Some flagKey))) (\<lambda>event.
     cbind (json_set_new event ''value'' (LDi_valueToJSON actualValue variationType)) (\<lambda>event.
     cbind (json_set_new event ''default'' (LDi_valueToJSON fallbackValue variationType)) (\<lambda>event.
     cbind (feature_event_node event node detailed) (\<lambda>event.
       json_set_if (user_anonymous user) event ''contextKind''
         (LDNewText (Some ''anonymousUser'')))))))))"

section \<open>Queueing events\<close>

text \<open>The shared shape: construct, and if that worked put the event into the queue.\<close>

definition queue_event :: "EventProcessor \<Rightarrow> json cmd \<Rightarrow> (bool \<times> EventProcessor) cmd" where
  "queue_event context mk =
     cbind (ctry mk) (\<lambda>event.
       if event = None then cret (False, context)
       else cbind (LDi_addEvent context event) (\<lambda>context. cret (True, context)))"

definition LDi_identify :: "EventProcessor \<Rightarrow> LDUser \<Rightarrow> double \<Rightarrow> (bool \<times> EventProcessor) cmd" where
  "LDi_identify context user now = queue_event context (LDi_newIdentifyEvent context user now)"

definition LDi_track ::
  "EventProcessor \<Rightarrow> LDUser \<Rightarrow> cstring \<Rightarrow> json_ptr \<Rightarrow> double \<Rightarrow> bool \<Rightarrow> double \<Rightarrow>
   (bool \<times> EventProcessor) cmd" where
  "LDi_track context user key data metric hasMetric now =
     queue_event context (LDi_newCustomEvent context user key data metric hasMetric now)"

definition LDi_alias ::
  "EventProcessor \<Rightarrow> LDUser \<Rightarrow> LDUser \<Rightarrow> double \<Rightarrow> (bool \<times> EventProcessor) cmd" where
  "LDi_alias context currentUser previousUser now =
     queue_event context (LDi_newAliasEvent currentUser previousUser now)"

section \<open>Summaries\<close>

text \<open>The buffer has 128 bytes; two 32 bit numbers and a space always fit.\<close>

definition summary_key :: "LDFlag option \<Rightarrow> string" where
  "summary_key node =
     (case node of
        None \<Rightarrow> ''unknown''
      | Some flag \<Rightarrow>
          take 127 (int_to_string (LDi_getFlagVersion flag) @ '' '' @
                    int_to_string (flag_variation flag)))"

text \<open>
  The context of a flag is created on its first evaluation. The result is the counters, the
  flag's context and whether it was linked into the counters: when copying the name fails,
  \<open>LDObjectSetKey\<close> reports success and the new context stays outside.
\<close>

definition summary_new_context :: "LDJSONType \<Rightarrow> cvalue option \<Rightarrow> json cmd" where
  "summary_new_context variationType fallbackValue =
     cbind LDNewObject (\<lambda>flagContext.
     cbind (json_set_if (fallbackValue \<noteq> None) flagContext ''default''
              (LDi_valueToJSON fallbackValue variationType)) (\<lambda>flagContext.
       json_set_new flagContext ''counters'' LDNewObject))"

definition summary_context ::
  "json \<Rightarrow> string \<Rightarrow> LDJSONType \<Rightarrow> cvalue option \<Rightarrow> (json \<times> json \<times> bool) cmd" where
  "summary_context summaryCounters flagKey variationType fallbackValue =
     (case LDObjectLookup (Some summaryCounters) (Some flagKey) of
        Some flagContext \<Rightarrow> cret (summaryCounters, flagContext, True)
      | None \<Rightarrow>
          cbind (summary_new_context variationType fallbackValue) (\<lambda>flagContext.
          cbind (LDObjectSetKey (Some summaryCounters) (Some flagKey) (Some flagContext)) (\<lambda>sc.
            cret (sc, flagContext, LDObjectLookup (Some sc) (Some flagKey) \<noteq> None))))"

definition summary_new_entry :: "LDFlag option \<Rightarrow> LDJSONType \<Rightarrow> cvalue option \<Rightarrow> json cmd" where
  "summary_new_entry node variationType actualValue =
     cbind LDNewObject (\<lambda>entry.
     cbind (json_set_new entry ''count'' (LDNewNumber 1)) (\<lambda>entry.
     cbind (json_set_new entry ''value'' (LDi_valueToJSON actualValue variationType)) (\<lambda>entry.
       case node of
         Some flag \<Rightarrow>
           cbind (json_set_new entry ''version''
                    (LDNewNumber (of_int (LDi_getFlagVersion flag)))) (\<lambda>entry.
             json_set_if (flag_variation flag \<noteq> -1) entry ''variation''
               (LDNewNumber (of_int (flag_variation flag))))
       | None \<Rightarrow> json_set_new entry ''unknown'' (LDNewBool True))))"

text \<open>Writing an object's member back in place, as an update through a pointer to it does.\<close>

definition json_write :: "json \<Rightarrow> string \<Rightarrow> json \<Rightarrow> json" where
  "json_write obj key v =
     (case obj of JObject xs \<Rightarrow> JObject (update_first key (\<lambda>_. v) xs) | _ \<Rightarrow> obj)"

definition summary_bump ::
  "json \<Rightarrow> string \<Rightarrow> LDFlag option \<Rightarrow> LDJSONType \<Rightarrow> cvalue option \<Rightarrow> json cmd" where
  "summary_bump counters keyText node variationType actualValue =
     (case LDObjectLookup (Some counters) (Some keyText) of
        None \<Rightarrow>
          cbind (summary_new_entry node variationType actualValue) (\<lambda>entry.
            LDObjectSetKey (Some counters) (Some keyText) (Some entry))
      | Some entry \<Rightarrow>
          (let tmp = LDObjectLookup (Some entry) (Some ''count'') in
           cbind (LD_ASSERT (tmp \<noteq> None)) (\<lambda>_.
             case LDSetNumber tmp (LDGetNumber tmp + 1) of
               (status, tmp') \<Rightarrow>
                 cbind (LD_ASSERT status) (\<lambda>_.
                   cret (json_write counters keyText (json_write entry ''count'' (the tmp')))))))"

definition LDi_summarizeEvent ::
  "EventProcessor \<Rightarrow> string \<Rightarrow> LDFlag option \<Rightarrow> LDJSONType \<Rightarrow> cvalue option \<Rightarrow> cvalue option \<Rightarrow>
   double \<Rightarrow> (bool \<times> EventProcessor) cmd" where
  "LDi_summarizeEvent context flagKey node variationType fallbackValue actualValue now =
     (let keyText = summary_key node;
          context = (if ep_summaryStart context = 0 then context\<lparr>ep_summaryStart := now\<rparr>
                     else context)
      in
      cbind (ctry (summary_context (ep_summaryCounters context) flagKey variationType
                     fallbackValue)) (\<lambda>r.
        case r of
          None \<Rightarrow> cret (False, context)
        | Some (sc, flagContext, linked) \<Rightarrow>
            (let context = context\<lparr>ep_summaryCounters := sc\<rparr>;
                 counters = LDObjectLookup (Some flagContext) (Some ''counters'')
             in
             cbind (LD_ASSERT (counters \<noteq> None)) (\<lambda>_.
             cbind (LD_ASSERT (LDJSONGetType counters = LDObject)) (\<lambda>_.
             cbind (ctry (summary_bump (the counters) keyText node variationType actualValue)) (\<lambda>r.
               case r of
                 None \<Rightarrow> cret (False, context)
               | Some counters \<Rightarrow>
                   (let flagContext = json_write flagContext ''counters'' counters in
                    cret (True,
                      if linked then context\<lparr>ep_summaryCounters := json_write sc flagKey flagContext\<rparr>
                      else context))))))))"

fun object_to_array_loop :: "json_iter \<Rightarrow> json list \<Rightarrow> json list cmd" where
  "object_to_array_loop [] array = cret array"
| "object_to_array_loop ((_, iter) # rest) array =
     cbind (LDJSONDuplicate (Some iter)) (\<lambda>dupe. object_to_array_loop rest (array @ [dupe]))"

definition LDi_objectToArray :: "json_ptr \<Rightarrow> json cmd" where
  "LDi_objectToArray object =
     cbind (LD_ASSERT (object \<noteq> None)) (\<lambda>_.
     cbind (LD_ASSERT (LDJSONGetType object = LDObject)) (\<lambda>_.
     cbind LDNewArray (\<lambda>_.
     cbind (object_to_array_loop (LDGetIter object) []) (\<lambda>array. cret (JArray array)))))"

text \<open>In the copy of the counters each flag's table of counters becomes an array.\<close>

fun summary_features :: "(string \<times> json) list \<Rightarrow> (string \<times> json) list cmd" where
  "summary_features [] = cret []"
| "summary_features ((flagKey, iter) # rest) =
     (case LDObjectDetachKey (Some iter) (Some ''counters'') of
        (countersObject, iter') \<Rightarrow>
          cbind (LD_ASSERT (countersObject \<noteq> None)) (\<lambda>_.
          cbind (LDi_objectToArray countersObject) (\<lambda>countersArray.
          cbind (LDObjectSetKey iter' (Some ''counters'') (Some countersArray)) (\<lambda>iter'.
          cbind (summary_features rest) (\<lambda>rest. cret ((flagKey, iter') # rest))))))"

definition json_members :: "json \<Rightarrow> (string \<times> json) list" where
  "json_members j = (case j of JObject xs \<Rightarrow> xs | _ \<Rightarrow> [])"

definition LDi_prepareSummaryEvent :: "EventProcessor \<Rightarrow> double \<Rightarrow> json cmd" where
  "LDi_prepareSummaryEvent context now =
     cbind LDNewObject (\<lambda>summary.
     cbind (json_set_new summary ''kind'' (LDNewText (Some ''summary''))) (\<lambda>summary.
     cbind (json_set_new summary ''startDate'' (LDNewNumber (ep_summaryStart context))) (\<lambda>summary.
     cbind (json_set_new summary ''endDate'' (LDNewNumber now)) (\<lambda>summary.
     cbind (LDJSONDuplicate (Some (ep_summaryCounters context))) (\<lambda>counters.
     cbind (summary_features (json_members counters)) (\<lambda>features.
       LDObjectSetKey (Some summary) (Some ''features'') (Some (JObject features))))))))"

section \<open>Sending\<close>

definition LDi_bundleEventPayload ::
  "EventProcessor \<Rightarrow> double \<Rightarrow> (bool \<times> json_ptr \<times> EventProcessor) cmd" where
  "LDi_bundleEventPayload context now =
     (if LDCollectionGetSize (Some (ep_events context)) = 0 \<and>
         LDCollectionGetSize (Some (ep_summaryCounters context)) = 0
      then cret (True, None, context)
      else
        cbind (ctry LDNewArray) (\<lambda>r.
          case r of
            None \<Rightarrow> cret (False, None, context)
          | Some nextEvents \<Rightarrow>
              (if ep_summaryStart context \<noteq> 0 then
                 cbind (ctry LDNewObject) (\<lambda>r.
                   case r of
                     None \<Rightarrow> cret (False, None, context)
                   | Some nextSummaryCounters \<Rightarrow>
                       cbind (ctry (LDi_prepareSummaryEvent context now)) (\<lambda>summaryEvent.
                         if summaryEvent = None then cret (False, None, context)
                         else
                           cret (True, snd (LDArrayPush (Some (ep_events context)) summaryEvent),
                             context\<lparr>ep_summaryStart := 0,
                                     ep_summaryCounters := nextSummaryCounters,
                                     ep_events := nextEvents\<rparr>)))
               else
                 cret (True, Some (ep_events context), context\<lparr>ep_events := nextEvents\<rparr>))))"

section \<open>Evaluations\<close>

definition shouldGenerateFeatureEvent :: "LDFlag option \<Rightarrow> double \<Rightarrow> bool" where
  "shouldGenerateFeatureEvent node now =
     (case node of
        None \<Rightarrow> False
      | Some flag \<Rightarrow> flag_trackEvents flag \<or> flag_debugEventsUntilDate flag > now)"

text \<open>
  When the summary fails, the feature event is queued and then freed (\<open>LDi_addEvent\<close> on
  \<open>NULL\<close> aborts if there is none). A queue that owns a freed event is undefined behaviour at
  its next use; the model faults at once. An event dropped at capacity is freed correctly.
  The clock is read twice, for the event and for the start of a summary.
\<close>

definition LDi_processEvalEvent ::
  "EventProcessor \<Rightarrow> LDUser \<Rightarrow> string \<Rightarrow> LDJSONType \<Rightarrow> LDFlag option \<Rightarrow> cvalue option \<Rightarrow>
   cvalue option \<Rightarrow> bool \<Rightarrow> double \<Rightarrow> double \<Rightarrow> (bool \<times> EventProcessor) cmd" where
  "LDi_processEvalEvent context user flagKey valueType node actualValue fallback detailed now now' =
     cbind (LD_ASSERT (actualValue \<noteq> None)) (\<lambda>_.
     cbind (LD_ASSERT (fallback \<noteq> None)) (\<lambda>_.
     cbind (if shouldGenerateFeatureEvent node now
            then cbind (ctry (LDi_newFeatureRequestEvent context flagKey user valueType fallback
                                actualValue node detailed now)) (\<lambda>e. cret (e = None, e))
            else cret (False, None)) (\<lambda>(failed, featureEvent).
       if failed then cret (False, context)
       else
         cbind (LDi_summarizeEvent context flagKey node valueType fallback actualValue now')
           (\<lambda>(ok, context).
              if \<not> ok then
                cbind (LDi_addEvent context featureEvent) (\<lambda>context'.
                  if context' = context then cret (False, context) else cfault Undefined)
              else if featureEvent \<noteq> None then
                cbind (LDi_addEvent context featureEvent) (\<lambda>context. cret (True, context))
              else cret (True, context)))))"

section \<open>Lemmas: the queue\<close>

definition queue_inv :: "EventProcessor \<Rightarrow> bool" where
  "queue_inv context \<longleftrightarrow>
     (\<exists>es. ep_events context = JArray es \<and>
        length es \<le> unat (eventsCapacity (ep_config context)))"

definition queue_items :: "EventProcessor \<Rightarrow> json list" where
  "queue_items context = (case ep_events context of JArray es \<Rightarrow> es | _ \<Rightarrow> [])"

definition queue_cap :: "EventProcessor \<Rightarrow> nat" where
  "queue_cap context = unat (eventsCapacity (ep_config context))"

definition add_event_ok :: "EventProcessor \<Rightarrow> json \<Rightarrow> EventProcessor" where
  "add_event_ok context e =
     (case fst (LDi_addEvent context (Some e) []) of Val c \<Rightarrow> c | _ \<Rightarrow> context)"

lemma LDi_addEvent_eq:
  assumes "queue_inv context"
  shows "LDi_addEvent context (Some e) m =
    (Val (if length (queue_items context) < queue_cap context
          then context\<lparr>ep_events := JArray (queue_items context @ [e])\<rparr> else context), m)"
proof -
  obtain es where es: "ep_events context = JArray es"
      "length es \<le> unat (eventsCapacity (ep_config context))"
    using assms by (auto simp: queue_inv_def)
  have "unat (eventsCapacity (ep_config context)) < 4294967296"
    using unsigned_less[of "eventsCapacity (ep_config context)"] by simp
  with es(2) have "eventsCapacity (ep_config context) \<le> of_nat (length es) \<longleftrightarrow>
      unat (eventsCapacity (ep_config context)) \<le> length es"
    by (intro u32_le_of_nat) simp
  with es show ?thesis
    by (simp add: LDi_addEvent_def LDJSONGetType_def LDCollectionGetSize_def queue_items_def
        queue_cap_def cmd_simps not_less)
qed

lemma add_event_ok_eq:
  "queue_inv context \<Longrightarrow>
   add_event_ok context e =
     (if length (queue_items context) < queue_cap context
      then context\<lparr>ep_events := JArray (queue_items context @ [e])\<rparr> else context)"
  by (simp add: add_event_ok_def LDi_addEvent_eq)

text \<open>The contract of a queue that drops what does not fit.\<close>

locale bounded_queue =
  fixes push :: "'q \<Rightarrow> 'e \<Rightarrow> 'q"
    and items :: "'q \<Rightarrow> 'e list"
    and cap :: "'q \<Rightarrow> nat"
    and invar :: "'q \<Rightarrow> bool"
  assumes push_invar: "invar q \<Longrightarrow> invar (push q e)"
    and push_items: "invar q \<Longrightarrow>
      items (push q e) = (if length (items q) < cap q then items q @ [e] else items q)"
    and push_cap: "invar q \<Longrightarrow> cap (push q e) = cap q"
    and bound: "invar q \<Longrightarrow> length (items q) \<le> cap q"
begin

lemma push_all_invar: "invar q \<Longrightarrow> invar (foldl push q es)"
  by (induction es arbitrary: q) (auto simp: push_invar)

lemma push_all_cap: "invar q \<Longrightarrow> cap (foldl push q es) = cap q"
  by (induction es arbitrary: q) (auto simp: push_invar push_cap)

text \<open>The oldest events that fit are kept, in order; the newest are dropped.\<close>

lemma push_all_items:
  "invar q \<Longrightarrow> items (foldl push q es) = items q @ take (cap q - length (items q)) es"
proof (induction es arbitrary: q)
  case (Cons e es)
  show ?case
  proof (cases "length (items q) < cap q")
    case True
    then obtain d where d: "cap q - length (items q) = Suc d" by (metis Suc_diff_Suc)
    then have "cap q - Suc (length (items q)) = d" by simp
    with Cons True d show ?thesis by (simp add: push_invar push_items push_cap)
  next
    case False
    with Cons show ?thesis by (simp add: push_invar push_items push_cap)
  qed
qed simp

end

interpretation ldqueue: bounded_queue add_event_ok queue_items queue_cap queue_inv
  by unfold_locales (auto simp: add_event_ok_eq queue_inv_def queue_items_def queue_cap_def)

lemma queue_event_cases:
  assumes inv: "queue_inv context" and r: "queue_event context mk m = (r', m')"
  shows "(\<exists>e. r' = Fault e \<and> fst (mk m) = Fault e) \<or> r' = Val (False, context) \<or>
    (\<exists>e. r' = Val (True, add_event_ok context e) \<and> fst (mk m) = Val e)"
  using r
  by (cases "mk m"; cases "fst (mk m)")
    (auto simp: queue_event_def cbind_def ctry_def cret_def LDi_addEvent_eq[OF inv]
      add_event_ok_eq[OF inv])

section \<open>Lemmas: the summary key\<close>

text \<open>A character that occurs in neither first part separates the parts.\<close>

lemma split_at_char:
  "c \<notin> set xs \<Longrightarrow> c \<notin> set xs' \<Longrightarrow> xs @ c # ys = xs' @ c # ys' \<Longrightarrow> xs = xs' \<and> ys = ys'"
proof (induction xs arbitrary: xs')
  case Nil
  then show ?case by (cases xs') auto
next
  case (Cons x xs)
  then show ?case by (cases xs') auto
qed

lemma summary_key_Some:
  assumes "is_int (LDi_getFlagVersion flag)" "is_int (flag_variation flag)"
  shows "summary_key (Some flag) =
    int_to_string (LDi_getFlagVersion flag) @ CHR '' '' # int_to_string (flag_variation flag)"
  using int_to_string_length[OF assms(1)] int_to_string_length[OF assms(2)]
  by (simp add: summary_key_def)

lemma summary_key_inj:
  assumes "is_int (LDi_getFlagVersion f)" "is_int (flag_variation f)"
    and "is_int (LDi_getFlagVersion g)" "is_int (flag_variation g)"
    and "summary_key (Some f) = summary_key (Some g)"
  shows "LDi_getFlagVersion f = LDi_getFlagVersion g \<and> flag_variation f = flag_variation g"
  using assms split_at_char[of "CHR '' ''", OF int_to_string_space int_to_string_space]
  by (auto simp: summary_key_Some dest!: int_to_string_inj)

lemma summary_key_unknown:
  assumes "is_int (LDi_getFlagVersion f)" "is_int (flag_variation f)"
  shows "summary_key (Some f) \<noteq> summary_key None"
proof
  assume "summary_key (Some f) = summary_key None"
  then have "int_to_string (LDi_getFlagVersion f) @ CHR '' '' # int_to_string (flag_variation f) = ''unknown''"
    unfolding summary_key_Some[OF assms] by (simp add: summary_key_def)
  then have "CHR '' '' \<in> set ''unknown''" by (metis in_set_conv_decomp)
  then show False by simp
qed

section \<open>Lemmas: counting\<close>

text \<open>The JSON value of a C value of a given type.\<close>

fun value_json :: "cvalue \<Rightarrow> LDJSONType \<Rightarrow> json_ptr" where
  "value_json (CJson j) LDNull = Some j"
| "value_json (CBool b) LDBool = Some (JBool b)"
| "value_json (CText t) LDText = Some (JText t)"
| "value_json (CDouble d) LDNumber = Some (JNumber d)"
| "value_json _ _ = None"

lemma LDi_valueToJSON_ok [alloc_ok]:
  "value_json v t = Some j \<Longrightarrow> LDi_valueToJSON (Some v) t [] = (Val j, [])"
  by (cases "(v, t)" rule: value_json.cases) (auto simp: LDi_valueToJSON_def LD_ASSERT_def alloc_ok)

definition entry_count :: "json_ptr \<Rightarrow> double" where
  "entry_count e = LDGetNumber (LDObjectLookup e (Some ''count''))"

definition json_count :: "json \<Rightarrow> string \<Rightarrow> string \<Rightarrow> double" where
  "json_count sc f k =
     entry_count (LDObjectLookup
       (LDObjectLookup (LDObjectLookup (Some sc) (Some f)) (Some ''counters'')) (Some k))"

definition entry_ok :: "json \<Rightarrow> bool" where
  "entry_ok e \<longleftrightarrow> (\<exists>es n. e = JObject es \<and> map_of es ''count'' = Some (JNumber n))"

definition counters_ok :: "json \<Rightarrow> bool" where
  "counters_ok c \<longleftrightarrow> (\<exists>cs. c = JObject cs \<and> distinct (map fst cs) \<and>
     (\<forall>k e. map_of cs k = Some e \<longrightarrow> entry_ok e))"

definition context_ok :: "json \<Rightarrow> bool" where
  "context_ok fc \<longleftrightarrow> (\<exists>ms c. fc = JObject ms \<and> distinct (map fst ms) \<and>
     map_of ms ''counters'' = Some c \<and> counters_ok c)"

definition summary_ok :: "json \<Rightarrow> bool" where
  "summary_ok sc \<longleftrightarrow> (\<exists>fs. sc = JObject fs \<and> distinct (map fst fs) \<and>
     (\<forall>f fc. map_of fs f = Some fc \<longrightarrow> context_ok fc))"

lemma entry_count_None [simp]: "entry_count None = 0"
  by (simp add: entry_count_def)

lemma json_write_lookup:
  "LDObjectLookup (Some obj) (Some k) \<noteq> None \<Longrightarrow>
   LDObjectLookup (Some (json_write obj k v)) (Some k') =
     (if k' = k then Some v else LDObjectLookup (Some obj) (Some k'))"
  by (cases obj) (auto simp: json_write_def map_of_update_first)

lemma summary_new_entry_ok:
  assumes "value_json v vt = Some j"
  shows "\<exists>e. summary_new_entry node vt (Some v) [] = (Val e, []) \<and> entry_ok e \<and> entry_count (Some e) = 1"
proof (cases node)
  case None
  with assms show ?thesis
    by (simp add: summary_new_entry_def alloc_ok entry_ok_def entry_count_def obj_simps)
next
  case (Some flag)
  with assms show ?thesis
    by (simp add: summary_new_entry_def alloc_ok entry_ok_def entry_count_def obj_simps)
qed

lemma summary_bump_ok:
  assumes c: "counters_ok c" and v: "value_json v vt = Some j"
  shows "\<exists>c'. summary_bump c k node vt (Some v) [] = (Val c', []) \<and> counters_ok c' \<and>
    (\<forall>k'. entry_count (LDObjectLookup (Some c') (Some k')) =
       entry_count (LDObjectLookup (Some c) (Some k')) + (if k' = k then 1 else 0))"
proof -
  obtain cs where cs: "c = JObject cs" "distinct (map fst cs)"
      "\<And>k e. map_of cs k = Some e \<Longrightarrow> entry_ok e"
    using c by (auto simp: counters_ok_def)
  show ?thesis
  proof (cases "map_of cs k")
    case None
    obtain e where "summary_new_entry node vt (Some v) [] = (Val e, [])" "entry_ok e"
        "entry_count (Some e) = 1"
      using summary_new_entry_ok[OF v] by blast
    with None cs show ?thesis
      by (auto simp: summary_bump_def alloc_ok counters_ok_def obj_simps)
  next
    case (Some e)
    from cs(3)[OF this] obtain es n where es: "e = JObject es" "map_of es ''count'' = Some (JNumber n)"
      by (auto simp: entry_ok_def)
    with Some cs show ?thesis
      by (auto simp: summary_bump_def alloc_ok LD_ASSERT_def counters_ok_def json_write_def
          map_of_update_first entry_ok_def entry_count_def split: if_splits)
  qed
qed

lemma summary_new_context_ok:
  assumes "value_json v vt = Some j"
  shows "\<exists>fc. summary_new_context vt (Some v) [] = (Val fc, []) \<and> context_ok fc \<and>
    LDObjectLookup (Some fc) (Some ''counters'') = Some (JObject [])"
  using assms
  by (simp add: summary_new_context_def alloc_ok context_ok_def counters_ok_def obj_simps)

lemma summary_context_ok:
  assumes sc: "summary_ok sc" and v: "value_json v vt = Some j"
  shows "\<exists>sc' fc. summary_context sc f vt (Some v) [] = (Val (sc', fc, True), []) \<and>
    summary_ok sc' \<and> LDObjectLookup (Some sc') (Some f) = Some fc \<and> context_ok fc \<and>
    (\<forall>f' k. json_count sc' f' k = json_count sc f' k)"
proof -
  obtain fs where fs: "sc = JObject fs" "distinct (map fst fs)"
      "\<And>f fc. map_of fs f = Some fc \<Longrightarrow> context_ok fc"
    using sc by (auto simp: summary_ok_def)
  show ?thesis
  proof (cases "map_of fs f")
    case None
    obtain fc where "summary_new_context vt (Some v) [] = (Val fc, [])" "context_ok fc"
        "LDObjectLookup (Some fc) (Some ''counters'') = Some (JObject [])"
      using summary_new_context_ok[OF v] by blast
    with None fs show ?thesis
      by (auto simp: summary_context_def alloc_ok summary_ok_def obj_simps json_count_def)
  next
    case (Some fc)
    with fs sc show ?thesis by (auto simp: summary_context_def alloc_ok)
  qed
qed

text \<open>Updating the counters of one flag in place.\<close>

lemma context_ok_write:
  "context_ok fc \<Longrightarrow> counters_ok c \<Longrightarrow> context_ok (json_write fc ''counters'' c)"
  by (auto simp: context_ok_def json_write_def map_of_update_first)

lemma summary_ok_write:
  "summary_ok sc \<Longrightarrow> context_ok fc \<Longrightarrow> summary_ok (json_write sc f fc)"
  by (auto simp: summary_ok_def json_write_def map_of_update_first split: if_splits)

lemma LDi_summarizeEvent_ok:
  assumes sc: "summary_ok (ep_summaryCounters ctx)"
    and v: "value_json v vt = Some j" and fb: "value_json fb vt = Some d"
  shows "\<exists>ctx'. LDi_summarizeEvent ctx f node vt (Some fb) (Some v) now [] = (Val (True, ctx'), []) \<and>
    summary_ok (ep_summaryCounters ctx') \<and> ep_events ctx' = ep_events ctx \<and>
    ep_config ctx' = ep_config ctx \<and>
    ep_summaryStart ctx' = (if ep_summaryStart ctx = 0 then now else ep_summaryStart ctx) \<and>
    (\<forall>f' k. json_count (ep_summaryCounters ctx') f' k =
       json_count (ep_summaryCounters ctx) f' k + (if f' = f \<and> k = summary_key node then 1 else 0))"
proof -
  obtain sc' fc where 1: "summary_context (ep_summaryCounters ctx) f vt (Some fb) [] = (Val (sc', fc, True), [])"
      "summary_ok sc'" "LDObjectLookup (Some sc') (Some f) = Some fc" "context_ok fc"
      "\<And>f' k. json_count sc' f' k = json_count (ep_summaryCounters ctx) f' k"
    using summary_context_ok[OF sc fb] by blast
  obtain c where c: "LDObjectLookup (Some fc) (Some ''counters'') = Some c" "counters_ok c"
    using 1(4) by (auto simp: context_ok_def)
  obtain c' where 2: "summary_bump c (summary_key node) node vt (Some v) [] = (Val c', [])"
      "counters_ok c'" "\<And>k'. entry_count (LDObjectLookup (Some c') (Some k')) =
       entry_count (LDObjectLookup (Some c) (Some k')) + (if k' = summary_key node then 1 else 0)"
    using summary_bump_ok[OF c(2) v] by blast
  let ?fc = "json_write fc ''counters'' c'"
  let ?sc = "json_write sc' f ?fc"
  have ty: "LDJSONGetType (Some c) = LDObject"
    using c(2) by (auto simp: counters_ok_def LDJSONGetType_def)
  have "json_count ?sc f' k = json_count sc' f' k + (if f' = f \<and> k = summary_key node then 1 else 0)"
    for f' k
    using c(1) 1(3) 2(3)[of k] by (auto simp: json_count_def json_write_lookup)
  moreover have "summary_ok ?sc"
    by (intro summary_ok_write context_ok_write 1 2)
  ultimately show ?thesis
    using 1 2 c(1) ty by (simp add: LDi_summarizeEvent_def Let_def alloc_ok LD_ASSERT_def)
qed

text \<open>
  The contract of a table of counters: recording an event adds one to the count of its key and
  to no other. The lemma holds for every such table: a count is the number of events recorded.
\<close>

locale event_counter =
  fixes record_event :: "'s \<Rightarrow> 'e \<Rightarrow> 's"
    and event_key :: "'e \<Rightarrow> 'k"
    and event_ok :: "'e \<Rightarrow> bool"
    and cnt :: "'s \<Rightarrow> 'k \<Rightarrow> double"
    and invar :: "'s \<Rightarrow> bool"
  assumes record_invar: "invar s \<Longrightarrow> event_ok e \<Longrightarrow> invar (record_event s e)"
    and record_cnt: "invar s \<Longrightarrow> event_ok e \<Longrightarrow>
      cnt (record_event s e) k = cnt s k + (if k = event_key e then 1 else 0)"
begin

lemma record_all_invar: "invar s \<Longrightarrow> list_all event_ok es \<Longrightarrow> invar (foldl record_event s es)"
  by (induction es arbitrary: s) (auto simp: record_invar)

lemma record_all_cnt:
  "invar s \<Longrightarrow> list_all event_ok es \<Longrightarrow>
   cnt (foldl record_event s es) k = cnt s k + of_nat (length (filter (\<lambda>e. event_key e = k) es))"
  by (induction es arbitrary: s) (auto simp: record_invar record_cnt)

end

record evaluation =
  ev_flagKey :: string
  ev_node :: "LDFlag option"
  ev_type :: LDJSONType
  ev_fallback :: cvalue
  ev_value :: cvalue
  ev_now :: double

definition evaluation_ok :: "evaluation \<Rightarrow> bool" where
  "evaluation_ok e \<longleftrightarrow>
     value_json (ev_value e) (ev_type e) \<noteq> None \<and> value_json (ev_fallback e) (ev_type e) \<noteq> None"

definition summarize_ok :: "EventProcessor \<Rightarrow> evaluation \<Rightarrow> EventProcessor" where
  "summarize_ok ctx e =
     (case fst (LDi_summarizeEvent ctx (ev_flagKey e) (ev_node e) (ev_type e)
                  (Some (ev_fallback e)) (Some (ev_value e)) (ev_now e) []) of
        Val (_, ctx') \<Rightarrow> ctx' | _ \<Rightarrow> ctx)"

lemma summarize_ok_eq:
  assumes "summary_ok (ep_summaryCounters ctx)" and "evaluation_ok e"
  shows "LDi_summarizeEvent ctx (ev_flagKey e) (ev_node e) (ev_type e) (Some (ev_fallback e))
      (Some (ev_value e)) (ev_now e) [] = (Val (True, summarize_ok ctx e), [])"
    and "summary_ok (ep_summaryCounters (summarize_ok ctx e))"
    and "json_count (ep_summaryCounters (summarize_ok ctx e)) f k =
      json_count (ep_summaryCounters ctx) f k +
      (if f = ev_flagKey e \<and> k = summary_key (ev_node e) then 1 else 0)"
proof -
  obtain j d where "value_json (ev_value e) (ev_type e) = Some j"
      "value_json (ev_fallback e) (ev_type e) = Some d"
    using assms(2) by (auto simp: evaluation_ok_def)
  from LDi_summarizeEvent_ok[OF assms(1) this, of "ev_flagKey e" "ev_node e" "ev_now e"]
  show "LDi_summarizeEvent ctx (ev_flagKey e) (ev_node e) (ev_type e) (Some (ev_fallback e))
      (Some (ev_value e)) (ev_now e) [] = (Val (True, summarize_ok ctx e), [])"
    and "summary_ok (ep_summaryCounters (summarize_ok ctx e))"
    and "json_count (ep_summaryCounters (summarize_ok ctx e)) f k =
      json_count (ep_summaryCounters ctx) f k +
      (if f = ev_flagKey e \<and> k = summary_key (ev_node e) then 1 else 0)"
    by (auto simp: summarize_ok_def)
qed

interpretation ldsummary: event_counter summarize_ok
  "\<lambda>e. (ev_flagKey e, summary_key (ev_node e))" evaluation_ok
  "\<lambda>ctx (f, k). json_count (ep_summaryCounters ctx) f k"
  "\<lambda>ctx. summary_ok (ep_summaryCounters ctx)"
  by unfold_locales (auto simp: summarize_ok_eq split: if_splits)

section \<open>Lemmas: evaluations\<close>

definition event_user_ok :: "LDConfig \<Rightarrow> LDUser \<Rightarrow> bool" where
  "event_user_ok config user \<longleftrightarrow> user_key user \<noteq> None \<and>
     user_privateAttributeNames user \<noteq> None \<and> all_text (user_privateAttributeNames user) \<and>
     all_text (privateAttributeNames config)"

lemma event_user_succeeds:
  assumes "event_user_ok (ep_config ctx) user"
  shows "\<exists>j. event_user ctx user [] = (Val j, [])"
  using assms LDi_createEventUser_ok[of user] by (auto simp: event_user_ok_def event_user_def)

lemma json_set_new_succeeds:
  "\<exists>v. mk [] = (Val v, []) \<Longrightarrow> \<exists>ys. json_set_new (JObject xs) k mk [] = (Val (JObject ys), [])"
  by (auto simp: alloc_ok)

lemma addUserInfo_succeeds:
  assumes "event_user_ok (ep_config ctx) user"
  shows "\<exists>ys. LDi_addUserInfoToEvent ctx (JObject xs) user [] = (Val (JObject ys), [])"
proof (cases "inlineUsersInEvents (ep_config ctx)")
  case True
  with json_set_new_succeeds[where mk = "event_user ctx user", OF event_user_succeeds[OF assms]] show ?thesis
    by (simp add: LDi_addUserInfoToEvent_def)
next
  case False
  obtain k where "user_key user = Some k" using assms by (auto simp: event_user_ok_def)
  with False show ?thesis by (simp add: LDi_addUserInfoToEvent_def alloc_ok)
qed

lemma feature_event_node_succeeds:
  "\<exists>ys. feature_event_node (JObject xs) node detailed [] = (Val (JObject ys), [])"
proof (cases node)
  case (Some flag)
  then show ?thesis
    by (cases "flag_reason flag")
      (simp_all add: feature_event_node_def alloc_ok json_set_if_def)
qed (simp add: feature_event_node_def alloc_ok)

lemma LDi_newFeatureRequestEvent_succeeds:
  assumes u: "event_user_ok (ep_config ctx) user"
    and v: "value_json v vt = Some j" and fb: "value_json fb vt = Some d"
  shows "\<exists>e. LDi_newFeatureRequestEvent ctx f user vt (Some fb) (Some v) node detailed now [] =
    (Val e, [])"
proof -
  obtain ys where 1: "LDi_addUserInfoToEvent ctx
      (JObject (obj_put (obj_put [] ''creationDate'' (JNumber now)) ''kind'' (JText ''feature'')))
      user [] = (Val (JObject ys), [])"
    using addUserInfo_succeeds[OF u] by blast
  let ?zs = "obj_put (obj_put (obj_put ys ''key'' (JText f)) ''value'' j) ''default'' d"
  obtain zs where 2: "feature_event_node (JObject ?zs) node detailed [] = (Val (JObject zs), [])"
    using feature_event_node_succeeds by blast
  show ?thesis
    using v fb 1 2
    by (simp add: LDi_newFeatureRequestEvent_def LDi_newBaseEvent_def LD_ASSERT_def alloc_ok)
qed

text \<open>
  With memory available an evaluation is always recorded: it is counted once, and a feature
  event joins the queue exactly when the flag asks for one and there is room.
\<close>

lemma LDi_processEvalEvent_ok:
  assumes q: "queue_inv ctx" and sc: "summary_ok (ep_summaryCounters ctx)"
    and u: "event_user_ok (ep_config ctx) user"
    and v: "value_json v vt = Some j" and fb: "value_json fb vt = Some d"
  shows "\<exists>ctx' e. LDi_processEvalEvent ctx user f vt node (Some v) (Some fb) detailed now now' [] =
      (Val (True, ctx'), []) \<and> queue_inv ctx' \<and> summary_ok (ep_summaryCounters ctx') \<and>
    queue_items ctx' = queue_items ctx @
      (if shouldGenerateFeatureEvent node now \<and> length (queue_items ctx) < queue_cap ctx
       then [e] else []) \<and>
    ep_config ctx' = ep_config ctx \<and>
    (\<forall>f' k. json_count (ep_summaryCounters ctx') f' k =
       json_count (ep_summaryCounters ctx) f' k + (if f' = f \<and> k = summary_key node then 1 else 0))"
proof -
  obtain e where e: "LDi_newFeatureRequestEvent ctx f user vt (Some fb) (Some v) node detailed now [] =
      (Val e, [])"
    using LDi_newFeatureRequestEvent_succeeds[OF u v fb] by blast
  obtain c where c: "LDi_summarizeEvent ctx f node vt (Some fb) (Some v) now' [] = (Val (True, c), [])"
      "summary_ok (ep_summaryCounters c)" "ep_events c = ep_events ctx" "ep_config c = ep_config ctx"
      "\<And>f' k. json_count (ep_summaryCounters c) f' k =
       json_count (ep_summaryCounters ctx) f' k + (if f' = f \<and> k = summary_key node then 1 else 0)"
    using LDi_summarizeEvent_ok[OF sc v fb] by blast
  have q': "queue_inv c" "queue_items c = queue_items ctx" "queue_cap c = queue_cap ctx"
    using q c by (simp_all add: queue_inv_def queue_items_def queue_cap_def)
  show ?thesis
  proof (cases "shouldGenerateFeatureEvent node now")
    case True
    let ?c = "add_event_ok c e"
    have "LDi_processEvalEvent ctx user f vt node (Some v) (Some fb) detailed now now' [] =
        (Val (True, ?c), [])"
      using True e c(1)
      by (simp add: LDi_processEvalEvent_def alloc_ok LD_ASSERT_def LDi_addEvent_eq[OF q'(1)]
          add_event_ok_eq[OF q'(1)])
    moreover have "ep_summaryCounters ?c = ep_summaryCounters c" "ep_config ?c = ep_config c"
      by (simp_all add: add_event_ok_eq[OF q'(1)])
    ultimately show ?thesis
      using True c q' ldqueue.push_invar[OF q'(1)] ldqueue.push_items[OF q'(1), of e]
      by (intro exI[of _ ?c] exI[of _ e]) simp
  next
    case False
    with c q' show ?thesis
      by (intro exI[of _ c]) (simp add: LDi_processEvalEvent_def alloc_ok LD_ASSERT_def)
  qed
qed

section \<open>Lemmas: the payload\<close>

lemma ctry_new_cases:
  "ctry LDNewArray m \<in> {(Val None, tl m), (Val (Some (JArray [])), tl m)}"
  "ctry LDNewObject m \<in> {(Val None, tl m), (Val (Some (JObject [])), tl m)}"
  by (cases m rule: LDAlloc.cases; simp add: LDNewArray_def LDNewObject_def cmd_simps)+

lemma LDi_bundleEventPayload_cases:
  assumes q: "queue_inv ctx" and r: "LDi_bundleEventPayload ctx now m = (Val (ok, payload, ctx'), m')"
  shows "(\<not> ok \<and> payload = None \<and> ctx' = ctx) \<or>
    (ok \<and> payload = None \<and> ctx' = ctx \<and> LDCollectionGetSize (Some (ep_events ctx)) = 0) \<or>
    (ok \<and> (\<exists>summary. payload = Some (JArray (queue_items ctx @ summary)) \<and>
       length summary = (if ep_summaryStart ctx \<noteq> 0 then 1 else 0)) \<and>
     queue_items ctx' = [] \<and> queue_inv ctx' \<and> ep_summaryStart ctx' = 0 \<and>
     ep_config ctx' = ep_config ctx \<and>
     ep_summaryCounters ctx' = (if ep_summaryStart ctx \<noteq> 0 then JObject [] else ep_summaryCounters ctx))"
proof -
  obtain es where es: "ep_events ctx = JArray es" using q by (auto simp: queue_inv_def)
  then have inv': "queue_inv (ctx\<lparr>ep_events := JArray []\<rparr>)"
    "queue_inv (ctx\<lparr>ep_summaryStart := 0, ep_summaryCounters := JObject [], ep_events := JArray []\<rparr>)"
    by (simp_all add: queue_inv_def)
  consider (empty) "LDCollectionGetSize (Some (ep_events ctx)) = 0 \<and>
      LDCollectionGetSize (Some (ep_summaryCounters ctx)) = 0"
    | (noarray) "ctry LDNewArray m = (Val None, tl m)"
    | (array) "ctry LDNewArray m = (Val (Some (JArray [])), tl m)"
        "\<not> (LDCollectionGetSize (Some (ep_events ctx)) = 0 \<and>
            LDCollectionGetSize (Some (ep_summaryCounters ctx)) = 0)"
    using ctry_new_cases(1)[of m] by blast
  then show ?thesis
  proof cases
    case array
    show ?thesis
    proof (cases "ep_summaryStart ctx = 0")
      case True
      with array r inv'(1) es show ?thesis
        by (auto simp: LDi_bundleEventPayload_def cbind_def[of "ctry LDNewArray"] cret_Val_iff
            queue_items_def split: if_splits)
    next
      case False
      with array r es inv'(2) ctry_new_cases(2)[of "tl m"] show ?thesis
        by (auto simp: LDi_bundleEventPayload_def cbind_def[of "ctry LDNewArray"]
            cbind_def[of "ctry LDNewObject"] cmd_Val_iffs queue_items_def
            split: if_splits)
    qed
  qed (use r in \<open>auto simp: LDi_bundleEventPayload_def cbind_def[of "ctry LDNewArray"] cret_def
        split: if_splits\<close>)
qed

text \<open>With memory available the summary event reports every counter of every flag.\<close>

definition feature_json :: "json \<Rightarrow> json" where
  "feature_json fc =
     (case fc of
        JObject ms \<Rightarrow>
          (case map_of ms ''counters'' of
             Some (JObject cs) \<Rightarrow> JObject (obj_put ms ''counters'' (JArray (map snd cs)))
           | _ \<Rightarrow> fc)
      | _ \<Rightarrow> fc)"

lemma object_to_array_loop_ok [alloc_ok]:
  "object_to_array_loop it acc [] = (Val (acc @ map snd it), [])"
  by (induction it arbitrary: acc) (auto simp: alloc_ok)

lemma obj_put_delete_first:
  "distinct (map fst xs) \<Longrightarrow> obj_put (delete_first k xs) k v = obj_put xs k v"
  by (simp add: obj_put_def fst_set_delete_first)

lemma summary_features_ok:
  assumes "\<And>f fc. (f, fc) \<in> set fs \<Longrightarrow> context_ok fc"
  shows "summary_features fs [] = (Val (map (\<lambda>(f, fc). (f, feature_json fc)) fs), [])"
  using assms
proof (induction fs)
  case (Cons x fs)
  obtain f fc where x: "x = (f, fc)" by fastforce
  with Cons.prems have "context_ok fc" by auto
  then obtain ms cs where ms: "fc = JObject ms" "distinct (map fst ms)"
      "map_of ms ''counters'' = Some (JObject cs)"
    by (auto simp: context_ok_def counters_ok_def)
  have kids: "snd \<circ> (\<lambda>(k, y). (Some k, y)) = (snd :: string \<times> json \<Rightarrow> json)" by (auto simp: fun_eq_iff)
  have IH: "summary_features fs [] = (Val (map (\<lambda>(f, fc). (f, feature_json fc)) fs), [])"
    by (rule Cons.IH) (use Cons.prems in auto)
  have fc: "feature_json fc = JObject (obj_put ms ''counters'' (JArray (map snd cs)))"
    using ms by (simp add: feature_json_def)
  show ?case
    using ms IH
    by (simp add: x fc[unfolded ms(1)] alloc_ok LD_ASSERT_def LDi_objectToArray_def
        LDJSONGetType_def LDGetIter_def kids obj_put_delete_first)
qed (simp add: alloc_ok)

lemma LDi_prepareSummaryEvent_ok:
  assumes "ep_summaryCounters ctx = JObject fs" and "summary_ok (JObject fs)"
  shows "LDi_prepareSummaryEvent ctx now [] =
    (Val (JObject [(''kind'', JText ''summary''), (''startDate'', JNumber (ep_summaryStart ctx)),
       (''endDate'', JNumber now),
       (''features'', JObject (map (\<lambda>(f, fc). (f, feature_json fc)) fs))]), [])"
proof -
  have "\<And>f fc. (f, fc) \<in> set fs \<Longrightarrow> context_ok fc" using assms(2) by (auto simp: summary_ok_def)
  from summary_features_ok[OF this] show ?thesis
    using assms(1)
    by (simp add: LDi_prepareSummaryEvent_def alloc_ok json_members_def obj_put_def)
qed

section \<open>Properties\<close>

text \<open>Runs of the processor: the calls made one after another, each on the state the last one left.\<close>

primrec add_all :: "EventProcessor \<Rightarrow> json list \<Rightarrow> EventProcessor cmd" where
  "add_all context [] = cret context"
| "add_all context (e # es) = cbind (LDi_addEvent context (Some e)) (\<lambda>context. add_all context es)"

primrec process_all ::
  "EventProcessor \<Rightarrow> LDUser \<Rightarrow> bool \<Rightarrow> evaluation list \<Rightarrow> EventProcessor cmd" where
  "process_all context user detailed [] = cret context"
| "process_all context user detailed (e # es) =
     cbind (LDi_processEvalEvent context user (ev_flagKey e) (ev_type e) (ev_node e)
              (Some (ev_value e)) (Some (ev_fallback e)) detailed (ev_now e) (ev_now e))
       (\<lambda>(ok, context). process_all context user detailed es)"

primrec summarize_all :: "EventProcessor \<Rightarrow> evaluation list \<Rightarrow> EventProcessor cmd" where
  "summarize_all context [] = cret context"
| "summarize_all context (e # es) =
     cbind (LDi_summarizeEvent context (ev_flagKey e) (ev_node e) (ev_type e)
              (Some (ev_fallback e)) (Some (ev_value e)) (ev_now e))
       (\<lambda>(ok, context). summarize_all context es)"

lemma add_all_eq: "queue_inv ctx \<Longrightarrow> add_all ctx es m = (Val (foldl add_event_ok ctx es), m)"
  by (induction es arbitrary: ctx)
    (simp_all add: cret_def cbind_def LDi_addEvent_eq ldqueue.push_invar flip: add_event_ok_eq)

lemma summarize_all_eq:
  "summary_ok (ep_summaryCounters ctx) \<Longrightarrow> list_all evaluation_ok es \<Longrightarrow>
   summarize_all ctx es [] = (Val (foldl summarize_ok ctx es), [])"
  by (induction es arbitrary: ctx) (simp_all add: cret_def cbind_def summarize_ok_eq)

lemma empty_processor_inv:
  assumes "LDi_newEventProcessor config now m = (Val ctx, m')"
  shows "queue_inv ctx \<and> summary_ok (ep_summaryCounters ctx) \<and> ep_config ctx = config \<and>
   queue_items ctx = [] \<and> (\<forall>f k. json_count (ep_summaryCounters ctx) f k = 0)"
proof -
  obtain m1 r m2 where r: "ctry LDNewArray m1 = (Val r, m2)"
      "(case r of None \<Rightarrow> cfault Undefined
        | Some events \<Rightarrow>
            cbind LDNewObject (\<lambda>counters.
              cret \<lparr>ep_events = events, ep_summaryCounters = counters, ep_summaryStart = 0,
                    ep_lastUserKeyFlush = now, ep_lastServerTime = 0, ep_config = config\<rparr>)) m2 = (Val ctx, m')"
    using assms unfolding LDi_newEventProcessor_def cmd_Val_split by blast
  with ctry_new_cases(1)[of m1] have "r = Some (JArray [])" by (auto simp: cfault_def)
  with r(2) show ?thesis
    by (auto simp: LDNewObject_def cmd_Val_iffs queue_inv_def summary_ok_def queue_items_def json_count_def)
qed

definition sample_eval :: evaluation where
  "sample_eval = \<lparr>ev_flagKey = ''f'', ev_node = None, ev_type = LDBool, ev_fallback = CBool False,
     ev_value = CBool True, ev_now = 7\<rparr>"

definition sample_processor :: EventProcessor where
  "sample_processor = \<lparr>ep_events = JArray [], ep_summaryCounters = JObject [], ep_summaryStart = 0,
     ep_lastUserKeyFlush = 0, ep_lastServerTime = 0, ep_config =
       sample_config\<rparr>"

text \<open>Failing to allocate the array of events, behind the processor itself, is the undefined case.\<close>

lemma new_processor_frees_unset: "fst (LDi_newEventProcessor config now (True # False # m)) = Fault Undefined"
  by (simp add: LDi_newEventProcessor_def LDNewArray_def cbind_def ctry_def cret_def cfault_def)

lemma sample_processor_new: "LDi_newEventProcessor sample_config 0 [] = (Val sample_processor, [])"
  by (simp add: LDi_newEventProcessor_def alloc_ok sample_processor_def)

lemmas sample_processor_inv = empty_processor_inv[OF sample_processor_new]

text \<open>C23. The event queue is bounded and ordered: whatever events are queued, one after another
  and under any behaviour of the allocator, none of the calls fails, the queue never exceeds
  the configured capacity, and it holds the oldest events in the order they came.\<close>

theorem event_queue_bounded_fifo:
  assumes "queue_inv ctx"
  shows "\<exists>ctx'. add_all ctx es m = (Val ctx', m) \<and> queue_inv ctx' \<and>
    queue_items ctx' = take (queue_cap ctx) (queue_items ctx @ es) \<and>
    ctx'\<lparr>ep_events := ep_events ctx\<rparr> = ctx"
proof -
  let ?ctx' = "foldl add_event_ok ctx es"
  have "?ctx'\<lparr>ep_events := ep_events ctx\<rparr> = ctx" using assms
  proof (induction es arbitrary: ctx)
    case (Cons e es)
    have "foldl add_event_ok (add_event_ok ctx e) es\<lparr>ep_events := ep_events (add_event_ok ctx e)\<rparr> =
        add_event_ok ctx e"
      using Cons ldqueue.push_invar by blast
    then have "foldl add_event_ok (add_event_ok ctx e) es\<lparr>ep_events := ep_events ctx\<rparr> =
        add_event_ok ctx e\<lparr>ep_events := ep_events ctx\<rparr>"
      by (metis EventProcessor.update_convs(1) EventProcessor.surjective EventProcessor.select_convs)
    then show ?case by (simp add: add_event_ok_eq[OF Cons.prems])
  qed simp
  then show ?thesis
    using ldqueue.push_all_items[OF assms, of es] ldqueue.bound[OF assms]
    by (simp add: add_all_eq assms ldqueue.push_all_invar take_all)
qed

theorem event_queue_bounded_fifo_witness:
  "\<exists>ctx'. add_all sample_processor (replicate 150 (JBool True)) [False] = (Val ctx', [False]) \<and>
     length (queue_items ctx') = 100"
proof -
  have "queue_cap sample_processor = 100"
    by (simp add: queue_cap_def sample_processor_def sample_config_def config_defaults_def)
  with event_queue_bounded_fifo[of sample_processor "replicate 150 (JBool True)" "[False]"]
    sample_processor_inv show ?thesis by auto
qed

text \<open>C25. The summary counts exactly: after any sequence of evaluations the counter of a flag
  under a key (version and variation, or unknown) has grown by the number of evaluations of
  that flag with that key.\<close>

theorem summary_counts_exact:
  assumes "summary_ok (ep_summaryCounters ctx)" and "list_all evaluation_ok es"
  shows "\<exists>ctx'. summarize_all ctx es [] = (Val ctx', []) \<and> summary_ok (ep_summaryCounters ctx') \<and>
    (\<forall>f k. json_count (ep_summaryCounters ctx') f k = json_count (ep_summaryCounters ctx) f k +
      of_nat (length (filter (\<lambda>e. ev_flagKey e = f \<and> summary_key (ev_node e) = k) es)))"
  using ldsummary.record_all_cnt[OF assms] ldsummary.record_all_invar[OF assms]
  by (simp add: summarize_all_eq assms) force

theorem summary_counts_exact_witness:
  "\<exists>ctx'. summarize_all sample_processor [sample_eval, sample_eval] [] = (Val ctx', []) \<and>
     json_count (ep_summaryCounters ctx') ''f'' ''unknown'' = 2"
proof -
  have ok: "list_all evaluation_ok [sample_eval, sample_eval]"
    by (simp add: evaluation_ok_def sample_eval_def)
  obtain ctx' where "summarize_all sample_processor [sample_eval, sample_eval] [] = (Val ctx', [])"
      "\<forall>f k. json_count (ep_summaryCounters ctx') f k = json_count (ep_summaryCounters sample_processor) f k +
        of_nat (length (filter (\<lambda>e. ev_flagKey e = f \<and> summary_key (ev_node e) = k) [sample_eval, sample_eval]))"
    using summary_counts_exact[OF _ ok] sample_processor_inv by blast
  with sample_processor_inv show ?thesis
    by (intro exI[of _ ctx']) (simp add: sample_eval_def summary_key_def)
qed

text \<open>Two flags share a counter exactly when they have the same version and the same
  variation, and neither shares the counter of unknown flags.\<close>

theorem summary_key_distinguishes:
  assumes "is_int (LDi_getFlagVersion f)" "is_int (flag_variation f)"
    and "is_int (LDi_getFlagVersion g)" "is_int (flag_variation g)"
  shows "(summary_key (Some f) = summary_key (Some g) \<longleftrightarrow>
      LDi_getFlagVersion f = LDi_getFlagVersion g \<and> flag_variation f = flag_variation g) \<and>
    summary_key (Some f) \<noteq> summary_key None"
  using summary_key_inj[OF assms] summary_key_unknown[OF assms(1,2)] by (auto simp: summary_key_def)

theorem summary_key_distinguishes_witness:
  "summary_key (Some (sample_flag ''a'' 1 (JBool True))) \<noteq> summary_key None \<and>
   is_int (LDi_getFlagVersion (sample_flag ''a'' 1 (JBool True)))"
  using summary_key_distinguishes[of "sample_flag ''a'' 1 (JBool True)" "sample_flag ''a'' 1 (JBool True)"]
  by (simp add: sample_flag_def LDi_getFlagVersion_def is_int_def INT_MIN_def INT_MAX_def)

definition wants_event :: "evaluation \<Rightarrow> bool" where
  "wants_event e = shouldGenerateFeatureEvent (ev_node e) (ev_now e)"

text \<open>With memory available every evaluation of a run is recorded: each is counted once, and
  the feature events of those whose flag asks for one join the queue, as long as there is room.\<close>

theorem evaluations_recorded:
  assumes "queue_inv ctx" and "summary_ok (ep_summaryCounters ctx)"
    and "event_user_ok (ep_config ctx) user" and "list_all evaluation_ok es"
  shows "\<exists>ctx' fe. process_all ctx user detailed es [] = (Val ctx', []) \<and>
    length fe = length (filter wants_event es) \<and>
    queue_items ctx' = take (queue_cap ctx) (queue_items ctx @ fe) \<and>
    queue_inv ctx' \<and> summary_ok (ep_summaryCounters ctx') \<and> ep_config ctx' = ep_config ctx \<and>
    (\<forall>f k. json_count (ep_summaryCounters ctx') f k = json_count (ep_summaryCounters ctx) f k +
      of_nat (length (filter (\<lambda>e. ev_flagKey e = f \<and> summary_key (ev_node e) = k) es)))"
  using assms
proof (induction es arbitrary: ctx)
  case Nil
  then show ?case using ldqueue.bound[of ctx] by (intro exI[of _ ctx]) (simp add: alloc_ok)
next
  case (Cons e es)
  obtain j d where jd: "value_json (ev_value e) (ev_type e) = Some j"
      "value_json (ev_fallback e) (ev_type e) = Some d"
    using Cons.prems(4) by (auto simp: evaluation_ok_def)
  obtain c x where c: "LDi_processEvalEvent ctx user (ev_flagKey e) (ev_type e) (ev_node e)
        (Some (ev_value e)) (Some (ev_fallback e)) detailed (ev_now e) (ev_now e) [] = (Val (True, c), [])"
      "queue_inv c" "summary_ok (ep_summaryCounters c)" "ep_config c = ep_config ctx"
      "queue_items c = queue_items ctx @
        (if wants_event e \<and> length (queue_items ctx) < queue_cap ctx then [x] else [])"
      "\<And>f k. json_count (ep_summaryCounters c) f k = json_count (ep_summaryCounters ctx) f k +
        (if f = ev_flagKey e \<and> k = summary_key (ev_node e) then 1 else 0)"
    using LDi_processEvalEvent_ok[OF Cons.prems(1-3) jd] unfolding wants_event_def by blast
  have cap: "queue_cap c = queue_cap ctx" using c(4) by (simp add: queue_cap_def)
  obtain c' fe where c': "process_all c user detailed es [] = (Val c', [])"
      "length fe = length (filter wants_event es)"
      "queue_items c' = take (queue_cap c) (queue_items c @ fe)"
      "queue_inv c'" "summary_ok (ep_summaryCounters c')" "ep_config c' = ep_config c"
      "\<And>f k. json_count (ep_summaryCounters c') f k = json_count (ep_summaryCounters c) f k +
        of_nat (length (filter (\<lambda>e. ev_flagKey e = f \<and> summary_key (ev_node e) = k) es))"
    using Cons.IH[of c] c Cons.prems by auto
  let ?fe = "(if wants_event e then [x] else []) @ fe"
  have items: "queue_items c' = take (queue_cap ctx) (queue_items ctx @ ?fe)"
    using c'(3) c(5) cap ldqueue.bound[OF Cons.prems(1)] by auto
  have "json_count (ep_summaryCounters c') f k = json_count (ep_summaryCounters ctx) f k +
      of_nat (length (filter (\<lambda>e. ev_flagKey e = f \<and> summary_key (ev_node e) = k) (e # es)))" for f k
    using c'(7)[of f k] c(6)[of f k] by auto
  moreover have "process_all ctx user detailed (e # es) [] = (Val c', [])"
    using c(1) c'(1) by (simp add: cbind_def)
  moreover have "length ?fe = length (filter wants_event (e # es))" using c'(2) by simp
  ultimately show ?case using items c'(4-6) c(4) by metis
qed

theorem evaluations_recorded_witness:
  "\<exists>ctx'. process_all sample_processor sample_user False
      [sample_eval\<lparr>ev_node := Some (sample_flag ''f'' 1 (JBool True))\<rparr>, sample_eval] [] = (Val ctx', []) \<and>
    length (queue_items ctx') = 1 \<and> json_count (ep_summaryCounters ctx') ''f'' ''unknown'' = 1"
proof -
  let ?es = "[sample_eval\<lparr>ev_node := Some (sample_flag ''f'' 1 (JBool True))\<rparr>, sample_eval]"
  have "event_user_ok (ep_config sample_processor) sample_user" "list_all evaluation_ok ?es"
    by (simp_all add: event_user_ok_def sample_processor_def sample_config_def config_defaults_def
        sample_user_def all_text_def LDGetIter_def evaluation_ok_def sample_eval_def)
  then obtain ctx' fe where r: "process_all sample_processor sample_user False ?es [] = (Val ctx', [])"
      "length fe = length (filter wants_event ?es)"
      "queue_items ctx' = take (queue_cap sample_processor) fe"
      "json_count (ep_summaryCounters ctx') ''f'' ''unknown'' =
        of_nat (length (filter (\<lambda>e. ev_flagKey e = ''f'' \<and> summary_key (ev_node e) = ''unknown'') ?es))"
    using evaluations_recorded[of sample_processor sample_user ?es False] sample_processor_inv by auto
  have "queue_cap sample_processor = 100"
    by (simp add: queue_cap_def sample_processor_def sample_config_def config_defaults_def)
  moreover have "summary_key (Some (sample_flag ''f'' 1 (JBool True))) \<noteq> ''unknown''"
    using summary_key_unknown[of "sample_flag ''f'' 1 (JBool True)"]
    by (simp add: sample_flag_def LDi_getFlagVersion_def is_int_def INT_MIN_def INT_MAX_def)
       (simp add: summary_key_def)
  ultimately show ?thesis using r
    by (intro exI[of _ ctx'])
      (simp add: wants_event_def shouldGenerateFeatureEvent_def sample_eval_def summary_key_def sample_flag_def)
qed

text \<open>With memory available the summary event of a payload reports every counter.\<close>

lemma summary_event_reports_counters:
  assumes "queue_inv ctx" and "summary_ok (ep_summaryCounters ctx)" and "ep_summaryStart ctx \<noteq> 0"
    and "\<not> (LDCollectionGetSize (Some (ep_events ctx)) = 0 \<and> LDCollectionGetSize (Some (ep_summaryCounters ctx)) = 0)"
  shows "\<exists>fs s ctx'. LDi_bundleEventPayload ctx now [] = (Val (True, Some (JArray (queue_items ctx @ [s])), ctx'), []) \<and>
    LDObjectLookup (Some s) (Some ''startDate'') = Some (JNumber (ep_summaryStart ctx)) \<and>
    LDObjectLookup (Some s) (Some ''endDate'') = Some (JNumber now) \<and>
    LDObjectLookup (Some s) (Some ''features'') = Some (JObject fs) \<and>
    (\<forall>f. LDObjectLookup (Some (JObject fs)) (Some f) =
       map_option feature_json (LDObjectLookup (Some (ep_summaryCounters ctx)) (Some f)))"
proof -
  obtain es where es: "ep_events ctx = JArray es" using assms(1) by (auto simp: queue_inv_def)
  obtain fs where fs: "ep_summaryCounters ctx = JObject fs" using assms(2) by (auto simp: summary_ok_def)
  let ?s = "JObject [(''kind'', JText ''summary''), (''startDate'', JNumber (ep_summaryStart ctx)),
       (''endDate'', JNumber now), (''features'', JObject (map (\<lambda>(f, fc). (f, feature_json fc)) fs))]"
  have "LDi_prepareSummaryEvent ctx now [] = (Val ?s, [])"
    using LDi_prepareSummaryEvent_ok[OF fs] assms(2) fs by simp
  then have "LDi_bundleEventPayload ctx now [] = (Val (True, Some (JArray (queue_items ctx @ [?s])),
      ctx\<lparr>ep_summaryStart := 0, ep_summaryCounters := JObject [], ep_events := JArray []\<rparr>), [])"
    using assms(3,4) es by (simp add: LDi_bundleEventPayload_def alloc_ok queue_items_def)
  moreover have "map_of (map (\<lambda>(f, fc). (f, feature_json fc)) fs) f = map_option feature_json (map_of fs f)" for f
    by (induction fs) auto
  ultimately show ?thesis using fs
    by (intro exI[of _ "map (\<lambda>(f, fc). (f, feature_json fc)) fs"] exI[of _ ?s]) simp
qed

lemma queue_size_0:
  assumes "queue_inv ctx"
  shows "LDCollectionGetSize (Some (ep_events ctx)) = 0 \<longleftrightarrow> queue_items ctx = []"
proof -
  obtain es where es: "ep_events ctx = JArray es" "length es \<le> unat (eventsCapacity (ep_config ctx))"
    using assms by (auto simp: queue_inv_def)
  moreover have "unat (eventsCapacity (ep_config ctx)) < 2 ^ 32"
    using unsigned_less[of "eventsCapacity (ep_config ctx)"] by simp
  ultimately have "length es < 2 ^ 32" by linarith
  then have "(of_nat (length es) :: u32) = 0 \<longleftrightarrow> length es = 0"
    by (auto simp: word_of_nat_eq_0_iff dest: nat_dvd_not_less)
  with es show ?thesis by (simp add: LDCollectionGetSize_def queue_items_def)
qed

lemma bundle_ok:
  assumes "queue_inv ctx" and "summary_ok (ep_summaryCounters ctx)"
  shows "\<exists>payload ctx'. LDi_bundleEventPayload ctx now [] = (Val (True, payload, ctx'), []) \<and>
    (payload = None \<longleftrightarrow> queue_items ctx = [] \<and> LDCollectionGetSize (Some (ep_summaryCounters ctx)) = 0)"
proof (cases "queue_items ctx = [] \<and> LDCollectionGetSize (Some (ep_summaryCounters ctx)) = 0")
  case True
  then show ?thesis using queue_size_0[OF assms(1)] by (simp add: LDi_bundleEventPayload_def cret_def)
next
  case False
  then have ne: "\<not> (LDCollectionGetSize (Some (ep_events ctx)) = 0 \<and> LDCollectionGetSize (Some (ep_summaryCounters ctx)) = 0)"
    using queue_size_0[OF assms(1)] by simp
  show ?thesis
  proof (cases "ep_summaryStart ctx = 0")
    case True
    with ne False show ?thesis by (auto simp: LDi_bundleEventPayload_def alloc_ok)
  next
    case False': False
    with summary_event_reports_counters[OF assms False' ne, of now] False show ?thesis by auto
  qed
qed

text \<open>C24. Taking the payload loses and duplicates nothing. Whatever the allocator does, either there is no
  payload and the processor is unchanged, or the payload is the queue, in order, followed by one summary
  event exactly when a summary period is open (\<open>summaryStart\<close> is set), and the processor starts
  afresh; counters outside a period are kept. With memory available the call succeeds, there is no payload only
  when nothing is queued or counted, and the summary has the bounds of the period and, for every flag that
  was evaluated, its context with the list of all its counters as they were kept.\<close>

theorem payload_conserves_events:
  assumes "queue_inv ctx" and "summary_ok (ep_summaryCounters ctx)"
    and "LDi_bundleEventPayload ctx now m = (Val (ok, payload, ctx'), m')"
  shows "(if payload = None then ctx' = ctx
      else ok \<and> queue_inv ctx' \<and> queue_items ctx' = [] \<and> ep_summaryStart ctx' = 0 \<and>
        (\<exists>summary. payload = Some (JArray (queue_items ctx @ summary)) \<and>
           length summary = (if ep_summaryStart ctx \<noteq> 0 then 1 else 0)) \<and>
        ep_summaryCounters ctx' = (if ep_summaryStart ctx \<noteq> 0 then JObject [] else ep_summaryCounters ctx)) \<and>
    (m = [] \<longrightarrow> ok \<and>
      (payload = None \<longleftrightarrow> queue_items ctx = [] \<and> LDCollectionGetSize (Some (ep_summaryCounters ctx)) = 0) \<and>
      (payload \<noteq> None \<and> ep_summaryStart ctx \<noteq> 0 \<longrightarrow> (\<exists>s fs. payload = Some (JArray (queue_items ctx @ [s])) \<and>
        LDObjectLookup (Some s) (Some ''startDate'') = Some (JNumber (ep_summaryStart ctx)) \<and>
        LDObjectLookup (Some s) (Some ''endDate'') = Some (JNumber now) \<and>
        LDObjectLookup (Some s) (Some ''features'') = Some (JObject fs) \<and>
        (\<forall>f. LDObjectLookup (Some (JObject fs)) (Some f) =
           map_option feature_json (LDObjectLookup (Some (ep_summaryCounters ctx)) (Some f))))))"
proof (intro conjI impI)
  show "if payload = None then ctx' = ctx
      else ok \<and> queue_inv ctx' \<and> queue_items ctx' = [] \<and> ep_summaryStart ctx' = 0 \<and>
        (\<exists>summary. payload = Some (JArray (queue_items ctx @ summary)) \<and>
           length summary = (if ep_summaryStart ctx \<noteq> 0 then 1 else 0)) \<and>
        ep_summaryCounters ctx' = (if ep_summaryStart ctx \<noteq> 0 then JObject [] else ep_summaryCounters ctx)"
    using LDi_bundleEventPayload_cases[OF assms(1,3)] by auto
next
  assume m: "m = []"
  show r: "ok" "payload = None \<longleftrightarrow> queue_items ctx = [] \<and> LDCollectionGetSize (Some (ep_summaryCounters ctx)) = 0"
    using bundle_ok[OF assms(1,2), of now] assms(3) m by auto
  assume p: "payload \<noteq> None \<and> ep_summaryStart ctx \<noteq> 0"
  then have ne: "\<not> (LDCollectionGetSize (Some (ep_events ctx)) = 0 \<and> LDCollectionGetSize (Some (ep_summaryCounters ctx)) = 0)"
    using assms(3) m by (auto simp: LDi_bundleEventPayload_def cret_def)
  show "\<exists>s fs. payload = Some (JArray (queue_items ctx @ [s])) \<and>
        LDObjectLookup (Some s) (Some ''startDate'') = Some (JNumber (ep_summaryStart ctx)) \<and>
        LDObjectLookup (Some s) (Some ''endDate'') = Some (JNumber now) \<and>
        LDObjectLookup (Some s) (Some ''features'') = Some (JObject fs) \<and>
        (\<forall>f. LDObjectLookup (Some (JObject fs)) (Some f) =
           map_option feature_json (LDObjectLookup (Some (ep_summaryCounters ctx)) (Some f)))"
    using summary_event_reports_counters[OF assms(1,2) _ ne, of now] p assms(3) m by auto
qed

theorem payload_conserves_events_witness:
  "\<exists>ctx s ctx'. summarize_all sample_processor [sample_eval] [] = (Val ctx, []) \<and>
     LDi_bundleEventPayload ctx 9 [] = (Val (True, Some (JArray [s]), ctx'), []) \<and>
     LDObjectLookup (Some s) (Some ''startDate'') = Some (JNumber 7)"
proof -
  let ?ctx = "sample_processor\<lparr>ep_summaryStart := 7, ep_summaryCounters := JObject [(''f'', JObject
     [(''default'', JBool False), (''counters'', JObject [(''unknown'', JObject
       [(''count'', JNumber 1), (''value'', JBool True), (''unknown'', JBool True)])])])]\<rparr>"
  have run: "summarize_all sample_processor [sample_eval] [] = (Val ?ctx, [])"
    by (simp add: sample_eval_def sample_processor_def LDi_summarizeEvent_def summary_context_def
        summary_new_context_def summary_bump_def summary_new_entry_def summary_key_def alloc_ok
        LD_ASSERT_def json_write_def obj_put_def json_set_if_def Let_def LDJSONGetType_def)
  moreover have c: "queue_inv ?ctx" "queue_items ?ctx = []" "summary_ok (ep_summaryCounters ?ctx)"
      "LDCollectionGetSize (Some (ep_summaryCounters ?ctx)) \<noteq> 0" "ep_summaryStart ?ctx = 7"
    by (simp_all add: queue_inv_def queue_items_def sample_processor_def sample_config_def
        config_defaults_def summary_ok_def context_ok_def counters_ok_def entry_ok_def
        LDCollectionGetSize_def)
  moreover obtain payload ctx' where b: "LDi_bundleEventPayload ?ctx 9 [] = (Val (True, payload, ctx'), [])" "payload \<noteq> None"
    using bundle_ok[OF c(1,3), of 9] c(4) by auto
  ultimately show ?thesis using payload_conserves_events[OF c(1,3) b(1)] c by auto
qed

text \<open>When memory runs out while an unknown flag is first counted, the evaluation aborts the
  process instead of reporting failure: the error path queues the feature event although there
  is none.\<close>

theorem summary_failure_aborts:
  assumes "LDObjectLookup (Some (ep_summaryCounters ctx)) (Some f) = None"
  shows "LDi_processEvalEvent ctx user f vt None (Some v) (Some fb) detailed now now' (False # m) =
    (Fault AssertFailed, m)"
  using assms
  by (simp add: LDi_processEvalEvent_def shouldGenerateFeatureEvent_def LDi_summarizeEvent_def
      summary_context_def summary_new_context_def LDNewObject_def LDi_addEvent_def cmd_simps Let_def)

theorem summary_failure_aborts_witness:
  "LDi_processEvalEvent sample_processor sample_user ''f'' LDBool None (Some (CBool True))
     (Some (CBool False)) False 1 1 [False] = (Fault AssertFailed, [])"
  by (rule summary_failure_aborts) (simp add: sample_processor_def)

end
