(* ===== verification/Sse.thy ===== *)
theory Sse
  imports Json
begin

text \<open>
  The server-sent event parser (\<open>c-sdk-common/src/sse.c\<close>). Bytes arrive in chunks of any size;
  complete lines are taken from the buffer one by one, \<open>event:\<close> and \<open>data:\<close> lines build the
  pending event and an empty line hands it to a callback. The callback and its context are
  parameters. The lemmas show that the division into chunks does not matter and that an
  encoded event is delivered as it was.
\<close>

section \<open>State\<close>

text \<open>
  The parser is the buffer and the part that \<open>LDi_processLine\<close> works on. \<open>buffer\<close> and
  \<open>bufferSize\<close> are the list of received bytes, \<open>NULL\<close> and an empty buffer are the same.
\<close>

record 'c sse_pending =
  sse_eventName :: cstring
  sse_eventBody :: cstring
  sse_context :: 'c

record 'c LDSSEParser =
  sse_buffer :: string
  sse_pending :: "'c sse_pending"

type_synonym 'c ld_sse_dispatch = "string \<Rightarrow> string \<Rightarrow> 'c \<Rightarrow> (bool \<times> 'c) cmd"

definition LDSSEParserInitialize :: "'c \<Rightarrow> 'c LDSSEParser" where
  "LDSSEParserInitialize context =
     \<lparr>sse_buffer = [], sse_pending = \<lparr>sse_eventName = None, sse_eventBody = None,
                                      sse_context = context\<rparr>\<rparr>"

text \<open>
  The code sets the three pointers to \<open>NULL\<close> and leaves \<open>bufferSize\<close> as it was; a parser is not used again after
  this, so that buffer and size are one list here and both become empty.
\<close>

definition LDSSEParserDestroy :: "'c LDSSEParser \<Rightarrow> 'c LDSSEParser" where
  "LDSSEParserDestroy parser =
     parser\<lparr>sse_buffer := [],
            sse_pending := (sse_pending parser)\<lparr>sse_eventName := None, sse_eventBody := None\<rparr>\<rparr>"

section \<open>Lines\<close>

abbreviation nl :: char where "nl \<equiv> CHR 0x0A"

text \<open>Skipping a prefix and an optional space.\<close>

definition skip_prefix :: "nat \<Rightarrow> string \<Rightarrow> string" where
  "skip_prefix n line =
     (case drop n line of [] \<Rightarrow> [] | c # cs \<Rightarrow> if c = CHR '' '' then cs else c # cs)"

definition LDi_processLine ::
  "'c ld_sse_dispatch \<Rightarrow> 'c sse_pending \<Rightarrow> string \<Rightarrow> (bool \<times> 'c sse_pending) cmd" where
  "LDi_processLine dispatch parser line =
     (if line \<noteq> [] \<and> hd line = CHR '':'' then cret (True, parser)
      else if line = [] then
        cbind (if sse_eventName parser = None then cret (True, sse_context parser)
               else if sse_eventBody parser = None then cret (True, sse_context parser)
               else dispatch (the (sse_eventName parser)) (the (sse_eventBody parser))
                      (sse_context parser)) (\<lambda>(status, context).
          cret (status, \<lparr>sse_eventName = None, sse_eventBody = None, sse_context = context\<rparr>))
      else if take 5 line = ''data:'' then
        cbind (ctry LDAlloc) (\<lambda>eventBodyTmp.
          if eventBodyTmp = None then cret (False, parser)
          else
            cret (True, parser\<lparr>sse_eventBody := Some
              ((case sse_eventBody parser of None \<Rightarrow> [] | Some body \<Rightarrow> body @ [nl]) @
               skip_prefix 5 line)\<rparr>))
      else if take 6 line = ''event:'' then
        cbind (ctry (LDStrDup (skip_prefix 6 line))) (\<lambda>name.
          cret (name \<noteq> None, parser\<lparr>sse_eventName := name\<rparr>))
      else cret (True, parser))"

section \<open>Chunks\<close>

text \<open>
  The loop over the complete lines of the buffer. \<open>before\<close> are the bytes already consumed, in
  which every newline has become a terminator; they are only dropped when the loop ends.
\<close>

function sse_loop ::
  "'c ld_sse_dispatch \<Rightarrow> string \<Rightarrow> string \<Rightarrow> 'c sse_pending \<Rightarrow> (bool \<times> 'c LDSSEParser) cmd" where
  "sse_loop dispatch before rest parser =
     (if nl \<notin> set rest then cret (True, \<lparr>sse_buffer = rest, sse_pending = parser\<rparr>)
      else
        (let line = takeWhile (\<lambda>c. c \<noteq> nl) rest;
             rest' = drop (Suc (length line)) rest
         in
         cbind (LDi_processLine dispatch parser (c_str line)) (\<lambda>(ok, parser).
           if \<not> ok
           then cret (False, \<lparr>sse_buffer = before @ line @ [nul] @ rest', sse_pending = parser\<rparr>)
           else sse_loop dispatch (before @ line @ [nul]) rest' parser)))"
  by pat_completeness auto

termination
  by (relation "measure (\<lambda>(_, _, rest, _). length rest)") (auto intro!: diff_less dest: length_pos_if_in_set)

definition LDSSEParserProcess ::
  "'c ld_sse_dispatch \<Rightarrow> 'c LDSSEParser \<Rightarrow> string \<Rightarrow> (bool \<times> 'c LDSSEParser) cmd" where
  "LDSSEParserProcess dispatch parser buffer =
     (if buffer = [] then cret (True, parser)
      else
        cbind (ctry LDAlloc) (\<lambda>bufferTmp.
          if bufferTmp = None then cret (False, parser)
          else sse_loop dispatch [] (sse_buffer parser @ buffer) (sse_pending parser)))"

text \<open>Feeding chunks one after the other until one is refused, as the transport does.\<close>

fun sse_feed :: "'c ld_sse_dispatch \<Rightarrow> 'c LDSSEParser \<Rightarrow> string list \<Rightarrow> (bool \<times> 'c LDSSEParser) cmd" where
  "sse_feed dispatch parser [] = cret (True, parser)"
| "sse_feed dispatch parser (chunk # chunks) =
     cbind (LDSSEParserProcess dispatch parser chunk) (\<lambda>(ok, parser).
       if ok then sse_feed dispatch parser chunks else cret (False, parser))"

section \<open>Lemmas: chunks\<close>

declare sse_loop.simps [simp del]

text \<open>
  What a caller can see: the status, the pending event with the callback's context, and the
  buffered bytes unless the stream was refused (the transport then drops the parser).
\<close>

definition sse_obs ::
  "(bool \<times> 'c LDSSEParser) result \<Rightarrow> (bool \<times> 'c sse_pending \<times> string) result" where
  "sse_obs r =
     (case r of
        Val (ok, p) \<Rightarrow> Val (ok, sse_pending p, if ok then sse_buffer p else [])
      | Null \<Rightarrow> Null
      | Fault e \<Rightarrow> Fault e)"

text \<open>The line and what follows it.\<close>

abbreviation first_line :: "string \<Rightarrow> string" where
  "first_line xs \<equiv> takeWhile (\<lambda>c. c \<noteq> nl) xs"

abbreviation after_line :: "string \<Rightarrow> string" where
  "after_line xs \<equiv> drop (Suc (length (first_line xs))) xs"

lemma first_line_append: "nl \<in> set xs \<Longrightarrow> first_line (xs @ ys) = first_line xs"
  by simp

lemma after_line_append: "nl \<in> set xs \<Longrightarrow> after_line (xs @ ys) = after_line xs @ ys"
  by (induction xs) auto

lemma line_fits: "nl \<in> set xs \<Longrightarrow> Suc (length (first_line xs)) \<le> length xs"
  by (induction xs) auto

lemma sse_obs_simps [simp]:
  "sse_obs (Val (False, p)) = Val (False, sse_pending p, [])"
  "sse_obs (Val (True, p)) = Val (True, sse_pending p, sse_buffer p)"
  "sse_obs Null = Null"
  "sse_obs (Fault e) = Fault e"
  by (simp_all add: sse_obs_def)

text \<open>The contract of a callback: with memory available it does not run out of it.\<close>

locale sse_client =
  fixes dispatch :: "'c ld_sse_dispatch"
  assumes dispatch_mem: "snd (dispatch name body context []) = []"
begin

lemma processLine_mem: "snd (LDi_processLine dispatch p l []) = []"
  using dispatch_mem[of "the (sse_eventName p)" "the (sse_eventBody p)" "sse_context p"]
  by (auto simp: LDi_processLine_def cbind_def ctry_def cret_def LDStrDup_def
      split: prod.splits result.splits)

text \<open>One turn of the loop.\<close>

lemma sse_loop_last:
  "nl \<notin> set rest \<Longrightarrow>
   sse_loop dispatch before rest p m = (Val (True, \<lparr>sse_buffer = rest, sse_pending = p\<rparr>), m)"
  by (subst sse_loop.simps) (simp add: cret_def)

lemma sse_loop_line:
  assumes "nl \<in> set rest"
  shows "fst (sse_loop dispatch before rest p []) =
    (case fst (LDi_processLine dispatch p (c_str (first_line rest)) []) of
       Val (ok, p') \<Rightarrow>
         (if ok then fst (sse_loop dispatch (before @ first_line rest @ [nul]) (after_line rest) p' [])
          else Val (False, \<lparr>sse_buffer = before @ first_line rest @ [nul] @ after_line rest,
                             sse_pending = p'\<rparr>))
     | Null \<Rightarrow> Null | Fault e \<Rightarrow> Fault e)"
  using assms processLine_mem[of p "c_str (first_line rest)"]
  by (subst sse_loop.simps)
    (auto simp: Let_def cbind_def cret_def split: prod.splits result.splits)

lemma sse_loop_before:
  "sse_obs (fst (sse_loop dispatch before rest p [])) = sse_obs (fst (sse_loop dispatch before' rest p []))"
proof (induction "length rest" arbitrary: before before' rest p rule: less_induct)
  case less
  show ?case
  proof (cases "nl \<in> set rest")
    case True
    then have "length (after_line rest) < length rest"
      by (auto intro!: diff_less dest: length_pos_if_in_set)
    note IH = less[OF this]
    show ?thesis
    proof (cases "fst (LDi_processLine dispatch p (c_str (first_line rest)) [])")
      case (Val r)
      then obtain ok q where "fst (LDi_processLine dispatch p (c_str (first_line rest)) []) = Val (ok, q)"
        by (cases r) simp
      then show ?thesis
        unfolding sse_loop_line[OF True] by (cases ok) (simp_all, rule IH)
    qed (simp_all add: sse_loop_line[OF True])
  next
    case False
    then show ?thesis by (simp add: sse_loop_last)
  qed
qed

lemma sse_loop_append:
  "sse_obs (fst (sse_loop dispatch before (xs @ ys) p [])) =
   (case fst (sse_loop dispatch before xs p []) of
      Val (True, q) \<Rightarrow> sse_obs (fst (sse_loop dispatch [] (sse_buffer q @ ys) (sse_pending q) []))
    | r \<Rightarrow> sse_obs r)"
proof (induction "length xs" arbitrary: before xs p rule: less_induct)
  case less
  show ?case
  proof (cases "nl \<in> set xs")
    case True
    then have "length (after_line xs) < length xs"
      by (auto intro!: diff_less dest: length_pos_if_in_set)
    note IH = less[OF this]
    from True have nl': "nl \<in> set (xs @ ys)" by simp
    show ?thesis
    proof (cases "fst (LDi_processLine dispatch p (c_str (first_line xs)) [])")
      case (Val r)
      then obtain ok q where "fst (LDi_processLine dispatch p (c_str (first_line xs)) []) = Val (ok, q)"
        by (cases r) simp
      then show ?thesis
        unfolding sse_loop_line[OF nl'] sse_loop_line[OF True] after_line_append[OF True]
          first_line_append[OF True]
        using IH line_fits[OF True] by (cases ok) simp_all
    qed (simp_all add: sse_loop_line[OF nl'] sse_loop_line[OF True] first_line_append[OF True])
  next
    case False
    then show ?thesis
      using sse_loop_before by (simp add: sse_loop_last)
  qed
qed

lemma sse_loop_mem: "snd (sse_loop dispatch before rest p []) = []"
proof (induction "length rest" arbitrary: before rest p rule: less_induct)
  case less
  show ?case
  proof (cases "nl \<in> set rest")
    case True
    then have "length (after_line rest) < length rest"
      by (auto intro!: diff_less dest: length_pos_if_in_set)
    from less[OF this] show ?thesis
      using True processLine_mem[of p "c_str (first_line rest)"]
      by (subst sse_loop.simps)
        (auto simp: Let_def cbind_def cret_def split: prod.splits result.splits)
  qed (simp add: sse_loop_last)
qed

lemma process_mem: "snd (LDSSEParserProcess dispatch p a []) = []"
  by (simp add: LDSSEParserProcess_def cbind_def ctry_def cret_def sse_loop_mem)

lemma feed_mem: "snd (sse_feed dispatch p chunks []) = []"
proof (induction chunks arbitrary: p)
  case (Cons a chunks)
  then show ?case using process_mem[of p a] by (auto simp: cbind_def cret_def split: prod.splits result.splits)
qed (simp add: cret_def)

lemma process_eq:
  "a \<noteq> [] \<Longrightarrow> LDSSEParserProcess dispatch p a [] =
     sse_loop dispatch [] (sse_buffer p @ a) (sse_pending p) []"
  by (simp add: LDSSEParserProcess_def cbind_def ctry_def)

text \<open>Two chunks have the effect of one.\<close>

lemma process_append:
  "sse_obs (fst (LDSSEParserProcess dispatch p (a @ b) [])) =
   (case fst (LDSSEParserProcess dispatch p a []) of
      Val (True, q) \<Rightarrow> sse_obs (fst (LDSSEParserProcess dispatch q b []))
    | r \<Rightarrow> sse_obs r)"
proof (cases "a = []")
  case True
  then show ?thesis by (simp add: LDSSEParserProcess_def[of _ _ "[]"] cret_def)
next
  case a: False
  show ?thesis
  proof (cases "b = []")
    case True
    then show ?thesis
      by (auto simp: LDSSEParserProcess_def[of _ _ "[]"] cret_def split: result.splits prod.splits bool.splits)
  next
    case False
    with a sse_loop_append[of "[]" "sse_buffer p @ a" b "sse_pending p"] show ?thesis
      by (simp add: process_eq split: result.splits prod.splits bool.splits)
  qed
qed

lemma feed_concat:
  "sse_obs (fst (sse_feed dispatch p chunks [])) = sse_obs (fst (LDSSEParserProcess dispatch p (concat chunks) []))"
proof (induction chunks arbitrary: p)
  case Nil
  then show ?case by (simp add: LDSSEParserProcess_def cret_def)
next
  case (Cons a chunks)
  obtain r where r: "LDSSEParserProcess dispatch p a [] = (r, [])"
    using process_mem[of p a] by (metis prod.collapse)
  show ?case
    unfolding concat.simps process_append
    by (cases r) (auto simp: r cbind_def Cons.IH cret_def split: prod.splits bool.splits)
qed

end

section \<open>Lemmas: delivery\<close>

text \<open>
  The wire format of one event: the name, the lines of the body and an empty line. A body is
  any text without a zero byte.
\<close>

fun split_lines :: "string \<Rightarrow> string list" where
  "split_lines [] = [[]]"
| "split_lines (c # cs) =
     (if c = nl then [] # split_lines cs
      else (case split_lines cs of [] \<Rightarrow> [[c]] | l # ls \<Rightarrow> (c # l) # ls))"

definition encode_event :: "string \<Rightarrow> string \<Rightarrow> string" where
  "encode_event name body =
     ''event: '' @ name @ [nl] @
     concat (map (\<lambda>l. ''data: '' @ l @ [nl]) (split_lines body)) @ [nl]"

definition append_line :: "cstring \<Rightarrow> string \<Rightarrow> cstring" where
  "append_line body l = Some ((case body of None \<Rightarrow> [] | Some b \<Rightarrow> b @ [nl]) @ l)"

lemma append_line_simps [simp]:
  "append_line None l = Some l" "append_line (Some b) l = Some (b @ [nl] @ l)"
  by (simp_all add: append_line_def)

lemma split_lines_Nil [simp]: "split_lines s \<noteq> []"
  by (induction s) (auto split: list.splits)

lemma split_lines_chars:
  "l \<in> set (split_lines s) \<Longrightarrow> nl \<notin> set l \<and> set l \<subseteq> set s"
proof (induction s arbitrary: l)
  case (Cons c cs)
  obtain l' ls where ls: "split_lines cs = l' # ls" by (cases "split_lines cs") auto
  with Cons show ?case by (fastforce split: if_splits)
qed simp

lemma foldl_append_line_prefix:
  "foldl append_line (Some (p @ b)) ls = map_option ((@) p) (foldl append_line (Some b) ls)"
proof (induction ls arbitrary: b)
  case (Cons l ls)
  from Cons[of "b @ [nl] @ l"] show ?case by simp
qed simp

lemma join_split_lines: "foldl append_line None (split_lines s) = Some s"
proof (induction s)
  case (Cons c cs)
  obtain l ls where ls: "split_lines cs = l # ls" by (cases "split_lines cs") auto
  with Cons have IH: "foldl append_line (Some l) ls = Some cs" by simp
  show ?case
    using IH foldl_append_line_prefix[of "[c]" l ls] foldl_append_line_prefix[of "[nl]" l ls] ls
    by auto
qed simp

context sse_client
begin

primrec dispatch_all :: "(string \<times> string) list \<Rightarrow> 'c \<Rightarrow> 'c \<Rightarrow> bool" where
  "dispatch_all [] c c' = (c' = c)"
| "dispatch_all (ev # evs) c c' =
     (\<exists>c1. dispatch (fst ev) (snd ev) c [] = (Val (True, c1), []) \<and> dispatch_all evs c1 c')"

lemma loop_step:
  assumes "nl \<notin> set line" and "nul \<notin> set line"
    and "LDi_processLine dispatch p line [] = (Val (True, q), [])"
  shows "\<exists>before'. fst (sse_loop dispatch before (line @ nl # rest) p []) =
    fst (sse_loop dispatch before' rest q [])"
proof -
  have in_set: "nl \<in> set (line @ nl # rest)" by simp
  have "first_line (line @ nl # rest) = line" using assms(1) by (induction line) auto
  with assms(3) show ?thesis
    unfolding sse_loop_line[OF in_set] by (auto simp: c_str_id[OF assms(2)])
qed

lemma processLine_event:
  "LDi_processLine dispatch p (''event: '' @ name) [] = (Val (True, p\<lparr>sse_eventName := Some name\<rparr>), [])"
  by (simp add: LDi_processLine_def skip_prefix_def cbind_def ctry_def cret_def LDStrDup_def)

lemma processLine_data:
  "LDi_processLine dispatch p (''data: '' @ l) [] =
     (Val (True, p\<lparr>sse_eventBody := append_line (sse_eventBody p) l\<rparr>), [])"
  by (simp add: LDi_processLine_def skip_prefix_def cbind_def ctry_def cret_def append_line_def)

lemma loop_data:
  assumes "\<And>l. l \<in> set ls \<Longrightarrow> nl \<notin> set l \<and> nul \<notin> set l"
  shows "\<exists>before'. fst (sse_loop dispatch before (concat (map (\<lambda>l. ''data: '' @ l @ [nl]) ls) @ rest) p []) =
    fst (sse_loop dispatch before' rest (p\<lparr>sse_eventBody := foldl append_line (sse_eventBody p) ls\<rparr>) [])"
  using assms
proof (induction ls arbitrary: before p)
  case Nil
  then show ?case by auto
next
  case (Cons l ls)
  let ?rest = "concat (map (\<lambda>l. ''data: '' @ l @ [nl]) ls) @ rest"
  let ?p = "p\<lparr>sse_eventBody := append_line (sse_eventBody p) l\<rparr>"
  obtain b1 where "fst (sse_loop dispatch before ((''data: '' @ l) @ nl # ?rest) p []) =
      fst (sse_loop dispatch b1 ?rest ?p [])"
    using loop_step[OF _ _ processLine_data, of l] Cons.prems[of l] by fastforce
  moreover obtain b2 where "fst (sse_loop dispatch b1 ?rest ?p []) = fst (sse_loop dispatch b2 rest
      (?p\<lparr>sse_eventBody := foldl append_line (sse_eventBody ?p) ls\<rparr>) [])"
    using Cons.IH[of b1 ?p] Cons.prems by auto
  ultimately show ?case by auto
qed

text \<open>Whatever was pending is closed by the callback's answer to the new event.\<close>

lemma deliver_event:
  assumes name: "nl \<notin> set name" "nul \<notin> set name" and body: "nul \<notin> set body"
    and fresh: "sse_eventBody p = None"
    and d: "dispatch name body (sse_context p) [] = (Val (True, c'), [])"
  shows "sse_obs (fst (sse_loop dispatch before (encode_event name body @ rest) p [])) =
    sse_obs (fst (sse_loop dispatch [] rest
      \<lparr>sse_eventName = None, sse_eventBody = None, sse_context = c'\<rparr> []))"
proof -
  let ?data = "concat (map (\<lambda>l. ''data: '' @ l @ [nl]) (split_lines body))"
  let ?p1 = "p\<lparr>sse_eventName := Some name\<rparr>"
  let ?p2 = "?p1\<lparr>sse_eventBody := Some body\<rparr>"
  obtain b1 where 1: "fst (sse_loop dispatch before ((''event: '' @ name) @ nl # (?data @ nl # rest)) p []) =
      fst (sse_loop dispatch b1 (?data @ nl # rest) ?p1 [])"
    using loop_step[OF _ _ processLine_event, of name] name by fastforce
  have lines: "\<And>l. l \<in> set (split_lines body) \<Longrightarrow> nl \<notin> set l \<and> nul \<notin> set l"
    using split_lines_chars body by blast
  obtain b2 where 2: "fst (sse_loop dispatch b1 (?data @ nl # rest) ?p1 []) =
      fst (sse_loop dispatch b2 (nl # rest) ?p2 [])"
    using loop_data[of "split_lines body" b1 "nl # rest" ?p1, OF lines] fresh by (auto simp: join_split_lines)
  have "LDi_processLine dispatch ?p2 [] [] =
      (Val (True, \<lparr>sse_eventName = None, sse_eventBody = None, sse_context = c'\<rparr>), [])"
    using d by (simp add: LDi_processLine_def cbind_def cret_def)
  from loop_step[OF _ _ this, of b2 rest] obtain b3 where
    3: "fst (sse_loop dispatch b2 (nl # rest) ?p2 []) = fst (sse_loop dispatch b3 rest
      \<lparr>sse_eventName = None, sse_eventBody = None, sse_context = c'\<rparr> [])"
    by auto
  have "encode_event name body @ rest = (''event: '' @ name) @ nl # (?data @ nl # rest)"
    by (simp add: encode_event_def)
  then show ?thesis using 1 2 3 sse_loop_before by metis
qed

text \<open>A sequence of encoded events, each answered by the callback.\<close>

lemma deliver_events:
  assumes "list_all (\<lambda>(name, body). nl \<notin> set name \<and> nul \<notin> set name \<and> nul \<notin> set body) evs"
    and "sse_eventName p = None" and "sse_eventBody p = None"
    and "dispatch_all evs (sse_context p) c'"
  shows "sse_obs (fst (sse_loop dispatch before (concat (map (\<lambda>(name, body). encode_event name body) evs)) p [])) =
    Val (True, p\<lparr>sse_context := c'\<rparr>, [])"
  using assms
proof (induction evs arbitrary: p before)
  case Nil
  then have "c' = sse_context p" by simp
  then show ?case by (simp add: sse_loop.simps[of _ before "[]"] cret_def)
next
  case (Cons ev evs)
  obtain name body where ev: "ev = (name, body)" by fastforce
  obtain c1 where d: "dispatch name body (sse_context p) [] = (Val (True, c1), [])" "dispatch_all evs c1 c'"
    using Cons.prems(4) ev by auto
  let ?p = "\<lparr>sse_eventName = None, sse_eventBody = None, sse_context = c1\<rparr>"
  have "sse_obs (fst (sse_loop dispatch [] (concat (map (\<lambda>(name, body). encode_event name body) evs)) ?p [])) =
      Val (True, ?p\<lparr>sse_context := c'\<rparr>, [])"
    by (rule Cons.IH) (use Cons.prems d in auto)
  moreover have "?p\<lparr>sse_context := c'\<rparr> = p\<lparr>sse_context := c'\<rparr>" using Cons.prems by simp
  ultimately show ?case
    using deliver_event[of name body p c1 before, OF _ _ _ _ d(1)] Cons.prems ev by simp
qed

text \<open>Through the whole parser, in whatever chunks the bytes arrive.\<close>

lemma feed_events:
  assumes chars: "list_all (\<lambda>(name, body). nl \<notin> set name \<and> nul \<notin> set name \<and> nul \<notin> set body) evs"
    and d: "dispatch_all evs c c'"
    and chunks: "concat chunks = concat (map (\<lambda>(name, body). encode_event name body) evs)"
  shows "sse_feed dispatch (LDSSEParserInitialize c) chunks [] = (Val (True, LDSSEParserInitialize c'), [])"
proof -
  let ?p = "LDSSEParserInitialize c"
  have "sse_obs (fst (LDSSEParserProcess dispatch ?p (concat chunks) [])) =
      Val (True, sse_pending (LDSSEParserInitialize c'), [])"
  proof (cases "evs = []")
    case True
    with d show ?thesis unfolding chunks
      by (simp add: LDSSEParserProcess_def cret_def LDSSEParserInitialize_def)
  next
    case False
    then have "concat chunks \<noteq> []" unfolding chunks by (cases evs) (auto simp: encode_event_def)
    with deliver_events[of evs "sse_pending ?p" c' "[]", OF chars] d show ?thesis
      by (simp add: process_eq chunks LDSSEParserInitialize_def)
  qed
  then have "fst (sse_feed dispatch ?p chunks []) = Val (True, LDSSEParserInitialize c')"
    unfolding feed_concat[symmetric]
    by (auto simp: sse_obs_def LDSSEParserInitialize_def split: result.splits prod.splits if_splits)
  with feed_mem[of ?p chunks] show ?thesis by (metis prod.collapse)
qed

end

end
