(* ===== verification/Streaming.thy ===== *)
theory Streaming
  imports Events Sse
begin

text \<open>
  The client object as far as the background threads see it, and the code those threads run
  (\<open>src/ldthreads.c\<close>, \<open>src/socket.c\<close>, \<open>LDi_updatestatus\<close> of \<open>src/client.c\<close>): the handlers of the
  streaming events, the decisions of one turn of the polling, streaming and event sending
  loops, and the back-off. A turn is a function of what the network answered; waiting on
  condition variables and the network itself are outside. \<open>callback\<close> tells whether the application set a status callback, and its calls
  are logged in the client.
\<close>

section \<open>The socket of the stream\<close>

datatype socket_status = UNINITIALIZED | OPEN | CLOSED

record ld_socket_state =
  sock_status :: socket_status
  sock_fd :: int

definition LDi_initSocket :: "ld_socket_state \<Rightarrow> ld_socket_state" where
  "LDi_initSocket s = s\<lparr>sock_status := UNINITIALIZED\<rparr>"

definition LDi_socketLoad :: "ld_socket_state \<Rightarrow> bool \<times> int" where
  "LDi_socketLoad s = (sock_status s = OPEN, sock_fd s)"

definition LDi_socketStore :: "ld_socket_state \<Rightarrow> int \<Rightarrow> ld_socket_state" where
  "LDi_socketStore s fd = s\<lparr>sock_fd := fd, sock_status := OPEN\<rparr>"

definition LDi_socketClose :: "ld_socket_state \<Rightarrow> ld_socket_state" where
  "LDi_socketClose s = (if sock_status s = OPEN then s\<lparr>sock_status := CLOSED\<rparr> else s)"

definition LDi_socketClosed :: "ld_socket_state \<Rightarrow> bool" where
  "LDi_socketClosed s = (sock_status s = CLOSED)"

section \<open>The client\<close>

datatype LDStatus =
    LDStatusInitializing | LDStatusInitialized | LDStatusFailed | LDStatusShuttingdown
  | LDStatusShutdown

record LDClient =
  cl_mobileKey :: cstring
  cl_offline :: bool
  cl_background :: bool
  cl_status :: LDStatus
  cl_shouldstopstreaming :: bool
  cl_streamhandle :: ld_socket_state
  cl_eventProcessor :: EventProcessor
  cl_world :: world
  cl_statusCalls :: "LDStatus list"
  cl_cancelled :: "int list"

text \<open>\<open>cl_world\<close> holds the store, \<open>cl_cancelled\<close> logs the sockets given to \<open>LDi_cancelread\<close>.\<close>

text \<open>
  The code releases the lock of the client around the callback and takes it again, so that the callback
  may call the SDK. The locks are not part of the state; the calls of the callback are logged.
\<close>

definition LDi_updatestatus :: "bool \<Rightarrow> LDClient \<Rightarrow> LDStatus \<Rightarrow> LDClient" where
  "LDi_updatestatus callback client status =
     (if cl_status client \<noteq> status
      then client\<lparr>cl_status := status,
                  cl_statusCalls := cl_statusCalls client @ (if callback then [status] else [])\<rparr>
      else client)"

definition LDi_startstopstreaming :: "LDClient \<Rightarrow> bool \<Rightarrow> LDClient" where
  "LDi_startstopstreaming client stopstreaming = client\<lparr>cl_shouldstopstreaming := stopstreaming\<rparr>"

definition LDi_updatehandle :: "LDClient \<Rightarrow> int \<Rightarrow> LDClient" where
  "LDi_updatehandle client handle =
     client\<lparr>cl_streamhandle := LDi_socketStore (cl_streamhandle client) handle\<rparr>"

definition LDi_reinitializeconnection :: "LDClient \<Rightarrow> LDClient" where
  "LDi_reinitializeconnection client =
     (case LDi_socketLoad (cl_streamhandle client) of
        (socketOpen, socketHandle) \<Rightarrow>
          (if socketOpen
           then client\<lparr>cl_cancelled := cl_cancelled client @ [socketHandle],
                       cl_streamhandle := LDi_socketClose (cl_streamhandle client)\<rparr>
           else client))"

section \<open>Streaming events\<close>

text \<open>The children are visited \<open>flagCount\<close> times, the size as 32 bits.\<close>

fun put_parse_loop :: "nat \<Rightarrow> json_iter \<Rightarrow> LDFlag list cmd" where
  "put_parse_loop 0 payloadIter = cret []"
| "put_parse_loop (Suc i) [] = cfault AssertFailed"
| "put_parse_loop (Suc i) ((key, iter) # payloadIter) =
     cbind (LDi_flag_parse key iter) (\<lambda>flag.
     cbind (put_parse_loop i payloadIter) (\<lambda>flags. cret (flag # flags)))"

definition LDi_onstreameventput ::
  "bool \<Rightarrow> LDClient \<Rightarrow> string \<Rightarrow> (bool \<times> LDClient) cmd" where
  "LDi_onstreameventput callback client data =
     cbind (ctry (LDJSONDeserialize (Some data))) (\<lambda>payload.
       if payload = None then cret (False, client)
       else if LDJSONGetType payload \<noteq> LDObject then cret (False, client)
       else
         cbind (ctry LDAlloc) (\<lambda>a.
           if a = None then cret (False, client)
           else
             cbind (ctry (put_parse_loop (unat (LDCollectionGetSize payload)) (LDGetIter payload)))
               (\<lambda>r. case r of
                  None \<Rightarrow> cret (False, client)
                | Some flags \<Rightarrow>
                    cbind (LDi_storePut (cl_world client) flags) (\<lambda>(storeResult, w).
                      cret (storeResult,
                        LDi_updatestatus callback (client\<lparr>cl_world := w\<rparr>)
                          (if storeResult then LDStatusInitialized else LDStatusFailed))))))"

definition LDi_onstreameventpatch ::
  "LDClient \<Rightarrow> string \<Rightarrow> LDClient cmd" where
  "LDi_onstreameventpatch client data =
     cbind (ctry (LDJSONDeserialize (Some data))) (\<lambda>payload.
       case payload of
         None \<Rightarrow> cret client
       | Some p \<Rightarrow>
           cbind (ctry (LDi_flag_parse None p)) (\<lambda>r.
             case r of
               None \<Rightarrow> cret client
             | Some flag \<Rightarrow>
                 cbind (LDi_storeUpsert (cl_world client) flag) (\<lambda>(_, w).
                   cret (client\<lparr>cl_world := w\<rparr>))))"

text \<open>
  The version of a deletion is cast to \<open>unsigned int\<close>: out of its range the cast is undefined.
  \<open>garbage\<close> is the uninitialized field of the tombstone (see \<open>LDi_storeDelete\<close>).
\<close>

definition LDi_onstreameventdelete ::
  "int \<Rightarrow> LDClient \<Rightarrow> string \<Rightarrow> LDClient cmd" where
  "LDi_onstreameventdelete garbage client data =
     cbind (ctry (LDJSONDeserialize (Some data))) (\<lambda>payload.
       if payload = None then cret client
       else if LDJSONGetType payload \<noteq> LDObject then cret client
       else
         (let tmp = LDObjectLookup payload (Some ''version'') in
          if tmp = None then cret client
          else if LDJSONGetType tmp \<noteq> LDNumber then cret client
          else
            cbind (clift (double_to_uint (LDGetNumber tmp))) (\<lambda>version.
              let tmp = LDObjectLookup payload (Some ''key'') in
              if tmp = None then cret client
              else if LDJSONGetType tmp \<noteq> LDText then cret client
              else
                cbind (LDi_storeDelete garbage (cl_world client) (the (LDGetText tmp)) version)
                  (\<lambda>(_, w). cret (client\<lparr>cl_world := w\<rparr>)))))"

text \<open>The callback of the event parser.\<close>

definition LDi_onEvent ::
  "bool \<Rightarrow> int \<Rightarrow> LDClient ld_sse_dispatch" where
  "LDi_onEvent callback garbage eventName eventBuffer client =
     (if strcmp eventName ''put'' = 0
      then cbind (LDi_onstreameventput callback client eventBuffer)
             (\<lambda>(_, client). cret (True, client))
      else if strcmp eventName ''patch'' = 0
      then cbind (LDi_onstreameventpatch client eventBuffer)
             (\<lambda>client. cret (True, client))
      else if strcmp eventName ''delete'' = 0
      then cbind (LDi_onstreameventdelete garbage client eventBuffer)
             (\<lambda>client. cret (True, client))
      else cret (True, client))"

section \<open>Polling\<close>

text \<open>What one turn of the polling loop decides under the lock: to end, or how long to wait
  and whether to skip the request.\<close>

definition poll_plan :: "LDConfig \<Rightarrow> LDClient \<Rightarrow> (int \<times> bool) option" where
  "poll_plan config client =
     (if cl_status client = LDStatusFailed \<or> cl_status client = LDStatusShuttingdown then None
      else
        (let skippolling =
               cl_offline client \<or>
               (if cl_background client then disableBackgroundUpdating config else streaming config);
             ms = (if cl_background client then backgroundPollingIntervalMillis config
                   else pollingIntervalMillis config)
         in Some (if \<not> skippolling \<and> cl_status client = LDStatusInitializing then 0 else ms,
                  skippolling)))"

text \<open>
  The rest of the turn, after the request: its status code and its data. The status of the client was
  tested before the request and is not tested again.
\<close>

definition poll_finish ::
  "bool \<Rightarrow> LDClient \<Rightarrow> int \<Rightarrow> cstring \<Rightarrow> LDClient cmd" where
  "poll_finish callback client response data =
     (if response = 200 then
        (case data of
           None \<Rightarrow> cret client
         | Some d \<Rightarrow>
             cbind (LDi_onstreameventput callback client d) (\<lambda>(_, client). cret client))
      else if response = 401 \<or> response = 403
      then cret (LDi_updatestatus callback client LDStatusFailed)
      else cret client)"

section \<open>Streaming\<close>

text \<open>\<open>pow\<close> may overflow to infinity, which the cap removes like any other large value.\<close>

definition LDi_calculateStreamDelay :: "double \<Rightarrow> u32 \<Rightarrow> u32 \<Rightarrow> double" where
  "LDi_calculateStreamDelay rand_max rng retries =
     (if retries = 0 then 0
      else if retries = 1 then 1000
      else
        (let backoff = 1000 * 2 ^ unat retries;
             backoff = (if backoff > 30 * 1000 then 30 * 1000 else backoff);
             backoff = backoff / 2
         in backoff + LDi_normalize (of_nat (unat rng)) 0 rand_max 0 backoff))"

text \<open>One turn of the streaming loop before the connection: end, pause or connect.\<close>

datatype stream_plan = StreamExit | StreamPause | StreamConnect

definition stream_plan :: "LDConfig \<Rightarrow> LDClient \<Rightarrow> stream_plan" where
  "stream_plan config client =
     (if cl_status client = LDStatusFailed \<or> cl_status client = LDStatusShuttingdown
      then StreamExit
      else if \<not> streaming config \<or> cl_offline client \<or> cl_background client then StreamPause
      else StreamConnect)"

text \<open>
  The end of the turn, when the stream has ended with a response code. The result is the
  client and the next value of \<open>retries\<close>, or none if the thread ends. 6 is
  \<open>CURLE_COULDNT_RESOLVE_HOST\<close>; \<open>late\<close> tells whether more than 60 seconds have passed. \<open>retries\<close> is an \<open>int\<close> in the
  code; the waits between two attempts keep it far below its limit, and it is unbounded here.
\<close>

definition stream_finish ::
  "bool \<Rightarrow> LDClient \<Rightarrow> int \<Rightarrow> bool \<Rightarrow> int \<Rightarrow> LDClient \<times> int option" where
  "stream_finish callback client response late retries =
     (if response \<noteq> 6 \<and> 400 \<le> response \<and> response < 500 \<and>
         (response = 401 \<or> response = 403 \<or>
          (response \<noteq> 400 \<and> response \<noteq> 408 \<and> response \<noteq> 429))
      then (LDi_updatestatus callback client LDStatusFailed, None)
      else if LDi_socketClosed (cl_streamhandle client) then (client, Some 0)
      else if response = 200 then (client, Some (if late then 0 else retries + 1))
      else (client, Some (retries + 1)))"

section \<open>Sending events\<close>

text \<open>
  The inner loop of \<open>LDi_bgeventsender\<close>: \<open>response i\<close> is the status code of the \<open>i\<close>th attempt. The
  result is the number of attempts, whether sending failed and whether the key was refused.
\<close>

function send_attempts :: "(nat \<Rightarrow> int) \<Rightarrow> nat \<Rightarrow> bool \<Rightarrow> nat \<times> bool \<times> bool" where
  "send_attempts response i sendFailed =
     (if response i = 200 \<or> response i = 202 then (Suc i, False, False)
      else if sendFailed then (Suc i, True, False)
      else if response i = 401 \<or> response i = 403 then (Suc i, True, True)
      else send_attempts response (Suc i) True)"
  by pat_completeness auto

termination
  by (relation "measure (\<lambda>(_, _, sendFailed). if sendFailed then 0 else 1)") auto

declare send_attempts.simps [simp del]

text \<open>
  One turn of the event loop after its wait, up to the text of the batch: the client and, unless
  there is nothing to send, the batch and its identifier.
\<close>

definition sender_batch ::
  "LDClient \<Rightarrow> double \<Rightarrow> (nat \<Rightarrow> u32 option) \<Rightarrow> (LDClient \<times> (string \<times> string) option) cmd" where
  "sender_batch client now rng =
     (if cl_offline client then cret (client, None)
      else
        (case LDi_UUIDv4 rng of
           (False, _) \<Rightarrow> cret (client, None)
         | (True, payloadId) \<Rightarrow>
             cbind (LDi_bundleEventPayload (cl_eventProcessor client) now) (\<lambda>(ok, payload, ep).
               let client = client\<lparr>cl_eventProcessor := ep\<rparr> in
               if \<not> ok then cret (client, None)
               else
                 (case payload of
                    None \<Rightarrow> cret (client, None)
                  | Some payloadJSON \<Rightarrow>
                      cbind (ctry (LDJSONSerialize payload)) (\<lambda>r.
                        case r of
                          None \<Rightarrow> cret (client, None)
                        | Some payloadSerialized \<Rightarrow> cret (client, Some (payloadSerialized, payloadId)))))))"

text \<open>
  The whole turn. The result is
  the client, the batch that was handed to the network with its identifier and the number of
  attempts, if any, and whether this was the final flush.
\<close>

definition sender_turn ::
  "bool \<Rightarrow> LDClient \<Rightarrow> double \<Rightarrow> (nat \<Rightarrow> u32 option) \<Rightarrow> (nat \<Rightarrow> int) \<Rightarrow>
   (LDClient \<times> (string \<times> string \<times> nat) option \<times> bool) cmd" where
  "sender_turn callback client now rng response =
     (let finalflush = (cl_status client = LDStatusShuttingdown) in
      cbind (sender_batch client now rng) (\<lambda>(client, batch).
        case batch of
          None \<Rightarrow> cret (client, None, finalflush)
        | Some (payloadSerialized, payloadId) \<Rightarrow>
            (case send_attempts response 0 False of
               (attempts, _, refused) \<Rightarrow>
                 cret (if refused then LDi_updatestatus callback client LDStatusFailed else client,
                       Some (payloadSerialized, payloadId, attempts), finalflush))))"

definition sender_exits :: "LDClient \<Rightarrow> bool \<Rightarrow> bool" where
  "sender_exits client finalflush = (cl_status client = LDStatusFailed \<or> finalflush)"

section \<open>Lemmas: memory\<close>

lemma mem_ok_flag_parse [intro!]: "mem_ok (LDi_flag_parse key raw)"
  unfolding LDi_flag_parse_def flag_parse_key_def flag_parse_value_def flag_parse_version_def
    flag_parse_deleted_def flag_parse_opt_int_def flag_parse_reason_def
  by auto

lemma mem_ok_nodes [intro!]:
  "mem_ok (load_node w a)" "mem_ok (LDi_destroyStoreNode a w)" "mem_ok (LDi_rc_decrement a w)"
  "mem_ok (HASH_FIND_STR flags key w)" "mem_ok (LDi_allocateStoreNode flag w)"
  unfolding load_node_def LDi_destroyStoreNode_def LDi_rc_decrement_def HASH_FIND_STR_def
    LDi_allocateStoreNode_def Let_def
  by auto

lemma mem_ok_storeFreeHash [intro!]: "mem_ok (LDi_storeFreeHash xs w)"
  by (induction xs w rule: LDi_storeFreeHash.induct) auto

lemma mem_ok_store_put_loop [intro!]: "mem_ok (store_put_loop flags failed hash w)"
  by (induction flags arbitrary: failed hash w) auto

lemma mem_ok_fire_all [intro!]: "mem_ok (fire_all xs w)"
  by (induction xs arbitrary: w) auto

lemma mem_ok_store [intro!]:
  "mem_ok (LDi_storePut w flags)" "mem_ok (LDi_storeUpsert w flag)"
  "mem_ok (LDi_storeDelete garbage w key version)"
  unfolding LDi_storePut_def LDi_storeUpsert_def store_upsert_switch_def LDi_storeDelete_def Let_def
  by (auto split: versionStatus.splits)

lemma mem_ok_put_parse_loop [intro!]: "mem_ok (put_parse_loop n it)"
  by (induction n it rule: put_parse_loop.induct) auto

lemma mem_ok_onEvent: "mem_ok (LDi_onEvent callback garbage name body client)"
  unfolding LDi_onEvent_def LDi_onstreameventput_def LDi_onstreameventpatch_def
    LDi_onstreameventdelete_def Let_def
  by auto

text \<open>The handlers are a client of the event parser.\<close>

interpretation onevent: sse_client "LDi_onEvent callback garbage" for callback garbage
  by unfold_locales (use mem_ok_onEvent in \<open>simp add: mem_ok_def\<close>)

section \<open>Lemmas: delays and attempts\<close>

lemma LDi_calculateStreamDelay_bounds:
  assumes "0 < rand_max" and "of_nat (unat rng) \<le> rand_max"
  shows "0 \<le> LDi_calculateStreamDelay rand_max rng retries"
    and "LDi_calculateStreamDelay rand_max rng retries \<le> 30000"
    and "2 \<le> unat retries \<Longrightarrow> 2000 \<le> LDi_calculateStreamDelay rand_max rng retries"
proof -
  define full :: double where "full = (if 1000 * 2 ^ unat retries > (30000 :: double) then 30000 else 1000 * 2 ^ unat retries)"
  have full: "0 \<le> full" "full \<le> 30000" by (auto simp: full_def)
  define n :: double where "n = of_nat (unat rng)"
  have n: "0 \<le> n" "n \<le> rand_max"
    using assms(2) unfolding n_def by (simp_all del: of_nat_unat)
  have norm: "0 \<le> LDi_normalize n 0 rand_max 0 (full / 2)"
      "LDi_normalize n 0 rand_max 0 (full / 2) \<le> full / 2"
    using LDi_normalize_bounds[OF assms(1) n, of 0 "full / 2"] full by auto
  have eq: "LDi_calculateStreamDelay rand_max rng retries =
      (if retries = 0 then 0 else if retries = 1 then 1000
       else full / 2 + LDi_normalize n 0 rand_max 0 (full / 2))"
    by (simp add: LDi_calculateStreamDelay_def Let_def full_def n_def)
  show "0 \<le> LDi_calculateStreamDelay rand_max rng retries"
    and "LDi_calculateStreamDelay rand_max rng retries \<le> 30000"
    using norm full unfolding eq by auto
  assume "2 \<le> unat retries"
  moreover from this have "(2 :: double) ^ 2 \<le> 2 ^ unat retries" by (intro power_increasing) auto
  ultimately have "4000 \<le> full" "retries \<noteq> 0" "retries \<noteq> 1" by (auto simp: full_def)
  then show "2000 \<le> LDi_calculateStreamDelay rand_max rng retries"
    using norm full unfolding eq by auto
qed

lemma send_attempts_eq:
  "send_attempts response 0 False =
     (if response 0 \<in> {200, 202} then (1, False, False)
      else if response 0 \<in> {401, 403} then (1, True, True)
      else if response 1 \<in> {200, 202} then (2, False, False)
      else (2, True, False))"
  by (simp add: send_attempts.simps[of response 0] send_attempts.simps[of response "Suc 0"]
      eval_nat_numeral)

lemma ctry_serialize_cases:
  "\<exists>m'. ctry (LDJSONSerialize (Some j)) m \<in> {(Val None, m'), (Val (Some (json_text False j)), m')}"
  using LDJSONSerialize_cases[of j m] by (auto simp: ctry_def)

section \<open>Lemmas: streaming events\<close>

lemma updatestatus_simps [simp]:
  "cl_status (LDi_updatestatus callback c st) = st"
  "cl_world (LDi_updatestatus callback c st) = cl_world c"
  "cl_eventProcessor (LDi_updatestatus callback c st) = cl_eventProcessor c"
  "cl_offline (LDi_updatestatus callback c st) = cl_offline c"
  "cl_streamhandle (LDi_updatestatus callback c st) = cl_streamhandle c"
  by (simp_all add: LDi_updatestatus_def)

text \<open>Which flag a member of a payload stands for.\<close>

definition member_flag :: "string \<times> json \<Rightarrow> LDFlag \<Rightarrow> bool" where
  "member_flag m f \<longleftrightarrow> LDi_flag_parse (Some (fst m)) (snd m) [] = (Val f, [])"

lemma put_parse_loop_ok:
  "list_all2 member_flag xs fs \<Longrightarrow>
   put_parse_loop (length xs) (map (\<lambda>(k, x). (Some k, x)) xs) [] = (Val fs, [])"
  by (induction xs fs rule: list_all2_induct) (auto simp: member_flag_def alloc_ok)

lemma member_flag_keys: "list_all2 member_flag xs fs \<Longrightarrow> map flag_key fs = map fst xs"
  by (induction xs fs rule: list_all2_induct) (auto simp: member_flag_def dest: LDi_flag_parse_key)

lemma LDi_onstreameventput_ok:
  assumes inv: "store_inv held (cl_world c)"
    and quiet: "\<And>a. a \<in> set (flags_of (cl_world c)) \<Longrightarrow> a \<notin># held"
    and payload: "json_of data = Some (JObject xs)" "length xs < 4294967296" "distinct (map fst xs)"
      "list_all2 member_flag xs fs"
  shows "\<exists>w. LDi_onstreameventput callback c data [] =
      (Val (True, LDi_updatestatus callback (c\<lparr>cl_world := w\<rparr>) LDStatusInitialized), []) \<and>
    store_inv held w \<and> abs_store w = map_of (map (\<lambda>f. (flag_key f, f)) fs) \<and>
    store_initialized (w_store w) \<and>
    w_calls w = w_calls (cl_world c) @ concat (map (\<lambda>f.
      LDi_listenersDispatch (store_listeners (w_store (cl_world c))) (flag_key f) False) fs)"
proof -
  have keys: "distinct (map flag_key fs)" using member_flag_keys[OF payload(4)] payload(3) by simp
  obtain w where w: "LDi_storePut (cl_world c) fs [] = (Val (True, w), [])" "store_inv held w"
      "abs_store w = map_of (map (\<lambda>f. (flag_key f, f)) fs)" "store_initialized (w_store w)"
      "w_calls w = w_calls (cl_world c) @ concat (map (\<lambda>f.
        LDi_listenersDispatch (store_listeners (w_store (cl_world c))) (flag_key f) False) fs)"
    using LDi_storePut_refines[OF inv keys quiet, of "[]"] by auto
  have "unat (LDCollectionGetSize (Some (JObject xs))) = length xs"
    using unat_of_nat_u32[OF payload(2)] by (simp add: LDCollectionGetSize_def)
  with put_parse_loop_ok[OF payload(4)] w payload(1) show ?thesis
    by (intro exI[of _ w])
      (simp add: LDi_onstreameventput_def alloc_ok LDGetIter_def)
qed

text \<open>Data that is not a JSON object changes nothing, whatever the allocator does.\<close>

lemma LDi_onstreameventput_rejects:
  assumes "LDJSONGetType (json_of data) \<noteq> LDObject"
  shows "\<exists>m'. LDi_onstreameventput callback c data m = (Val (False, c), m')"
proof -
  consider m1 where "LDJSONDeserialize (Some data) m = (Null, m1)"
    | m1 j where "LDJSONDeserialize (Some data) m = (Val j, m1)" "json_of data = Some j"
    using LDJSONDeserialize_cases[of data m] by blast
  then show ?thesis
    using assms by cases (auto simp: LDi_onstreameventput_def ctry_def cbind_def cret_def)
qed

lemma LDi_onstreameventpatch_ok:
  assumes inv: "store_inv held (cl_world c)"
    and payload: "json_of data = Some p" "LDi_flag_parse None p [] = (Val flag, [])"
  shows "\<exists>w. LDi_onstreameventpatch c data [] = (Val (c\<lparr>cl_world := w\<rparr>), []) \<and>
    store_inv held w \<and> abs_store w = spec_upsert (abs_store (cl_world c)) flag"
proof -
  obtain w where "LDi_storeUpsert (cl_world c) flag [] = (Val (True, w), [])" "store_inv held w"
      "abs_store w = spec_upsert (abs_store (cl_world c)) flag"
    using LDi_storeUpsert_refines[OF inv, of flag "[]"] by auto
  with payload show ?thesis
    by (intro exI[of _ w]) (simp add: LDi_onstreameventpatch_def alloc_ok)
qed

definition tombstone :: "int \<Rightarrow> string \<Rightarrow> u32 \<Rightarrow> LDFlag" where
  "tombstone garbage key version =
     \<lparr>flag_key = key, flag_value = None, flag_version = sint version,
      flag_flagVersion = garbage, flag_variation = 0, flag_trackEvents = False,
      flag_trackReason = False, flag_reason = None, flag_debugEventsUntilDate = 0,
      flag_deleted = True\<rparr>"

lemma LDi_onstreameventdelete_ok:
  assumes inv: "store_inv held (cl_world c)"
    and payload: "json_of data = Some (JObject xs)" "map_of xs ''version'' = Some (JNumber v)"
      "double_to_uint v = Val version" "map_of xs ''key'' = Some (JText key)"
  shows "\<exists>w. LDi_onstreameventdelete garbage c data [] = (Val (c\<lparr>cl_world := w\<rparr>), []) \<and>
    store_inv held w \<and> abs_store w = spec_upsert (abs_store (cl_world c)) (tombstone garbage key version)"
proof -
  obtain w where "LDi_storeDelete garbage (cl_world c) key version [] = (Val (True, w), [])"
      "store_inv held w"
      "abs_store w = spec_upsert (abs_store (cl_world c)) (tombstone garbage key version)"
    using LDi_storeDelete_refines[OF inv, of garbage key version "[]"] by (auto simp: tombstone_def)
  with payload show ?thesis
    by (intro exI[of _ w]) (simp add: LDi_onstreameventdelete_def alloc_ok Let_def clift_def)
qed

section \<open>Lemmas: the stream as a whole\<close>

text \<open>What the server says, and what that means for the contents of the store.\<close>

datatype flag_update = UPut "LDFlag list" | UPatch LDFlag | UDelete string u32

fun apply_update :: "int \<Rightarrow> flag_map \<Rightarrow> flag_update \<Rightarrow> flag_map" where
  "apply_update garbage s (UPut fs) = map_of (map (\<lambda>f. (flag_key f, f)) fs)"
| "apply_update garbage s (UPatch f) = spec_upsert s f"
| "apply_update garbage s (UDelete key version) = spec_upsert s (tombstone garbage key version)"

text \<open>Which events say so: their name and a body in the expected format.\<close>

fun carries :: "string \<times> string \<Rightarrow> flag_update \<Rightarrow> bool" where
  "carries (name, body) (UPut fs) \<longleftrightarrow> name = ''put'' \<and> nul \<notin> set body \<and>
     (\<exists>xs. json_of body = Some (JObject xs) \<and> length xs < 4294967296 \<and> distinct (map fst xs) \<and>
        list_all2 member_flag xs fs)"
| "carries (name, body) (UPatch f) \<longleftrightarrow> name = ''patch'' \<and> nul \<notin> set body \<and>
     (\<exists>p. json_of body = Some p \<and> LDi_flag_parse None p [] = (Val f, []))"
| "carries (name, body) (UDelete key version) \<longleftrightarrow> name = ''delete'' \<and> nul \<notin> set body \<and>
     (\<exists>xs v. json_of body = Some (JObject xs) \<and> map_of xs ''version'' = Some (JNumber v) \<and>
        double_to_uint v = Val version \<and> map_of xs ''key'' = Some (JText key))"

definition is_put :: "flag_update \<Rightarrow> bool" where
  "is_put u = (case u of UPut _ \<Rightarrow> True | _ \<Rightarrow> False)"

lemma onEvent_carries:
  assumes "store_inv {#} (cl_world c)" and "carries (name, body) u"
  shows "\<exists>c'. LDi_onEvent callback garbage name body c [] = (Val (True, c'), []) \<and>
    store_inv {#} (cl_world c') \<and>
    abs_store (cl_world c') = apply_update garbage (abs_store (cl_world c)) u \<and>
    cl_status c' = (if is_put u then LDStatusInitialized else cl_status c)"
proof (cases u)
  case (UPut fs)
  then obtain xs where "name = ''put''" "json_of body = Some (JObject xs)" "length xs < 4294967296"
      "distinct (map fst xs)" "list_all2 member_flag xs fs"
    using assms(2) by auto
  with LDi_onstreameventput_ok[where data = body, OF assms(1) _ this(2-5), of callback] UPut show ?thesis
    by (auto simp: LDi_onEvent_def alloc_ok is_put_def)
next
  case (UPatch f)
  then obtain p where "name = ''patch''" "json_of body = Some p" "LDi_flag_parse None p [] = (Val f, [])"
    using assms(2) by auto
  with LDi_onstreameventpatch_ok[where data = body, OF assms(1) this(2,3)] UPatch show ?thesis
    by (auto simp: LDi_onEvent_def alloc_ok is_put_def)
next
  case (UDelete key version)
  then obtain xs v where "name = ''delete''" "json_of body = Some (JObject xs)"
      "map_of xs ''version'' = Some (JNumber v)" "double_to_uint v = Val version"
      "map_of xs ''key'' = Some (JText key)"
    using assms(2) by auto
  with LDi_onstreameventdelete_ok[where data = body, OF assms(1) this(2-5), of garbage] UDelete show ?thesis
    by (auto simp: LDi_onEvent_def alloc_ok is_put_def)
qed

text \<open>The handlers do not touch the socket of the stream.\<close>

lemma onEvent_socket:
  "yields (LDi_onEvent callback garbage name body c) (\<lambda>(_, c'). cl_streamhandle c' = cl_streamhandle c)"
proof -
  have "yields (LDi_onstreameventput callback c body) (\<lambda>(_, c'). cl_streamhandle c' = cl_streamhandle c)"
    unfolding LDi_onstreameventput_def by (auto intro!: yields_any split: option.split)
  moreover have "yields (LDi_onstreameventpatch c body) (\<lambda>c'. cl_streamhandle c' = cl_streamhandle c)"
    unfolding LDi_onstreameventpatch_def by (auto intro!: yields_any split: option.split)
  moreover have "yields (LDi_onstreameventdelete garbage c body) (\<lambda>c'. cl_streamhandle c' = cl_streamhandle c)"
    unfolding LDi_onstreameventdelete_def Let_def by (auto intro!: yields_any)
  ultimately show ?thesis
    unfolding LDi_onEvent_def by (auto elim!: yields_cbind)
qed

lemma dispatch_all_carries:
  assumes "list_all2 carries evs us" and "store_inv {#} (cl_world c)"
  shows "\<exists>c'. onevent.dispatch_all callback garbage evs c c' \<and> store_inv {#} (cl_world c') \<and>
    abs_store (cl_world c') = foldl (apply_update garbage) (abs_store (cl_world c)) us \<and>
    cl_status c' = (if list_ex is_put us then LDStatusInitialized else cl_status c) \<and>
    cl_streamhandle c' = cl_streamhandle c"
  using assms
proof (induction evs us arbitrary: c rule: list_all2_induct)
  case (Cons ev evs u us)
  obtain c1 where c1: "LDi_onEvent callback garbage (fst ev) (snd ev) c [] = (Val (True, c1), [])"
      "store_inv {#} (cl_world c1)" "abs_store (cl_world c1) = apply_update garbage (abs_store (cl_world c)) u"
      "cl_status c1 = (if is_put u then LDStatusInitialized else cl_status c)"
    using onEvent_carries[of c "fst ev" "snd ev" u callback garbage] Cons by auto
  moreover have "cl_streamhandle c1 = cl_streamhandle c"
    using onEvent_socket[of callback garbage "fst ev" "snd ev" c] c1(1) by (auto simp: yields_def)
  ultimately show ?case using Cons.IH[OF c1(2)] by fastforce
qed simp

lemma carries_chars:
  "list_all2 carries evs us \<Longrightarrow>
   list_all (\<lambda>(name, body). nl \<notin> set name \<and> nul \<notin> set name \<and> nul \<notin> set body) evs"
proof (induction evs us rule: list_all2_induct)
  case (Cons ev evs u us)
  then show ?case by (cases ev; cases u) auto
qed simp

section \<open>Lemmas: batches\<close>

lemma sender_batch_cases:
  assumes "queue_inv (cl_eventProcessor c)" and "sender_batch c now rng m = (Val (c', batch), m')"
  shows "case batch of
      Some (payload, payloadId) \<Rightarrow>
        \<not> cl_offline c \<and> LDi_UUIDv4 rng = (True, payloadId) \<and>
        (\<exists>summary. payload = json_text False (JArray (queue_items (cl_eventProcessor c) @ summary)) \<and> length summary \<le> 1) \<and>
        queue_items (cl_eventProcessor c') = [] \<and> c' = c\<lparr>cl_eventProcessor := cl_eventProcessor c'\<rparr>
    | None \<Rightarrow> c' = c \<or> queue_items (cl_eventProcessor c') = [] \<and> c' = c\<lparr>cl_eventProcessor := cl_eventProcessor c'\<rparr>"
proof -
  have keep: "c\<lparr>cl_eventProcessor := cl_eventProcessor c\<rparr> = c" by simp
  show ?thesis
  proof (cases "cl_offline c \<or> \<not> fst (LDi_UUIDv4 rng)")
    case True
    with assms(2) show ?thesis
      by (cases "LDi_UUIDv4 rng") (auto simp: sender_batch_def cret_def split: if_splits)
  next
    case False
    then obtain pid where pid: "LDi_UUIDv4 rng = (True, pid)" by (cases "LDi_UUIDv4 rng") auto
    obtain ok payload ep m1 where b: "LDi_bundleEventPayload (cl_eventProcessor c) now m = (Val (ok, payload, ep), m1)"
      using assms(2) False pid by (auto simp: sender_batch_def cmd_Val_iffs split: if_splits)
    note cases = LDi_bundleEventPayload_cases[OF assms(1) b]
    show ?thesis
    proof (cases "ok \<and> payload \<noteq> None")
      case False': False
      with assms(2) False pid b cases keep show ?thesis
        by (auto simp: sender_batch_def cmd_Val_iffs cbind_def[of "LDi_bundleEventPayload _ _"] Let_def
            split: if_splits)
    next
      case True
      with cases obtain summary where p: "payload = Some (JArray (queue_items (cl_eventProcessor c) @ summary))"
          "length summary \<le> 1" and q: "queue_items ep = []"
        by (auto split: if_splits)
      define c1 where "c1 = c\<lparr>cl_eventProcessor := ep\<rparr>"
      have "(c', batch) = (c1, None) \<or> (c', batch) = (c1,
          Some (json_text False (JArray (queue_items (cl_eventProcessor c) @ summary)), pid))"
        using assms(2) True False pid b p
          ctry_serialize_cases[of "JArray (queue_items (cl_eventProcessor c) @ summary)" m1]
        by (auto simp: sender_batch_def Let_def cbind_def[of "LDi_bundleEventPayload _ _"]
            cbind_def[of "ctry _"] cret_def c1_def split: if_splits)
      then show ?thesis using p q pid False by (auto simp: c1_def)
    qed
  qed
qed

section \<open>Properties\<close>

definition sample_client :: LDClient where
  "sample_client =
     \<lparr>cl_mobileKey = Some ''mob'', cl_offline = False, cl_background = False,
      cl_status = LDStatusInitializing, cl_shouldstopstreaming = False,
      cl_streamhandle = \<lparr>sock_status = UNINITIALIZED, sock_fd = 0\<rparr>,
      cl_eventProcessor = sample_processor, cl_world = snd (LDi_storeInitialize empty_world),
      cl_statusCalls = [], cl_cancelled = []\<rparr>"

definition sample_put :: string where
  "sample_put = json_text False (JObject [(''a'', JObject [(''value'', JBool True), (''version'', JNumber 4)])])"

definition sample_delete :: string where
  "sample_delete = json_text False (JObject [(''key'', JText ''a''), (''version'', JNumber 5)])"

lemma sample_texts:
  "json_of sample_put = Some (JObject [(''a'', JObject [(''value'', JBool True), (''version'', JNumber 4)])])"
  "json_of sample_delete = Some (JObject [(''key'', JText ''a''), (''version'', JNumber 5)])"
  "nul \<notin> set sample_put" "nul \<notin> set sample_delete"
  by (simp_all add: sample_put_def sample_delete_def json_of_text nul_not_in_json_text CJSON_NESTING_LIMIT_def)

lemma sample_client_inv: "store_inv {#} (cl_world sample_client)"
  unfolding sample_client_def by (simp add: store_inv_empty)

text \<open>The stream end to end: a sequence of put, patch and delete events, encoded one after
  another and received in chunks of any sizes, is processed without an error and leaves in the
  store exactly the contents that applying the updates in order gives; a put makes the client
  initialized.\<close>

theorem stream_end_to_end:
  assumes "store_inv {#} (cl_world c)" and "list_all2 carries evs us"
    and "concat chunks = concat (map (\<lambda>(name, body). encode_event name body) evs)"
  shows "\<exists>c'. sse_feed (LDi_onEvent callback garbage) (LDSSEParserInitialize c) chunks [] =
      (Val (True, LDSSEParserInitialize c'), []) \<and> store_inv {#} (cl_world c') \<and>
    abs_store (cl_world c') = foldl (apply_update garbage) (abs_store (cl_world c)) us \<and>
    cl_status c' = (if list_ex is_put us then LDStatusInitialized else cl_status c)"
  using dispatch_all_carries[OF assms(2,1), of callback garbage]
    onevent.feed_events[OF carries_chars[OF assms(2)] _ assms(3), of callback garbage] by blast

theorem stream_end_to_end_witness:
  "\<exists>c'. sse_feed (LDi_onEvent True 0) (LDSSEParserInitialize sample_client)
       [take 9 (encode_event ''put'' sample_put), drop 9 (encode_event ''put'' sample_put) @ encode_event ''delete'' sample_delete] [] =
      (Val (True, LDSSEParserInitialize c'), []) \<and>
    abs_store (cl_world c') ''a'' = Some (tombstone 0 ''a'' 5) \<and> cl_status c' = LDStatusInitialized"
proof -
  let ?f = "\<lparr>flag_key = ''a'', flag_value = Some (JBool True), flag_version = 4, flag_flagVersion = - 1,
    flag_variation = - 1, flag_trackEvents = False, flag_trackReason = False, flag_reason = None,
    flag_debugEventsUntilDate = 0, flag_deleted = False\<rparr>"
  let ?evs = "[(''put'', sample_put), (''delete'', sample_delete)]"
  let ?us = "[UPut [?f], UDelete ''a'' 5]"
  have "member_flag (''a'', JObject [(''value'', JBool True), (''version'', JNumber 4)]) ?f"
    by (auto simp: member_flag_def LDi_flag_parse_def flag_parse_key_def flag_parse_value_def flag_parse_version_def
        flag_parse_deleted_def flag_parse_opt_int_def flag_parse_reason_def flag_parse_opt_bool_def
        flag_parse_debug_def alloc_ok clift_def double_to_int_def c_trunc_def INT_MIN_def INT_MAX_def cmd_Val_iffs)
  then have c: "list_all2 carries ?evs ?us"
    by (simp add: sample_texts double_to_uint_def c_trunc_def)
  have s: "foldl (apply_update 0) (abs_store (cl_world sample_client)) ?us ''a'' = Some (tombstone 0 ''a'' 5)"
    by (simp add: spec_upsert_def spec_accepts_def tombstone_def)
  show ?thesis
    using stream_end_to_end[OF sample_client_inv c, of "[take 9 (encode_event ''put'' sample_put),
      drop 9 (encode_event ''put'' sample_put) @ encode_event ''delete'' sample_delete]" True 0] s
    by (auto simp: is_put_def append_assoc[symmetric] simp del: append_assoc foldl_Cons)
qed

text \<open>C32. The division of the stream into chunks never matters, whatever the bytes are: the
  outcome, the pending event, the buffered bytes and everything the handlers did to the client
  are those of receiving all bytes at once.\<close>

theorem stream_chunks_irrelevant:
  "sse_obs (fst (sse_feed (LDi_onEvent callback garbage) p chunks [])) =
   sse_obs (fst (LDSSEParserProcess (LDi_onEvent callback garbage) p (concat chunks) []))"
  by (rule onevent.feed_concat)

text \<open>The delay before a reconnection is between zero and 30 seconds and at least two seconds
  from the second failure on.\<close>

theorem stream_delay_bounded:
  assumes "0 < rand_max" and "of_nat (unat rng) \<le> rand_max"
  shows "0 \<le> LDi_calculateStreamDelay rand_max rng retries \<and>
    LDi_calculateStreamDelay rand_max rng retries \<le> 30000 \<and>
    (2 \<le> unat retries \<longrightarrow> 2000 \<le> LDi_calculateStreamDelay rand_max rng retries)"
  using LDi_calculateStreamDelay_bounds[OF assms] by blast

theorem stream_delay_bounded_witness:
  "2000 \<le> LDi_calculateStreamDelay 4294967295 7 9"
  using stream_delay_bounded[of 4294967295 7 9] by simp

text \<open>One turn of the event sender hands the network at most one batch, in at most two
  attempts, and only while the client is online. The batch is the queue, in order, followed by
  at most one summary, and what was handed over has left the queue: no event is in two
  batches. If nothing was sent the client is unchanged, unless serializing the batch failed.\<close>

theorem sender_turn_batches:
  assumes "queue_inv (cl_eventProcessor c)"
    and "sender_turn callback c now rng response m = (Val (c', sent, final), m')"
  shows "case sent of
      Some (batch, payloadId, attempts) \<Rightarrow>
        \<not> cl_offline c \<and> 1 \<le> attempts \<and> attempts \<le> 2 \<and>
        (\<exists>summary. batch = json_text False (JArray (queue_items (cl_eventProcessor c) @ summary)) \<and> length summary \<le> 1) \<and>
        queue_items (cl_eventProcessor c') = []
    | None \<Rightarrow> c' = c \<or> queue_items (cl_eventProcessor c') = [] \<and> c' = c\<lparr>cl_eventProcessor := cl_eventProcessor c'\<rparr>"
proof -
  obtain n failed r where n: "send_attempts response 0 False = (n, failed, r)" by (metis prod_cases3)
  then have att: "1 \<le> n \<and> n \<le> 2" by (auto simp: send_attempts_eq split: if_splits)
  obtain c1 batch m1 where b: "sender_batch c now rng m = (Val (c1, batch), m1)"
    using assms(2) by (auto simp: sender_turn_def Let_def cmd_Val_iffs)
  with assms(2) n have "case batch of None \<Rightarrow> (c', sent) = (c1, None)
      | Some (payload, pid) \<Rightarrow> (c', sent) = (if r then LDi_updatestatus callback c1 LDStatusFailed else c1, Some (payload, pid, n))"
    by (auto simp: sender_turn_def Let_def cbind_def cret_def split: option.splits)
  with sender_batch_cases[OF assms(1) b] att show ?thesis
    by (cases batch) (auto simp: LDi_updatestatus_def)
qed

theorem sender_turn_batches_witness:
  "\<exists>c' pid n. sender_turn True
      (sample_client\<lparr>cl_eventProcessor := sample_processor\<lparr>ep_events := JArray [JBool True]\<rparr>\<rparr>)
      9 (\<lambda>i. Some 7) (\<lambda>i. 500) [] = (Val (c', Some (json_text False (JArray [JBool True]), pid, n), False), []) \<and> n \<le> 2 \<and>
    queue_items (cl_eventProcessor c') = []"
proof -
  let ?ep = "sample_processor\<lparr>ep_events := JArray [JBool True]\<rparr>"
  let ?c = "sample_client\<lparr>cl_eventProcessor := ?ep\<rparr>"
  have inv: "queue_inv (cl_eventProcessor ?c)"
    by (simp add: queue_inv_def sample_processor_def sample_config_def config_defaults_def)
  have "fst (LDi_UUIDv4 (\<lambda>i. Some 7))"
    using randomHex_loop_total[of "\<lambda>i. Some 7" 0 36 "[]"]
    by (auto simp: LDi_UUIDv4_def LDi_randomHex_def LD_UUID_SIZE_def split: prod.splits bool.splits)
  then obtain pid where pid: "LDi_UUIDv4 (\<lambda>i. Some 7) = (True, pid)"
    by (cases "LDi_UUIDv4 (\<lambda>i. Some 7)") auto
  have "LDi_bundleEventPayload ?ep 9 [] =
      (Val (True, Some (JArray [JBool True]), ?ep\<lparr>ep_events := JArray []\<rparr>), [])"
    by (simp add: LDi_bundleEventPayload_def LDCollectionGetSize_def sample_processor_def alloc_ok)
  then have r: "sender_turn True ?c 9 (\<lambda>i. Some 7) (\<lambda>i. 500) [] =
      (Val (?c\<lparr>cl_eventProcessor := ?ep\<lparr>ep_events := JArray []\<rparr>\<rparr>, Some (json_text False (JArray [JBool True]), pid, 2), False), [])"
    by (simp add: sender_turn_def sender_batch_def pid send_attempts_eq alloc_ok Let_def sample_client_def json_text_def INT_MAX_def)
  from sender_turn_batches[OF inv r] r show ?thesis by auto
qed

text \<open>The two sources of updates exclude each other: with a configuration an application can
  build, a client that connects to the stream does not poll, an offline client does neither, and
  except for the first request polling waits at least 30 seconds.\<close>

theorem update_sources_exclusive:
  assumes "config_built config"
  shows "(stream_plan config c = StreamConnect \<longrightarrow> (\<exists>ms. poll_plan config c = Some (ms, True))) \<and>
    (cl_offline c \<longrightarrow> stream_plan config c \<noteq> StreamConnect \<and> (\<forall>ms. poll_plan config c \<noteq> Some (ms, False))) \<and>
    (\<forall>ms skip. poll_plan config c = Some (ms, skip) \<and> cl_status c \<noteq> LDStatusInitializing \<longrightarrow> 30000 \<le> ms)"
  using config_built_inv[OF assms]
  by (auto simp: stream_plan_def poll_plan_def config_inv_def Let_def split: if_splits)

theorem update_sources_exclusive_witness:
  "config_built sample_config \<and> stream_plan sample_config sample_client = StreamConnect \<and>
   (\<exists>ms. poll_plan sample_config sample_client = Some (ms, True))"
proof -
  have b: "config_built sample_config" by (rule config_built.new[OF sample_config_new])
  moreover have "stream_plan sample_config sample_client = StreamConnect"
    by (simp add: stream_plan_def sample_client_def sample_config_def config_defaults_def)
  ultimately show ?thesis using update_sources_exclusive[OF b, of sample_client] by blast
qed

end
