(* ===== verification/Net.thy ===== *)
theory Net
  imports Streaming Base64
begin

text \<open>
  The requests of the client (\<open>src/ldnet.c\<close>): the stream of flag updates, the poll for all flags and
  the delivery of events, from the construction of address and headers to what the callbacks do with
  the answer. libcurl is a parameter (\<open>curl_lib\<close>): which of its calls fail and what a request
  is answered with. \<open>curl_easy_perform\<close> is taken as documented: it hands what it receives to the
  callbacks in order, and ends with an error code as soon as a callback reports less than it was
  given or asks to abort. \<open>net\<close> counts the handles and header lists that are alive, so that a leak
  or a double release shows, and records the requests that were made.
\<close>

section \<open>libcurl\<close>

datatype write_callback = WriteMemory | StreamWrite

datatype curl_option =
    CURLOPT_URL string
  | CURLOPT_HEADERFUNCTION write_callback
  | CURLOPT_HEADERDATA
  | CURLOPT_WRITEFUNCTION write_callback
  | CURLOPT_WRITEDATA
  | CURLOPT_PROXY string
  | CURLOPT_SSL_VERIFYPEER bool
  | CURLOPT_CAINFO string
  | CURLOPT_CONNECTTIMEOUT_MS int
  | CURLOPT_CUSTOMREQUEST string
  | CURLOPT_POSTFIELDS string
  | CURLOPT_OPENSOCKETFUNCTION
  | CURLOPT_OPENSOCKETDATA
  | CURLOPT_HTTPHEADER "string list"
  | CURLOPT_NOPROGRESS int
  | CURLOPT_XFERINFODATA
  | CURLOPT_XFERINFOFUNCTION
  | CURLOPT_TIMEOUT_MS int

text \<open>
  What happens during a request, in order: a socket is opened, a piece of a header or of the body
  arrives, progress is reported (at a time, with the amount received so far), or another thread
  changes the client.
\<close>

datatype curl_event =
    Opened int
  | Header string
  | Body string
  | Progress double int
  | Elsewhere "LDClient \<Rightarrow> LDClient"

record curl_answer =
  an_events :: "curl_event list"
  an_result :: int
  an_response_code :: int

type_synonym curl = "curl_option list"

record curl_lib =
  lib_init :: bool
  lib_setopt :: "curl_option \<Rightarrow> bool"
  lib_append :: "string \<Rightarrow> bool"
  lib_answer :: "curl \<Rightarrow> curl_answer"

record net =
  net_handles :: nat
  net_slists :: nat
  net_requests :: "curl list"

definition curl_easy_init :: "curl_lib \<Rightarrow> net \<Rightarrow> curl option \<times> net" where
  "curl_easy_init lib s =
     (if lib_init lib then (Some [], s\<lparr>net_handles := Suc (net_handles s)\<rparr>) else (None, s))"

definition curl_easy_setopt :: "curl_lib \<Rightarrow> curl \<Rightarrow> curl_option \<Rightarrow> curl option" where
  "curl_easy_setopt lib curl opt = (if lib_setopt lib opt then Some (curl @ [opt]) else None)"

fun setopts :: "curl_lib \<Rightarrow> curl \<Rightarrow> curl_option list \<Rightarrow> curl option" where
  "setopts lib curl [] = Some curl"
| "setopts lib curl (opt # opts) =
     (case curl_easy_setopt lib curl opt of None \<Rightarrow> None | Some curl \<Rightarrow> setopts lib curl opts)"

text \<open>The list \<open>NULL\<close> is \<open>[]\<close>; the first string makes a new list.\<close>

definition curl_slist_append :: "curl_lib \<Rightarrow> string list \<Rightarrow> string \<Rightarrow> net \<Rightarrow> string list option \<times> net" where
  "curl_slist_append lib headers h s =
     (if lib_append lib h
      then (Some (headers @ [h]), if headers = [] then s\<lparr>net_slists := Suc (net_slists s)\<rparr> else s)
      else (None, s))"

definition curl_easy_cleanup :: "curl option \<Rightarrow> net \<Rightarrow> net cmd" where
  "curl_easy_cleanup curl s =
     (if curl = None then cret s
      else if net_handles s = 0 then cfault Undefined
      else cret (s\<lparr>net_handles := net_handles s - 1\<rparr>))"

definition curl_slist_free_all :: "string list \<Rightarrow> net \<Rightarrow> net cmd" where
  "curl_slist_free_all headers s =
     (if headers = [] then cret s
      else if net_slists s = 0 then cfault Undefined
      else cret (s\<lparr>net_slists := net_slists s - 1\<rparr>))"

definition release :: "curl option \<Rightarrow> string list \<Rightarrow> net \<Rightarrow> net cmd" where
  "release curl headers s = cbind (curl_slist_free_all headers s) (\<lambda>s. curl_easy_cleanup curl s)"

abbreviation CURLE_WRITE_ERROR :: int where "CURLE_WRITE_ERROR \<equiv> 23"
abbreviation CURLE_ABORTED_BY_CALLBACK :: int where "CURLE_ABORTED_BY_CALLBACK \<equiv> 42"

section \<open>Formatted output\<close>

text \<open>
  \<open>snprintf\<close> into a buffer of \<open>n\<close> bytes: the length of the whole text, or a negative number if that is
  not an \<open>int\<close>, and what the buffer then holds. A \<open>NULL\<close> argument of \<open>%s\<close> is undefined.
\<close>

definition snprintf :: "nat \<Rightarrow> string \<Rightarrow> int \<times> string" where
  "snprintf n s = (if int (length s) \<le> INT_MAX then (int (length s), take (n - 1) s) else (- 1, []))"

definition percent_s :: "cstring \<Rightarrow> string cmd" where
  "percent_s s = (case s of None \<Rightarrow> cfault Undefined | Some t \<Rightarrow> cret t)"

section \<open>Callbacks\<close>

record MemoryStruct =
  ms_memory :: cstring
  ms_size :: nat

text \<open>
  The result is the number of bytes taken. When the memory is exhausted the pointer is lost but the
  size stays; with a further call the bytes before the new ones would be undefined.
\<close>

definition WriteMemoryCallback :: "string \<Rightarrow> MemoryStruct \<Rightarrow> (nat \<times> MemoryStruct) cmd" where
  "WriteMemoryCallback contents mem =
     cbind (ctry LDAlloc) (\<lambda>r.
       if r = None then cret (0, mem\<lparr>ms_memory := None\<rparr>)
       else
         (case ms_memory mem of
            None \<Rightarrow>
              (if ms_size mem = 0
               then cret (length contents, \<lparr>ms_memory = Some contents, ms_size = length contents\<rparr>)
               else cfault Undefined)
          | Some old \<Rightarrow>
              cret (length contents,
                \<lparr>ms_memory = Some (take (ms_size mem) old @ contents), ms_size = ms_size mem + length contents\<rparr>)))"

record streamdata =
  sd_headers :: MemoryStruct
  sd_lastdatatime :: double
  sd_lastdataamt :: int
  sd_parser :: "LDClient LDSSEParser"

text \<open>The client is the context of the parser.\<close>

definition sd_client :: "streamdata \<Rightarrow> LDClient" where
  "sd_client sd = sse_context (sse_pending (sd_parser sd))"

definition sd_map_client :: "(LDClient \<Rightarrow> LDClient) \<Rightarrow> streamdata \<Rightarrow> streamdata" where
  "sd_map_client f sd =
     sd\<lparr>sd_parser := (sd_parser sd)\<lparr>sse_pending := (sse_pending (sd_parser sd))
       \<lparr>sse_context := f (sd_client sd)\<rparr>\<rparr>\<rparr>"

definition StreamWriteCallback ::
  "LDClient ld_sse_dispatch \<Rightarrow> string \<Rightarrow> streamdata \<Rightarrow> (nat \<times> streamdata) cmd" where
  "StreamWriteCallback dispatch contents context =
     cbind (LDSSEParserProcess dispatch (sd_parser context) contents) (\<lambda>(ok, parser).
       cret (if ok then length contents else 0, context\<lparr>sd_parser := parser\<rparr>))"

definition LD_STREAMTIMEOUT_MS :: double where
  "LD_STREAMTIMEOUT_MS = 300000"

definition ProgressCallback :: "double \<Rightarrow> int \<Rightarrow> streamdata \<Rightarrow> int \<times> streamdata" where
  "ProgressCallback now dlnow context =
     (if cl_status (sd_client context) = LDStatusShuttingdown then (1, context)
      else if sd_lastdataamt context = dlnow
      then (if now - sd_lastdatatime context > LD_STREAMTIMEOUT_MS then 1 else 0, context)
      else (0, context\<lparr>sd_lastdatatime := now, sd_lastdataamt := dlnow\<rparr>))"

definition SocketCallback :: "int \<Rightarrow> streamdata \<Rightarrow> streamdata" where
  "SocketCallback fd context = sd_map_client (\<lambda>client. LDi_updatehandle client fd) context"

text \<open>The request for the stream while it is answered, and a request whose answer is collected.\<close>

fun stream_perform ::
  "LDClient ld_sse_dispatch \<Rightarrow> int \<Rightarrow> curl_event list \<Rightarrow> streamdata \<Rightarrow> (int \<times> streamdata) cmd" where
  "stream_perform dispatch res [] sd = cret (res, sd)"
| "stream_perform dispatch res (Opened fd # evs) sd = stream_perform dispatch res evs (SocketCallback fd sd)"
| "stream_perform dispatch res (Header h # evs) sd =
     cbind (WriteMemoryCallback h (sd_headers sd)) (\<lambda>(n, mem).
       let sd = sd\<lparr>sd_headers := mem\<rparr> in
       if n \<noteq> length h then cret (CURLE_WRITE_ERROR, sd) else stream_perform dispatch res evs sd)"
| "stream_perform dispatch res (Body b # evs) sd =
     cbind (StreamWriteCallback dispatch b sd) (\<lambda>(n, sd).
       if n \<noteq> length b then cret (CURLE_WRITE_ERROR, sd) else stream_perform dispatch res evs sd)"
| "stream_perform dispatch res (Progress now dlnow # evs) sd =
     (case ProgressCallback now dlnow sd of
        (abort, sd) \<Rightarrow>
          (if abort \<noteq> 0 then cret (CURLE_ABORTED_BY_CALLBACK, sd) else stream_perform dispatch res evs sd))"
| "stream_perform dispatch res (Elsewhere f # evs) sd = stream_perform dispatch res evs (sd_map_client f sd)"

fun memory_perform ::
  "int \<Rightarrow> curl_event list \<Rightarrow> MemoryStruct \<Rightarrow> MemoryStruct \<Rightarrow> (int \<times> MemoryStruct \<times> MemoryStruct) cmd" where
  "memory_perform res [] headers data = cret (res, headers, data)"
| "memory_perform res (Header h # evs) headers data =
     cbind (WriteMemoryCallback h headers) (\<lambda>(n, headers).
       if n \<noteq> length h then cret (CURLE_WRITE_ERROR, headers, data) else memory_perform res evs headers data)"
| "memory_perform res (Body b # evs) headers data =
     cbind (WriteMemoryCallback b data) (\<lambda>(n, data).
       if n \<noteq> length b then cret (CURLE_WRITE_ERROR, headers, data) else memory_perform res evs headers data)"
| "memory_perform res (_ # evs) headers data = memory_perform res evs headers data"

section \<open>Preparation\<close>

definition LD_USER_AGENT_HEADER :: string where
  "LD_USER_AGENT_HEADER = ''User-Agent: CClient/2.5.5''"

text \<open>The options behind the headers, in the order of the code.\<close>

definition shared_options :: "LDConfig \<Rightarrow> write_callback \<Rightarrow> curl_option list" where
  "shared_options config datacb =
     [CURLOPT_HEADERFUNCTION WriteMemory, CURLOPT_HEADERDATA, CURLOPT_WRITEFUNCTION datacb, CURLOPT_WRITEDATA] @
     (case proxyURI config of None \<Rightarrow> [] | Some p \<Rightarrow> [CURLOPT_PROXY p]) @
     [CURLOPT_SSL_VERIFYPEER (verifyPeer config)] @
     (case certFile config of None \<Rightarrow> [] | Some c \<Rightarrow> [CURLOPT_CAINFO c]) @
     [CURLOPT_CONNECTTIMEOUT_MS (connectionTimeoutMillis config)]"

text \<open>The value is the handle and the list of headers, none on failure.\<close>

definition prepareShared ::
  "curl_lib \<Rightarrow> string \<Rightarrow> LDConfig \<Rightarrow> write_callback \<Rightarrow> LDClient \<Rightarrow> net \<Rightarrow> ((curl \<times> string list) option \<times> net) cmd" where
  "prepareShared lib url config datacb client s =
     (let failed = (\<lambda>curl headers s. cbind (curl_easy_cleanup curl s) (\<lambda>s.
            cbind (curl_slist_free_all headers s) (\<lambda>s. cret (None, s)))) in
      case curl_easy_init lib s of
        (None, s) \<Rightarrow> failed None [] s
      | (Some curl, s) \<Rightarrow>
          (case curl_easy_setopt lib curl (CURLOPT_URL url) of
             None \<Rightarrow> failed (Some curl) [] s
           | Some curl \<Rightarrow>
               cbind (percent_s (cl_mobileKey client)) (\<lambda>key.
                 case snprintf 256 (''Authorization: '' @ key) of
                   (status, headerauth) \<Rightarrow>
                     if status < 0 then failed (Some curl) [] s
                     else
                       (case curl_slist_append lib [] headerauth s of
                          (None, s) \<Rightarrow> failed (Some curl) [] s
                        | (Some headers, s) \<Rightarrow>
                            (case curl_slist_append lib headers LD_USER_AGENT_HEADER s of
                               (None, s) \<Rightarrow> failed (Some curl) headers s
                             | (Some headers, s) \<Rightarrow>
                                 (case setopts lib curl (shared_options config datacb) of
                                    None \<Rightarrow> failed (Some curl) headers s
                                  | Some curl \<Rightarrow> cret (Some (curl, headers), s)))))))"

text \<open>
  The address of a request for flags, in a buffer of 4096 bytes: the user goes into the path, or
  into the body of a \<open>REPORT\<close> request. The error return is one of \<open>snprintf\<close> or of the allocator.
\<close>

definition request_url :: "LDConfig \<Rightarrow> cstring \<Rightarrow> string \<Rightarrow> string \<Rightarrow> string \<Rightarrow> string cmd" where
  "request_url config uri report_path user_path userJSONText =
     cbind
       (if useReport config
        then cbind (percent_s uri) (\<lambda>u. cret (snprintf 4096 (u @ report_path)))
        else
          cbind (LDi_base64_encode userJSONText) (\<lambda>b64text.
          cbind (percent_s uri) (\<lambda>u. cret (snprintf 4096 (u @ user_path @ b64text)))))
       (\<lambda>(status, url).
          if status < 0 then cnull
          else if useReasons config then
            (case snprintf (4096 - length url) ''?withReasons=true'' of
               (status, rest) \<Rightarrow> if status < 0 then cnull else cret (url @ rest))
          else cret url)"

text \<open>A request with the user in its body. The header list is kept where an option fails.\<close>

definition report_options ::
  "curl_lib \<Rightarrow> LDConfig \<Rightarrow> string \<Rightarrow> curl \<Rightarrow> string list \<Rightarrow> net \<Rightarrow> curl option \<times> string list \<times> net" where
  "report_options lib config userJSONText curl headerlist s =
     (if \<not> useReport config then (Some curl, headerlist, s)
      else
        (case curl_easy_setopt lib curl (CURLOPT_CUSTOMREQUEST ''REPORT'') of
           None \<Rightarrow> (None, headerlist, s)
         | Some curl \<Rightarrow>
             (case curl_slist_append lib headerlist ''Content-Type: application/json'' s of
                (None, s) \<Rightarrow> (None, headerlist, s)
              | (Some headerlist, s) \<Rightarrow>
                  (curl_easy_setopt lib curl (CURLOPT_POSTFIELDS userJSONText), headerlist, s))))"

definition send_request :: "curl_lib \<Rightarrow> curl \<Rightarrow> net \<Rightarrow> curl_answer \<times> net" where
  "send_request lib curl s = (lib_answer lib curl, s\<lparr>net_requests := net_requests s @ [curl]\<rparr>)"

section \<open>Requests\<close>

text \<open>
  \<open>response\<close> is the value of the caller's variable before the call: it stays where the function
  returns early or an option fails. The end of the stream is reported as the status code of HTTP or as
  the error code of libcurl.
\<close>

definition LDi_readstream ::
  "curl_lib \<Rightarrow> LDConfig \<Rightarrow> LDUser \<Rightarrow> LDClient ld_sse_dispatch \<Rightarrow> double \<Rightarrow> int \<Rightarrow> LDClient LDSSEParser \<Rightarrow> net \<Rightarrow>
   (int \<times> LDClient LDSSEParser \<times> net) cmd" where
  "LDi_readstream lib config user dispatch now response parser s =
     (let client = sse_context (sse_pending parser) in
      cbind (ctry (LDi_serializeUser user)) (\<lambda>r.
      case r of
        None \<Rightarrow> cret (response, parser, s)
      | Some userJSONText \<Rightarrow>
          cbind (ctry (request_url config (streamURI config) ''/meval'' ''/meval/'' userJSONText)) (\<lambda>r.
          case r of
            None \<Rightarrow> cret (response, parser, s)
          | Some url \<Rightarrow>
              cbind (prepareShared lib url config StreamWrite client s) (\<lambda>(r, s).
              case r of
                None \<Rightarrow> cret (response, parser, s)
              | Some (curl, headerlist) \<Rightarrow>
                  (case report_options lib config userJSONText curl headerlist s of
                     (None, headerlist, s) \<Rightarrow>
                       cbind (release (Some curl) headerlist s) (\<lambda>s. cret (response, parser, s))
                   | (Some curl, headerlist, s) \<Rightarrow>
                       (case setopts lib curl
                               [CURLOPT_OPENSOCKETFUNCTION, CURLOPT_OPENSOCKETDATA, CURLOPT_HTTPHEADER headerlist,
                                CURLOPT_NOPROGRESS 0, CURLOPT_XFERINFODATA, CURLOPT_XFERINFOFUNCTION] of
                          None \<Rightarrow> cbind (release (Some curl) headerlist s) (\<lambda>s. cret (response, parser, s))
                        | Some curl \<Rightarrow>
                            (case send_request lib curl s of
                               (answer, s) \<Rightarrow>
                                 cbind (stream_perform dispatch (an_result answer) (an_events answer)
                                   \<lparr>sd_headers = \<lparr>ms_memory = None, ms_size = 0\<rparr>, sd_lastdatatime = now,
                                    sd_lastdataamt = 0, sd_parser = parser\<rparr>) (\<lambda>(res, sd).
                                 cbind (release (Some curl) headerlist s) (\<lambda>s.
                                   cret (if res = 0 then an_response_code answer else res,
                                         sd_parser sd, s))))))))))"

definition LDi_fetchfeaturemap ::
  "curl_lib \<Rightarrow> LDConfig \<Rightarrow> LDUser \<Rightarrow> LDClient \<Rightarrow> int \<Rightarrow> net \<Rightarrow> (int \<times> cstring \<times> net) cmd" where
  "LDi_fetchfeaturemap lib config user client response s =
     cbind (ctry (LDi_serializeUser user)) (\<lambda>r.
     case r of
       None \<Rightarrow> cret (response, None, s)
     | Some userJSONText \<Rightarrow>
         cbind (ctry (request_url config (appURI config) ''/msdk/evalx/user'' ''/msdk/evalx/users/'' userJSONText)) (\<lambda>r.
         case r of
           None \<Rightarrow> cret (response, None, s)
         | Some url \<Rightarrow>
             cbind (prepareShared lib url config WriteMemory client s) (\<lambda>(r, s).
             case r of
               None \<Rightarrow> cret (response, None, s)
             | Some (curl, headerlist) \<Rightarrow>
                 (case report_options lib config userJSONText curl headerlist s of
                    (None, headerlist, s) \<Rightarrow>
                      cbind (release (Some curl) headerlist s) (\<lambda>s. cret (response, None, s))
                  | (Some curl, headerlist, s) \<Rightarrow>
                      (case setopts lib curl
                              [CURLOPT_HTTPHEADER headerlist, CURLOPT_TIMEOUT_MS (requestTimeoutMillis config)] of
                         None \<Rightarrow> cbind (release (Some curl) headerlist s) (\<lambda>s. cret (response, None, s))
                       | Some curl \<Rightarrow>
                           (case send_request lib curl s of
                              (answer, s) \<Rightarrow>
                                cbind (memory_perform (an_result answer) (an_events answer)
                                  \<lparr>ms_memory = None, ms_size = 0\<rparr> \<lparr>ms_memory = None, ms_size = 0\<rparr>) (\<lambda>(res, headers, data).
                                cbind (release (Some curl) headerlist s) (\<lambda>s.
                                  cret (if res = 0 then an_response_code answer else - 1,
                                        ms_memory data, s)))))))))"

definition LD_PAYLOAD_ID_HEADER :: string where
  "LD_PAYLOAD_ID_HEADER = ''X-LaunchDarkly-Payload-ID: ''"

text \<open>The three headers of a batch of events; \<open>sizeof\<close> of the prefix counts its terminator.\<close>

definition event_headers ::
  "curl_lib \<Rightarrow> string list \<Rightarrow> string \<Rightarrow> net \<Rightarrow> string list \<times> bool \<times> net" where
  "event_headers lib headerlist payloadUUID s =
     (case curl_slist_append lib headerlist ''Content-Type: application/json'' s of
        (None, s) \<Rightarrow> (headerlist, False, s)
      | (Some headerlist, s) \<Rightarrow>
          (case curl_slist_append lib headerlist ''X-LaunchDarkly-Event-Schema: 3'' s of
             (None, s) \<Rightarrow> (headerlist, False, s)
           | (Some headerlist, s) \<Rightarrow>
               (let size = length LD_PAYLOAD_ID_HEADER + 1 + LD_UUID_SIZE in
                case snprintf size (LD_PAYLOAD_ID_HEADER @ payloadUUID) of
                  (len, payloadIdHeader) \<Rightarrow>
                    if len \<noteq> int size - 1 then (headerlist, False, s)
                    else
                      (case curl_slist_append lib headerlist payloadIdHeader s of
                         (None, s) \<Rightarrow> (headerlist, False, s)
                       | (Some headerlist, s) \<Rightarrow> (headerlist, True, s)))))"

definition LDi_sendevents ::
  "curl_lib \<Rightarrow> LDConfig \<Rightarrow> LDClient \<Rightarrow> string \<Rightarrow> string \<Rightarrow> int \<Rightarrow> net \<Rightarrow> (int \<times> net) cmd" where
  "LDi_sendevents lib config client eventdata payloadUUID response s =
     cbind (percent_s (eventsURI config)) (\<lambda>uri.
     case snprintf 4096 (uri @ ''/mobile'') of
       (status, url) \<Rightarrow>
         if status < 0 then cret (response, s)
         else
           cbind (prepareShared lib url config WriteMemory client s) (\<lambda>(r, s).
           case r of
             None \<Rightarrow> cret (response, s)
           | Some (curl, headerlist) \<Rightarrow>
               (case event_headers lib headerlist payloadUUID s of
                  (headerlist, ok, s) \<Rightarrow>
                    if \<not> ok then cbind (release (Some curl) headerlist s) (\<lambda>s. cret (response, s))
                    else
                      (case setopts lib curl
                              [CURLOPT_HTTPHEADER headerlist, CURLOPT_POSTFIELDS eventdata,
                               CURLOPT_TIMEOUT_MS (requestTimeoutMillis config)] of
                         None \<Rightarrow> cbind (release (Some curl) headerlist s) (\<lambda>s. cret (response, s))
                       | Some curl \<Rightarrow>
                           (case send_request lib curl s of
                              (answer, s) \<Rightarrow>
                                cbind (memory_perform (an_result answer) (an_events answer)
                                  \<lparr>ms_memory = None, ms_size = 0\<rparr> \<lparr>ms_memory = None, ms_size = 0\<rparr>) (\<lambda>(res, _).
                                cbind (release (Some curl) headerlist s) (\<lambda>s.
                                  cret (if res = 0 then an_response_code answer else - 1, s))))))))"

section \<open>Lemmas: addresses\<close>

text \<open>The address that is meant, without the limit of the buffer.\<close>

definition base_url :: "LDConfig \<Rightarrow> string \<Rightarrow> string \<Rightarrow> string \<Rightarrow> string \<Rightarrow> string" where
  "base_url config uri report_path user_path userJSONText =
     uri @ (if useReport config then report_path else user_path @ base64_text (map of_char userJSONText))"

definition full_url :: "LDConfig \<Rightarrow> string \<Rightarrow> string \<Rightarrow> string \<Rightarrow> string \<Rightarrow> string" where
  "full_url config uri report_path user_path userJSONText =
     base_url config uri report_path user_path userJSONText @
     (if useReasons config then ''?withReasons=true'' else [])"

lemma cret_bind [simp]: "cbind (cret a) f = f a"
  by (simp add: cbind_def cret_def fun_eq_iff)

lemma percent_s_Some [simp]: "percent_s (Some t) = cret t"
  by (simp add: percent_s_def)

lemma snprintf_append:
  "snd (snprintf 4096 b) @ take (4096 - length (snd (snprintf 4096 b)) - 1) r = take 4095 (b @ r)"
  if "int (length b) \<le> INT_MAX"
  using that by (simp add: snprintf_def min_def)

lemma reasons_step:
  assumes "0 \<le> fst (snprintf 4096 (base_url config uri rp up t))"
  shows "(case snprintf 4096 (base_url config uri rp up t) of (status, url) \<Rightarrow>
      if status < 0 then cnull
      else if useReasons config then
        (case snprintf (4096 - length url) ''?withReasons=true'' of
           (status, rest) \<Rightarrow> if status < 0 then cnull else cret (url @ rest))
      else cret url) = cret (take 4095 (full_url config uri rp up t))"
proof -
  let ?b = "base_url config uri rp up t"
  have b: "int (length ?b) \<le> INT_MAX" using assms by (simp add: snprintf_def split: if_splits)
  have "snprintf (4096 - length (take 4095 ?b)) ''?withReasons=true'' =
      (17, take (4096 - length (take 4095 ?b) - 1) ''?withReasons=true'')"
    by (simp add: snprintf_def INT_MAX_def)
  with snprintf_append[OF b] b show ?thesis by (simp add: snprintf_def full_url_def)
qed

lemma ensures_request_url:
  assumes "length t < 2 ^ 64"
  shows "ensures (request_url config (Some uri) rp up t) (\<lambda>url. url = take 4095 (full_url config uri rp up t))"
proof -
  let ?b = "base_url config uri rp up t"
  have base: "ensures (if useReport config then cbind (percent_s (Some uri)) (\<lambda>u. cret (snprintf 4096 (u @ rp)))
      else cbind (LDi_base64_encode t) (\<lambda>b64text.
        cbind (percent_s (Some uri)) (\<lambda>u. cret (snprintf 4096 (u @ up @ b64text))))) (\<lambda>r. r = snprintf 4096 ?b)"
    using outcome_ensures[OF LDi_base64_encode_spec[OF assms]]
    by (auto intro!: ensures_cbind[of "LDi_base64_encode _"] simp: base_url_def)
  show ?thesis
    unfolding request_url_def
  proof (rule ensures_cbind[OF base])
    fix r
    assume "r = snprintf 4096 ?b"
    with reasons_step[of config uri rp up t]
    show "ensures (case r of (status, url) \<Rightarrow>
        if status < 0 then cnull
        else if useReasons config then
          (case snprintf (4096 - length url) ''?withReasons=true'' of
             (status, rest) \<Rightarrow> if status < 0 then cnull else cret (url @ rest))
        else cret url) (\<lambda>url. url = take 4095 (full_url config uri rp up t))"
      by (cases "0 \<le> fst r") (auto split: prod.splits)
  qed
qed

lemma request_url_ok:
  assumes "length t < 2 ^ 62" and "int (length (full_url config uri rp up t)) \<le> INT_MAX"
  shows "request_url config (Some uri) rp up t [] = (Val (take 4095 (full_url config uri rp up t)), [])"
proof -
  have "LDi_base64_encode t [] = (Val (base64_text (map of_char t)), [])"
    using LDi_base64_encode_spec[of t] assms(1) by (intro outcome_value) simp
  then have "(if useReport config then cbind (percent_s (Some uri)) (\<lambda>u. cret (snprintf 4096 (u @ rp)))
      else cbind (LDi_base64_encode t) (\<lambda>b64text.
        cbind (percent_s (Some uri)) (\<lambda>u. cret (snprintf 4096 (u @ up @ b64text))))) [] =
      (Val (snprintf 4096 (base_url config uri rp up t)), [])"
    by (simp add: base_url_def alloc_ok)
  moreover have "0 \<le> fst (snprintf 4096 (base_url config uri rp up t))"
    using assms(2) by (simp add: full_url_def snprintf_def)
  ultimately show ?thesis
    unfolding request_url_def by (simp only: cbind_ok reasons_step) (simp add: alloc_ok)
qed

section \<open>Lemmas: preparation\<close>

lemma setopts_Some: "setopts lib curl opts = Some curl' \<Longrightarrow> curl' = curl @ opts"
  by (induction opts arbitrary: curl) (fastforce simp: curl_easy_setopt_def split: option.splits if_splits)+

lemma setopts_all: "(\<And>opt. lib_setopt lib opt) \<Longrightarrow> setopts lib curl opts = Some (curl @ opts)"
  by (induction opts arbitrary: curl) (auto simp: curl_easy_setopt_def)

declare setopts.simps [simp del]

definition auth_header :: "string \<Rightarrow> string" where
  "auth_header key = take 255 (''Authorization: '' @ key)"

definition opened :: "net \<Rightarrow> net" where
  "opened s = s\<lparr>net_handles := Suc (net_handles s), net_slists := Suc (net_slists s)\<rparr>"

lemma release_opened: "headers \<noteq> [] \<Longrightarrow> release (Some curl) headers (opened s) = cret s"
  by (simp add: release_def opened_def curl_slist_free_all_def curl_easy_cleanup_def cbind_def cret_def fun_eq_iff)

lemma prepareShared_spec:
  assumes "cl_mobileKey client = Some key"
  shows "prepareShared lib url config datacb client s = cret (None, s) \<or>
    prepareShared lib url config datacb client s =
      cret (Some (CURLOPT_URL url # shared_options config datacb, [auth_header key, LD_USER_AGENT_HEADER]), opened s)"
  unfolding prepareShared_def Let_def assms percent_s_Some cret_bind
  by (auto simp: curl_easy_init_def curl_easy_setopt_def curl_easy_cleanup_def curl_slist_free_all_def
      curl_slist_append_def snprintf_def opened_def auth_header_def
      split: option.split dest!: setopts_Some)

lemma prepareShared_ok:
  assumes "cl_mobileKey client = Some key" and "lib_init lib" and "\<And>opt. lib_setopt lib opt" and "\<And>h. lib_append lib h"
    and "int (length key) \<le> INT_MAX - 15"
  shows "prepareShared lib url config datacb client s =
    cret (Some (CURLOPT_URL url # shared_options config datacb, [auth_header key, LD_USER_AGENT_HEADER]), opened s)"
  unfolding prepareShared_def Let_def assms(1) percent_s_Some cret_bind
  using assms(2-5)
  by (auto simp: curl_easy_init_def curl_easy_setopt_def curl_slist_append_def snprintf_def
      setopts_all opened_def auth_header_def)

text \<open>The options and the header that carry the user in the body.\<close>

definition report_part :: "LDConfig \<Rightarrow> string \<Rightarrow> curl_option list" where
  "report_part config t =
     (if useReport config then [CURLOPT_CUSTOMREQUEST ''REPORT'', CURLOPT_POSTFIELDS t] else [])"

definition report_header :: "LDConfig \<Rightarrow> string list" where
  "report_header config = (if useReport config then [''Content-Type: application/json''] else [])"

lemma report_options_spec:
  assumes "headers \<noteq> []"
  shows "(\<exists>hs. report_options lib config t curl headers s = (None, hs, s) \<and> hs \<noteq> []) \<or>
    report_options lib config t curl headers s = (Some (curl @ report_part config t), headers @ report_header config, s)"
  using assms
  by (auto simp: report_options_def curl_easy_setopt_def curl_slist_append_def report_part_def report_header_def)

lemma report_options_ok:
  assumes "headers \<noteq> []" and "\<And>opt. lib_setopt lib opt" and "\<And>h. lib_append lib h"
  shows "report_options lib config t curl headers s = (Some (curl @ report_part config t), headers @ report_header config, s)"
  using assms
  by (auto simp: report_options_def curl_easy_setopt_def curl_slist_append_def report_part_def report_header_def)

section \<open>Lemmas: collecting an answer\<close>

fun bodies :: "curl_event list \<Rightarrow> string list" where
  "bodies [] = []"
| "bodies (Body b # evs) = b # bodies evs"
| "bodies (_ # evs) = bodies evs"

text \<open>
  What libcurl documents of the pieces it hands over: the header callback gets complete header lines,
  and the callback for the body is called with no bytes only if the body is empty.
\<close>

definition proper_answer :: "curl_event list \<Rightarrow> bool" where
  "proper_answer evs \<longleftrightarrow> Header [] \<notin> set evs \<and> ([] \<in> set (bodies evs) \<longrightarrow> concat (bodies evs) = [])"

definition ms_ok :: "MemoryStruct \<Rightarrow> bool" where
  "ms_ok mem \<longleftrightarrow> (case ms_memory mem of None \<Rightarrow> ms_size mem = 0 | Some t \<Rightarrow> ms_size mem = length t)"

lemma ensures_ctry: "ensures c Q \<Longrightarrow> ensures (ctry c) (\<lambda>r. case r of None \<Rightarrow> True | Some a \<Rightarrow> Q a)"
  unfolding ensures_def ctry_def by (auto split: result.splits prod.splits) (metis fst_conv result.simps(10,11,12))+

lemma ms_ok_empty [simp]: "ms_ok \<lparr>ms_memory = None, ms_size = 0\<rparr>"
  by (simp add: ms_ok_def)

lemma WriteMemoryCallback_safe:
  assumes "ms_ok mem" and "b \<noteq> [] \<or> ms_size mem = 0"
  shows "ensures (WriteMemoryCallback b mem) (\<lambda>(n, mem'). n = length b \<longrightarrow> ms_ok mem' \<and> ms_size mem' = ms_size mem + length b)"
  unfolding WriteMemoryCallback_def
  by (rule ensures_cbind[OF ensures_ctry[OF ensures_LDAlloc]])
    (use assms in \<open>auto simp: ms_ok_def split: option.splits\<close>)

lemma memory_perform_safe_step:
  "Header [] \<notin> set evs \<Longrightarrow> ms_ok headers \<Longrightarrow> ms_ok data \<Longrightarrow>
   [] \<notin> set (bodies evs) \<or> ms_size data = 0 \<and> concat (bodies evs) = [] \<Longrightarrow>
   ensures (memory_perform res evs headers data) (\<lambda>_. True)"
proof (induction res evs headers data rule: memory_perform.induct)
  case (2 res h evs headers data)
  show ?case
    unfolding memory_perform.simps
    by (rule ensures_cbind[OF WriteMemoryCallback_safe[of headers h]]) (use 2 in auto)
next
  case (3 res b evs headers data)
  show ?case
    unfolding memory_perform.simps
    by (rule ensures_cbind[OF WriteMemoryCallback_safe[of data b]]) (use 3 in auto)
qed auto

lemma memory_perform_safe:
  "proper_answer evs \<Longrightarrow>
   ensures (memory_perform res evs \<lparr>ms_memory = None, ms_size = 0\<rparr> \<lparr>ms_memory = None, ms_size = 0\<rparr>) (\<lambda>_. True)"
  by (rule memory_perform_safe_step) (auto simp: proper_answer_def)

definition grown :: "MemoryStruct \<Rightarrow> string \<Rightarrow> MemoryStruct" where
  "grown mem b = \<lparr>ms_memory = Some ((case ms_memory mem of None \<Rightarrow> [] | Some t \<Rightarrow> t) @ b), ms_size = ms_size mem + length b\<rparr>"

lemma ms_ok_grown: "ms_ok mem \<Longrightarrow> ms_ok (grown mem b)"
  by (auto simp: ms_ok_def grown_def split: option.splits)

lemma WriteMemoryCallback_ok [alloc_ok]:
  "ms_ok mem \<Longrightarrow> WriteMemoryCallback b mem [] = (Val (length b, grown mem b), [])"
  by (auto simp: WriteMemoryCallback_def ms_ok_def alloc_ok grown_def split: option.splits)

text \<open>With memory available the body is collected completely.\<close>

lemma memory_perform_ok:
  "ms_ok headers \<Longrightarrow> ms_ok data \<Longrightarrow>
   \<exists>headers' data'. memory_perform res evs headers data [] = (Val (res, headers', data'), []) \<and>
     ms_memory data' = (if bodies evs = [] then ms_memory data
       else Some ((case ms_memory data of None \<Rightarrow> [] | Some t \<Rightarrow> t) @ concat (bodies evs)))"
proof (induction evs arbitrary: headers data)
  case (Cons ev evs)
  show ?case
  proof (cases ev)
    case (Header h)
    have "memory_perform res (ev # evs) headers data [] = memory_perform res evs (grown headers h) data []"
      "bodies (ev # evs) = bodies evs"
      using Cons.prems by (simp_all add: Header alloc_ok)
    with Cons.IH[OF ms_ok_grown[OF Cons.prems(1), of h] Cons.prems(2)] show ?thesis by (simp only:)
  next
    case (Body b)
    with Cons.IH[OF Cons.prems(1) ms_ok_grown[OF Cons.prems(2), of b]] Cons.prems show ?thesis
      by (simp add: alloc_ok) (auto simp: grown_def)
  qed (use Cons in auto)
qed (auto simp: alloc_ok)

section \<open>Lemmas: requests\<close>

definition serialized :: "LDUser \<Rightarrow> string \<Rightarrow> bool" where
  "serialized user t \<longleftrightarrow> (\<exists>m m'. LDi_serializeUser user m = (Val t, m'))"

lemma serializeUser_serialized:
  "ensures (LDi_serializeUser user) (\<lambda>t. length t < 2 ^ 64 \<and> serialized user t)"
  using LDi_serializeUser_length[of user] unfolding ensures_iff serialized_def
  by (fastforce simp: INT_MAX_def)

text \<open>A request as a whole.\<close>

definition fetch_request :: "LDConfig \<Rightarrow> string \<Rightarrow> string \<Rightarrow> string \<Rightarrow> curl" where
  "fetch_request config key uri t =
     CURLOPT_URL (take 4095 (full_url config uri ''/msdk/evalx/user'' ''/msdk/evalx/users/'' t)) #
     shared_options config WriteMemory @ report_part config t @
     [CURLOPT_HTTPHEADER ([auth_header key, LD_USER_AGENT_HEADER] @ report_header config),
      CURLOPT_TIMEOUT_MS (requestTimeoutMillis config)]"

definition stream_request :: "LDConfig \<Rightarrow> string \<Rightarrow> string \<Rightarrow> string \<Rightarrow> curl" where
  "stream_request config key uri t =
     CURLOPT_URL (take 4095 (full_url config uri ''/meval'' ''/meval/'' t)) #
     shared_options config StreamWrite @ report_part config t @
     [CURLOPT_OPENSOCKETFUNCTION, CURLOPT_OPENSOCKETDATA,
      CURLOPT_HTTPHEADER ([auth_header key, LD_USER_AGENT_HEADER] @ report_header config),
      CURLOPT_NOPROGRESS 0, CURLOPT_XFERINFODATA, CURLOPT_XFERINFOFUNCTION]"

definition event_request :: "LDConfig \<Rightarrow> string \<Rightarrow> string \<Rightarrow> string \<Rightarrow> string \<Rightarrow> curl" where
  "event_request config key uri eventdata payloadUUID =
     CURLOPT_URL (take 4095 (uri @ ''/mobile'')) # shared_options config WriteMemory @
     [CURLOPT_HTTPHEADER [auth_header key, LD_USER_AGENT_HEADER, ''Content-Type: application/json'',
        ''X-LaunchDarkly-Event-Schema: 3'', LD_PAYLOAD_ID_HEADER @ payloadUUID],
      CURLOPT_POSTFIELDS eventdata, CURLOPT_TIMEOUT_MS (requestTimeoutMillis config)]"

definition requested :: "net \<Rightarrow> curl \<Rightarrow> net" where
  "requested s curl = s\<lparr>net_requests := net_requests s @ [curl]\<rparr>"

lemma send_request_opened: "send_request lib curl (opened s) = (lib_answer lib curl, opened (requested s curl))"
  by (simp add: send_request_def opened_def requested_def)

definition lib_proper :: "curl_lib \<Rightarrow> bool" where
  "lib_proper lib \<longleftrightarrow> (\<forall>curl. proper_answer (an_events (lib_answer lib curl)))"

lemma fetch_spec:
  assumes "cl_mobileKey client = Some key" and "appURI config = Some uri" and "lib_proper lib"
  shows "ensures (LDi_fetchfeaturemap lib config user client response s)
    (\<lambda>(_, _, s'). s' = s \<or> (\<exists>t. serialized user t \<and> s' = requested s (fetch_request config key uri t)))"
  unfolding LDi_fetchfeaturemap_def assms(2)
proof (rule ensures_cbind[OF ensures_ctry[OF serializeUser_serialized]], goal_cases)
  case (1 r)
  show ?case
  proof (cases r)
    case (Some t)
    with 1 have t: "length t < 2 ^ 64" "serialized user t" by auto
    show ?thesis
      unfolding Some option.case
    proof (rule ensures_cbind[OF ensures_ctry[OF ensures_request_url[OF t(1)]]], goal_cases)
      case (1 r)
      show ?case
      proof (cases r)
        case (Some url)
        with 1 have url: "url = take 4095 (full_url config uri ''/msdk/evalx/user'' ''/msdk/evalx/users/'' t)" by simp
        let ?hs = "[auth_header key, LD_USER_AGENT_HEADER]"
        let ?curl = "CURLOPT_URL url # shared_options config WriteMemory"
        from prepareShared_spec[OF assms(1), of lib url config WriteMemory s]
          report_options_spec[of ?hs lib config t ?curl "opened s"]
        show ?thesis
          unfolding Some option.case
          by (auto simp: release_opened send_request_opened fetch_request_def url[symmetric] t(2)
              split: option.split dest!: setopts_Some
              intro!: ensures_cbind[OF memory_perform_safe] exI[of _ t])
            (use assms(3) in \<open>auto simp: lib_proper_def\<close>)
      qed simp
    qed
  qed simp
qed

lemma event_headers_spec:
  assumes "headers \<noteq> []"
  shows "(\<exists>hs. event_headers lib headers uuid s = (hs, False, s) \<and> hs \<noteq> []) \<or>
    event_headers lib headers uuid s = (headers @ [''Content-Type: application/json'',
        ''X-LaunchDarkly-Event-Schema: 3'', LD_PAYLOAD_ID_HEADER @ uuid], True, s)"
  using assms
  by (auto simp: event_headers_def curl_slist_append_def snprintf_def LD_UUID_SIZE_def LD_PAYLOAD_ID_HEADER_def Let_def)

lemma sendevents_spec:
  assumes "cl_mobileKey client = Some key" and "eventsURI config = Some uri" and "lib_proper lib"
  shows "ensures (LDi_sendevents lib config client eventdata uuid response s)
    (\<lambda>(_, s'). s' = s \<or> s' = requested s (event_request config key uri eventdata uuid))"
proof -
  let ?url = "take 4095 (uri @ ''/mobile'')"
  let ?hs = "[auth_header key, LD_USER_AGENT_HEADER]"
  let ?curl = "CURLOPT_URL ?url # shared_options config WriteMemory"
  from prepareShared_spec[OF assms(1), of lib ?url config WriteMemory s] event_headers_spec[of ?hs lib uuid "opened s"]
  show ?thesis
    unfolding LDi_sendevents_def assms(2) percent_s_Some cret_bind
    by (auto simp: snprintf_def release_opened send_request_opened event_request_def
        split: option.split dest!: setopts_Some intro!: ensures_cbind[OF memory_perform_safe])
      (use assms(3) in \<open>auto simp: lib_proper_def\<close>)
qed

section \<open>The contract of a stream handler\<close>

text \<open>
  What the transport relies on in the code that consumes the stream: it is a client of the event
  parser, and it never shuts the client down (only closing the client does).
\<close>

abbreviation running :: "LDClient \<Rightarrow> bool" where
  "running client \<equiv> cl_status client \<noteq> LDStatusShuttingdown"

text \<open>Progress that is never taken for a stalled stream, in an answer of headers and data.\<close>

fun lively :: "double \<Rightarrow> int \<Rightarrow> curl_event list \<Rightarrow> bool" where
  "lively since amt [] \<longleftrightarrow> True"
| "lively since amt (Header _ # evs) \<longleftrightarrow> lively since amt evs"
| "lively since amt (Body _ # evs) \<longleftrightarrow> lively since amt evs"
| "lively since amt (Progress now dlnow # evs) \<longleftrightarrow>
     (if dlnow = amt then now - since \<le> LD_STREAMTIMEOUT_MS \<and> lively since amt evs else lively now dlnow evs)"
| "lively since amt (_ # evs) \<longleftrightarrow> False"

locale stream_handler = sse_client dispatch
  for dispatch :: "LDClient ld_sse_dispatch" +
  assumes dispatch_running: "running client \<Longrightarrow> yields (dispatch name body client) (\<lambda>(_, client'). running client')"
begin

lemma processLine_running:
  assumes "running (sse_context p)"
  shows "yields (LDi_processLine dispatch p line) (\<lambda>(_, p'). running (sse_context p'))"
proof -
  have "yields (if sse_eventName p = None then cret (True, sse_context p)
      else if sse_eventBody p = None then cret (True, sse_context p)
      else dispatch (the (sse_eventName p)) (the (sse_eventBody p)) (sse_context p)) (\<lambda>(_, c). running c)"
    using assms dispatch_running by simp
  from yields_cbind[OF this, of "\<lambda>(status, context). cret (status, \<lparr>sse_eventName = None, sse_eventBody = None, sse_context = context\<rparr>)"]
  have "yields (LDi_processLine dispatch p []) (\<lambda>(_, p'). running (sse_context p'))"
    unfolding LDi_processLine_def by (auto split: prod.splits)
  moreover have "yields (LDi_processLine dispatch p line) (\<lambda>(_, p'). running (sse_context p'))" if "line \<noteq> []"
    unfolding LDi_processLine_def using assms that by (auto intro!: yields_any)
  ultimately show ?thesis by (cases "line = []") auto
qed

lemma sse_loop_running:
  "running (sse_context p) \<Longrightarrow> yields (sse_loop dispatch before rest p) (\<lambda>(_, q). running (sse_context (sse_pending q)))"
proof (induction "length rest" arbitrary: before rest p rule: less_induct)
  case less
  have "nl \<in> set rest \<Longrightarrow> length (after_line rest) < length rest"
    using line_fits[of rest] by simp
  with less show ?case
    by (subst sse_loop.simps) (auto simp: Let_def intro!: yields_cbind[OF processLine_running])
qed

lemma process_running:
  "running (sse_context (sse_pending p)) \<Longrightarrow>
   yields (LDSSEParserProcess dispatch p b) (\<lambda>(_, q). running (sse_context (sse_pending q)))"
  unfolding LDSSEParserProcess_def by (auto intro!: yields_any sse_loop_running)

text \<open>A lively answer hands the body to the parser piece by piece, and nothing else.\<close>

lemma stream_perform_ok:
  assumes "lively since amt evs" and "running (sse_context (sse_pending p))" and "ms_ok hs"
    and "sse_feed dispatch p (bodies evs) [] = (Val (True, p'), [])"
  shows "\<exists>sd. stream_perform dispatch res evs \<lparr>sd_headers = hs, sd_lastdatatime = since, sd_lastdataamt = amt, sd_parser = p\<rparr> [] =
      (Val (res, sd), []) \<and> sd_parser sd = p'"
  using assms
proof (induction since amt evs arbitrary: p hs rule: lively.induct)
  case (1 since amt)
  then show ?case by (simp add: cret_def)
next
  case (2 since amt h evs)
  then show ?case using ms_ok_grown[of hs h] by (simp add: alloc_ok)
next
  case (3 since amt b evs)
  obtain r where r: "LDSSEParserProcess dispatch p b [] = (r, [])"
    using process_mem[of p b] by (cases "LDSSEParserProcess dispatch p b []") auto
  with 3(5) obtain q where q: "r = Val (True, q)" "sse_feed dispatch q (bodies evs) [] = (Val (True, p'), [])"
    by (cases r) (auto simp: cbind_def cret_def split: if_splits)
  have "running (sse_context (sse_pending q))"
    using process_running[OF 3(3), of b] r q(1) by (auto simp: yields_def)
  with 3(1)[OF _ this 3(4) q(2)] 3(2) r q(1) show ?case
    by (simp add: StreamWriteCallback_def alloc_ok)
next
  case (4 since amt now dlnow evs)
  then show ?case by (cases "dlnow = amt") (simp_all add: ProgressCallback_def sd_client_def)
qed simp_all

end

lemma updatestatus_running [simp]: "running (LDi_updatestatus callback client st) \<longleftrightarrow> st \<noteq> LDStatusShuttingdown"
  by (auto simp: LDi_updatestatus_def)

lemma onEvent_running:
  assumes "running client"
  shows "yields (LDi_onEvent callback garbage name body client) (\<lambda>(_, client'). running client')"
proof -
  have "yields (LDi_onstreameventput callback client body) (\<lambda>(_, c). running c)"
    unfolding LDi_onstreameventput_def using assms by (auto intro!: yields_any split: option.split)
  moreover have "yields (LDi_onstreameventpatch client body) running"
    unfolding LDi_onstreameventpatch_def using assms by (auto intro!: yields_any split: option.split)
  moreover have "yields (LDi_onstreameventdelete garbage client body) running"
    unfolding LDi_onstreameventdelete_def Let_def using assms by (auto intro!: yields_any)
  ultimately show ?thesis
    unfolding LDi_onEvent_def using assms by (auto elim!: yields_cbind)
qed

interpretation onstream: stream_handler "LDi_onEvent callback garbage" for callback garbage
  by unfold_locales (rule onEvent_running)

section \<open>Lemmas: successful requests\<close>

definition lib_works :: "curl_lib \<Rightarrow> bool" where
  "lib_works lib \<longleftrightarrow> lib_init lib \<and> (\<forall>opt. lib_setopt lib opt) \<and> (\<forall>h. lib_append lib h)"

lemma fetch_ok:
  assumes lib: "lib_works lib" and key: "cl_mobileKey client = Some key" "int (length key) \<le> INT_MAX - 15"
    and uri: "appURI config = Some uri" and t: "LDi_serializeUser user [] = (Val t, [])"
    and url: "int (length (full_url config uri ''/msdk/evalx/user'' ''/msdk/evalx/users/'' t)) \<le> INT_MAX"
    and answer: "lib_answer lib (fetch_request config key uri t) = answer" "an_result answer = 0"
  shows "LDi_fetchfeaturemap lib config user client response s [] =
    (Val (an_response_code answer, if bodies (an_events answer) = [] then None else Some (concat (bodies (an_events answer))),
          requested s (fetch_request config key uri t)), [])"
proof -
  have all: "lib_init lib" "\<And>opt. lib_setopt lib opt" "\<And>h. lib_append lib h" using lib by (auto simp: lib_works_def)
  have "int (length t) \<le> INT_MAX" using ensures_Val[OF LDi_serializeUser_length t] .
  then have u: "request_url config (Some uri) ''/msdk/evalx/user'' ''/msdk/evalx/users/'' t [] =
      (Val (take 4095 (full_url config uri ''/msdk/evalx/user'' ''/msdk/evalx/users/'' t)), [])"
    using url by (intro request_url_ok) (auto simp: INT_MAX_def)
  obtain hs data where p: "memory_perform 0 (an_events answer) \<lparr>ms_memory = None, ms_size = 0\<rparr> \<lparr>ms_memory = None, ms_size = 0\<rparr> [] =
      (Val (0, hs, data), [])"
      "ms_memory data = (if bodies (an_events answer) = [] then None else Some (concat (bodies (an_events answer))))"
    using memory_perform_ok[OF ms_ok_empty ms_ok_empty, of 0 "an_events answer"] by auto
  have req: "CURLOPT_URL (take 4095 (full_url config uri ''/msdk/evalx/user'' ''/msdk/evalx/users/'' t)) #
      (shared_options config WriteMemory @ report_part config t @
       [CURLOPT_HTTPHEADER (auth_header key # LD_USER_AGENT_HEADER # report_header config),
        CURLOPT_TIMEOUT_MS (requestTimeoutMillis config)]) = fetch_request config key uri t"
    by (simp add: fetch_request_def)
  show ?thesis
    unfolding LDi_fetchfeaturemap_def uri
    by (simp add: t u alloc_ok prepareShared_ok[OF key(1) all key(2)] report_options_ok[OF _ all(2,3)]
        setopts_all[OF all(2)] send_request_opened req answer p release_opened)
qed

lemma sendevents_ok:
  assumes lib: "lib_works lib" and key: "cl_mobileKey client = Some key" "int (length key) \<le> INT_MAX - 15"
    and uri: "eventsURI config = Some uri" "int (length uri) \<le> INT_MAX - 7" and uuid: "length uuid = LD_UUID_SIZE"
    and answer: "lib_answer lib (event_request config key uri eventdata uuid) = answer" "an_result answer = 0"
  shows "LDi_sendevents lib config client eventdata uuid response s [] =
    (Val (an_response_code answer, requested s (event_request config key uri eventdata uuid)), [])"
proof -
  have all: "lib_init lib" "\<And>opt. lib_setopt lib opt" "\<And>h. lib_append lib h" using lib by (auto simp: lib_works_def)
  obtain hs data where p: "memory_perform 0 (an_events answer) \<lparr>ms_memory = None, ms_size = 0\<rparr> \<lparr>ms_memory = None, ms_size = 0\<rparr> [] =
      (Val (0, hs, data), [])"
    using memory_perform_ok[OF ms_ok_empty ms_ok_empty, of 0 "an_events answer"] by auto
  have headers: "event_headers lib [auth_header key, LD_USER_AGENT_HEADER] uuid (opened s) =
      ([auth_header key, LD_USER_AGENT_HEADER, ''Content-Type: application/json'',
        ''X-LaunchDarkly-Event-Schema: 3'', LD_PAYLOAD_ID_HEADER @ uuid], True, opened s)"
    using all(3) uuid
    by (simp add: event_headers_def curl_slist_append_def snprintf_def LD_UUID_SIZE_def LD_PAYLOAD_ID_HEADER_def Let_def INT_MAX_def)
  have u: "snprintf 4096 (uri @ ''/mobile'') = (int (length uri) + 7, take 4095 (uri @ ''/mobile''))"
    using uri(2) by (simp add: snprintf_def INT_MAX_def)
  have req: "CURLOPT_URL (take 4095 (uri @ ''/mobile'')) # (shared_options config WriteMemory @
     [CURLOPT_HTTPHEADER [auth_header key, LD_USER_AGENT_HEADER, ''Content-Type: application/json'',
        ''X-LaunchDarkly-Event-Schema: 3'', LD_PAYLOAD_ID_HEADER @ uuid],
      CURLOPT_POSTFIELDS eventdata, CURLOPT_TIMEOUT_MS (requestTimeoutMillis config)]) = event_request config key uri eventdata uuid"
    by (simp add: event_request_def)
  show ?thesis
    unfolding LDi_sendevents_def uri(1) percent_s_Some cret_bind u prod.case
    by (simp add: alloc_ok prepareShared_ok[OF key(1) all key(2)] headers setopts_all[OF all(2)]
        send_request_opened req answer p release_opened del: take_append)
qed

lemma readstream_ok:
  assumes lib: "lib_works lib" and key: "cl_mobileKey (sse_context (sse_pending p)) = Some key" "int (length key) \<le> INT_MAX - 15"
    and uri: "streamURI config = Some uri" and t: "LDi_serializeUser user [] = (Val t, [])"
    and url: "int (length (full_url config uri ''/meval'' ''/meval/'' t)) \<le> INT_MAX"
    and answer: "lib_answer lib (stream_request config key uri t) = answer"
    and perform: "stream_perform dispatch (an_result answer) (an_events answer)
      \<lparr>sd_headers = \<lparr>ms_memory = None, ms_size = 0\<rparr>, sd_lastdatatime = now, sd_lastdataamt = 0, sd_parser = p\<rparr> [] = (Val (res, sd), [])"
  shows "LDi_readstream lib config user dispatch now response p s [] =
    (Val (if res = 0 then an_response_code answer else res, sd_parser sd, requested s (stream_request config key uri t)), [])"
proof -
  have all: "lib_init lib" "\<And>opt. lib_setopt lib opt" "\<And>h. lib_append lib h" using lib by (auto simp: lib_works_def)
  have "int (length t) \<le> INT_MAX" using ensures_Val[OF LDi_serializeUser_length t] .
  then have u: "request_url config (Some uri) ''/meval'' ''/meval/'' t [] =
      (Val (take 4095 (full_url config uri ''/meval'' ''/meval/'' t)), [])"
    using url by (intro request_url_ok) (auto simp: INT_MAX_def)
  have req: "CURLOPT_URL (take 4095 (full_url config uri ''/meval'' ''/meval/'' t)) #
      (shared_options config StreamWrite @ report_part config t @
       [CURLOPT_OPENSOCKETFUNCTION, CURLOPT_OPENSOCKETDATA,
        CURLOPT_HTTPHEADER (auth_header key # LD_USER_AGENT_HEADER # report_header config),
        CURLOPT_NOPROGRESS 0, CURLOPT_XFERINFODATA, CURLOPT_XFERINFOFUNCTION]) = stream_request config key uri t"
    by (simp add: stream_request_def)
  show ?thesis
    unfolding LDi_readstream_def uri Let_def
    by (simp add: t u alloc_ok prepareShared_ok[OF key(1) all key(2)] report_options_ok[OF _ all(2,3)]
        setopts_all[OF all(2)] send_request_opened req answer perform release_opened)
qed

section \<open>Properties\<close>

definition plain_user :: LDUser where
  "plain_user =
     \<lparr>user_key = Some ''u'', user_anonymous = False, user_secondary = None, user_ip = None,
      user_firstName = None, user_lastName = None, user_email = None, user_name = None,
      user_avatar = None, user_country = None, user_privateAttributeNames = None, user_custom = None\<rparr>"

definition sample_lib :: "curl_event list \<Rightarrow> curl_lib" where
  "sample_lib evs =
     \<lparr>lib_init = True, lib_setopt = (\<lambda>_. True), lib_append = (\<lambda>_. True),
      lib_answer = (\<lambda>_. \<lparr>an_events = evs, an_result = 0, an_response_code = 200\<rparr>)\<rparr>"

definition empty_net :: net where
  "empty_net = \<lparr>net_handles = 0, net_slists = 0, net_requests = []\<rparr>"

lemma sample_lib_works: "lib_works (sample_lib evs)"
  by (simp add: lib_works_def sample_lib_def)

lemma plain_user_members: "user_members plain_user ''u'' = [(''key'', JText ''u'')]"
  by (simp add: user_members_def plain_user_def user_strings_def public_strings_def)

lemma plain_user_text:
  "length (json_text False (JObject (user_members plain_user ''u''))) = 11"
  "json_text False (JObject (user_members plain_user ''u'')) \<noteq> []"
proof -
  show l: "length (json_text False (JObject (user_members plain_user ''u''))) = 11"
    by (simp add: plain_user_members json_text_def string_text_def c_str_def char_text_def short_escapes_def
        pretty_def tabs_def)
  then show "json_text False (JObject (user_members plain_user ''u'')) \<noteq> []" by (metis list.size(3) zero_neq_numeral)
qed

lemma sample_net:
  "cl_mobileKey sample_client = Some ''mob''" "running sample_client" "user_key plain_user = Some ''u''"
  "appURI sample_config = Some ''https://app.launchdarkly.com''" "eventsURI sample_config = Some ''https://mobile.launchdarkly.com''"
  "streamURI sample_config = Some ''https://clientstream.launchdarkly.com''" "useReport sample_config = False"
  "useReasons sample_config = False"
  "lib_answer (sample_lib evs) curl = \<lparr>an_events = evs, an_result = 0, an_response_code = 200\<rparr>"
  by (simp_all add: sample_client_def plain_user_def sample_config_def config_defaults_def sample_lib_def)

text \<open>C6. A poll asks for exactly the user. When memory suffices, libcurl's calls succeed and the address fits into
  its buffer, the one request made carries the user: as last part of the path, which decoded and
  parsed is the tree of the user's attributes, or, where the configuration asks for \<open>REPORT\<close> requests, as
  the body, which parsed is that tree. The answer of the server is returned completely, and every
  handle is released. The attributes must be nested no deeper than the parser follows, and their numbers such
  that reading their text gives them back.\<close>

theorem poll_carries_user:
  assumes "lib_works lib" and "cl_mobileKey client = Some key" and "int (length key) \<le> INT_MAX - 15"
    and "appURI config = Some uri" and "user_key user = Some k"
    and "json_within CJSON_NESTING_LIMIT (JObject (user_members user k))" and "numbers_read (JObject (user_members user k))"
    and "int (length (json_text False (JObject (user_members user k)))) \<le> INT_MAX - 2"
    and "length (full_url config uri ''/msdk/evalx/user'' ''/msdk/evalx/users/'' (json_text False (JObject (user_members user k)))) < 4096"
    and "lib_answer lib (fetch_request config key uri (json_text False (JObject (user_members user k)))) = answer"
    and "an_result answer = 0"
  shows "\<exists>request.
    LDi_fetchfeaturemap lib config user client response s [] =
      (Val (an_response_code answer, if bodies (an_events answer) = [] then None else Some (concat (bodies (an_events answer))),
            s\<lparr>net_requests := net_requests s @ [request]\<rparr>), []) \<and>
    (if useReport config
     then hd request = CURLOPT_URL (uri @ ''/msdk/evalx/user'' @ (if useReasons config then ''?withReasons=true'' else [])) \<and>
       CURLOPT_CUSTOMREQUEST ''REPORT'' \<in> set request \<and>
       (\<exists>t. CURLOPT_POSTFIELDS t \<in> set request \<and> cJSON_Parse t [] = (Val (JObject (user_members user k)), []))
     else \<exists>b64.
       hd request = CURLOPT_URL (uri @ ''/msdk/evalx/users/'' @ b64 @ (if useReasons config then ''?withReasons=true'' else [])) \<and>
       cbind (LDi_base64_decode b64) cJSON_Parse [] = (Val (JObject (user_members user k)), []))"
proof -
  let ?j = "JObject (user_members user k)"
  let ?t = "json_text False ?j"
  let ?full = "full_url config uri ''/msdk/evalx/user'' ''/msdk/evalx/users/'' ?t"
  have ne: "?t \<noteq> []" using value_head[OF assms(7), of False 0] by (auto simp: json_text_def)
  have parse: "cJSON_Parse ?t [] = (Val ?j, [])"
    using parse_text[OF assms(6,7), of False False] by (simp add: cJSON_Parse_def alloc_ok)
  then have decode: "cbind (LDi_base64_decode (base64_text (map of_char ?t))) cJSON_Parse [] = (Val ?j, [])"
    using decode_base64_text[OF ne] by (simp add: alloc_ok)
  have fits: "take 4095 ?full = ?full" "int (length ?full) \<le> INT_MAX" using assms(9) by (simp_all add: INT_MAX_def)
  have run: "LDi_fetchfeaturemap lib config user client response s [] =
      (Val (an_response_code answer, if bodies (an_events answer) = [] then None else Some (concat (bodies (an_events answer))),
            requested s (fetch_request config key uri ?t)), [])"
    using fetch_ok[OF assms(1-4) LDi_serializeUser_ok[OF assms(5,8)] fits(2) assms(10,11)] .
  have "hd (fetch_request config key uri ?t) = CURLOPT_URL ?full" using fits(1) by (simp add: fetch_request_def)
  moreover have "?full = uri @ (if useReport config then ''/msdk/evalx/user'' else ''/msdk/evalx/users/'' @ base64_text (map of_char ?t)) @
      (if useReasons config then ''?withReasons=true'' else [])"
    by (simp add: full_url_def base_url_def)
  moreover have "CURLOPT_CUSTOMREQUEST ''REPORT'' \<in> set (fetch_request config key uri ?t)"
    "CURLOPT_POSTFIELDS ?t \<in> set (fetch_request config key uri ?t)" if "useReport config"
    using that by (simp_all add: fetch_request_def report_part_def)
  ultimately show ?thesis
    using run parse decode by (intro exI[of _ "fetch_request config key uri ?t"]) (auto simp: requested_def)
qed

theorem poll_carries_user_witness:
  "\<exists>request b64.
    LDi_fetchfeaturemap (sample_lib [Header ''h'', Body ''{'', Body ''}'']) sample_config plain_user sample_client 0 empty_net [] =
      (Val (200, Some ''{}'', empty_net\<lparr>net_requests := [request]\<rparr>), []) \<and>
    hd request = CURLOPT_URL (''https://app.launchdarkly.com'' @ ''/msdk/evalx/users/'' @ b64) \<and>
    cbind (LDi_base64_decode b64) cJSON_Parse [] = (Val (JObject [(''key'', JText ''u'')]), [])"
proof -
  let ?t = "json_text False (JObject (user_members plain_user ''u''))"
  have fits: "length (full_url sample_config ''https://app.launchdarkly.com'' ''/msdk/evalx/user'' ''/msdk/evalx/users/'' ?t) < 4096"
    using plain_user_text(1) by (simp add: full_url_def base_url_def base64_text_length sample_net)
  show ?thesis
    using poll_carries_user[OF sample_lib_works sample_net(1) _ sample_net(4) sample_net(3) _ _ _ fits sample_net(9),
        of "[Header ''h'', Body ''{'', Body ''}'']" 0 empty_net] plain_user_text(1)
    by (auto simp: sample_net plain_user_members CJSON_NESTING_LIMIT_def INT_MAX_def empty_net_def)
qed

lemma take_within: "length a \<le> k \<Longrightarrow> k < length (a @ b) \<Longrightarrow> take k ((a @ b) @ c) = a @ take (k - length a) b"
  by simp

text \<open>C35. The code checks \<open>snprintf\<close> only for a negative result: when the user goes into the path and the address up to
  the end of the user does not fit into 4095 bytes, the request is made all the same, to an address that ends
  within the encoded user: the server gets only a proper prefix of the encoding, and the query that asks for
  reasons is gone as well. This is a poll with libcurl's calls succeeding.\<close>

theorem oversized_user_cut_off:
  assumes "lib_works lib" and "cl_mobileKey client = Some key" and "int (length key) \<le> INT_MAX - 15"
    and "appURI config = Some uri" and "\<not> useReport config" and "LDi_serializeUser user [] = (Val t, [])"
    and "length (uri @ ''/msdk/evalx/users/'') \<le> 4095"
    and "4095 < length (uri @ ''/msdk/evalx/users/'' @ base64_text (map of_char t))"
    and "int (length (full_url config uri ''/msdk/evalx/user'' ''/msdk/evalx/users/'' t)) \<le> INT_MAX"
    and "an_result (lib_answer lib (fetch_request config key uri t)) = 0"
  shows "\<exists>data s' n.
    LDi_fetchfeaturemap lib config user client response s [] =
      (Val (an_response_code (lib_answer lib (fetch_request config key uri t)), data, s'), []) \<and>
    net_requests s' = net_requests s @ [CURLOPT_URL (uri @ ''/msdk/evalx/users/'' @ take n (base64_text (map of_char t))) #
      tl (fetch_request config key uri t)] \<and>
    n < length (base64_text (map of_char t)) \<and> length uri + 18 + n = 4095"
proof -
  let ?b64 = "base64_text (map of_char t)"
  let ?n = "4095 - length (uri @ ''/msdk/evalx/users/'')"
  have "take 4095 (full_url config uri ''/msdk/evalx/user'' ''/msdk/evalx/users/'' t) = uri @ ''/msdk/evalx/users/'' @ take ?n ?b64"
    using take_within[OF assms(7), of ?b64 "if useReasons config then ''?withReasons=true'' else []"] assms(5,8)
    unfolding full_url_def base_url_def by (simp only: if_False append_assoc simp_thms)
  moreover have "?n < length ?b64" "length uri + 18 + ?n = 4095" using assms(7,8) by simp_all
  ultimately show ?thesis
    using fetch_ok[OF assms(1-4,6,9) refl assms(10), where response = response and s = s]
    by (intro exI conjI) (auto simp: requested_def fetch_request_def)
qed

text \<open>A user with a key of 4000 letters.\<close>

definition large_user :: LDUser where
  "large_user = plain_user\<lparr>user_key := Some (replicate 4000 (CHR ''x''))\<rparr>"

lemma large_user_text:
  obtains t where "LDi_serializeUser large_user [] = (Val t, [])" and "length t = 4010"
proof
  let ?k = "replicate 4000 (CHR ''x'')"
  have m: "user_members large_user ?k = [(''key'', JText ?k)]"
    by (simp add: user_members_def large_user_def plain_user_def user_strings_def public_strings_def)
  have "c_str ?k = ?k" by (simp add: c_str_def takeWhile_eq_all_conv)
  moreover have "concat (map char_text ?k) = ?k"
    by (simp add: map_replicate_const[symmetric] char_text_def short_escapes_def concat_replicate_trivial)
  ultimately show l: "length (json_text False (JObject (user_members large_user ?k))) = 4010"
    by (simp add: m json_text_def string_text_def char_text_def short_escapes_def c_str_def pretty_def tabs_def)
  show "LDi_serializeUser large_user [] = (Val (json_text False (JObject (user_members large_user ?k))), [])"
    using l by (intro LDi_serializeUser_ok) (simp_all add: large_user_def INT_MAX_def)
qed

theorem oversized_user_cut_off_witness:
  "\<exists>data s' rest t n. LDi_fetchfeaturemap (sample_lib []) sample_config large_user sample_client 0 empty_net [] =
      (Val (200, data, s'), []) \<and> LDi_serializeUser large_user [] = (Val t, []) \<and>
    net_requests s' = [CURLOPT_URL (''https://app.launchdarkly.com'' @ ''/msdk/evalx/users/'' @ take n (base64_text (map of_char t))) # rest] \<and>
    n < length (base64_text (map of_char t))"
proof -
  obtain t where t: "LDi_serializeUser large_user [] = (Val t, [])" "length t = 4010" by (rule large_user_text)
  let ?u = "''https://app.launchdarkly.com''"
  have l: "length (base64_text (map of_char t)) = 5348" using t(2) by (simp add: base64_text_length)
  have u: "length (?u @ ''/msdk/evalx/users/'') \<le> 4095" "4095 < length (?u @ ''/msdk/evalx/users/'' @ base64_text (map of_char t))"
    "int (length (full_url sample_config ?u ''/msdk/evalx/user'' ''/msdk/evalx/users/'' t)) \<le> INT_MAX"
    "int (length ''mob'') \<le> INT_MAX - 15" "\<not> useReport sample_config"
    using l by (simp_all add: full_url_def base_url_def sample_net INT_MAX_def)
  have a: "an_result (lib_answer (sample_lib []) curl) = 0" "an_response_code (lib_answer (sample_lib []) curl) = 200"
    "net_requests empty_net = []" for curl
    by (simp_all add: sample_net empty_net_def)
  show ?thesis
    using oversized_user_cut_off[OF sample_lib_works sample_net(1) u(4) sample_net(4) u(5) t(1) u(1-3) a(1), of 0 empty_net] t(1)
    unfolding a append_Nil by blast
qed

text \<open>C10. As long as libcurl keeps to what it documents of the pieces it hands over (complete header lines, and an
  empty piece of the body only when the body is empty), whichever of its calls fail, whatever it
  answers and whatever the allocator does, a poll and a delivery of events never fault, release
  every handle and header list they made exactly once, and make at most one request; its address is
  that of the service, cut to 4095 bytes, and its headers carry the mobile key, cut with the name of the
  header to 255 bytes.\<close>

theorem requests_release_resources:
  assumes "cl_mobileKey client = Some key" and "appURI config = Some uri" and "eventsURI config = Some uri'"
    and "lib_proper lib"
  shows "ensures (LDi_fetchfeaturemap lib config user client response s) (\<lambda>(_, _, s').
      net_handles s' = net_handles s \<and> net_slists s' = net_slists s \<and>
      (s' = s \<or> (\<exists>t. serialized user t \<and> net_requests s' = net_requests s @ [fetch_request config key uri t]))) \<and>
    ensures (LDi_sendevents lib config client eventdata uuid response s) (\<lambda>(_, s').
      net_handles s' = net_handles s \<and> net_slists s' = net_slists s \<and>
      (s' = s \<or> net_requests s' = net_requests s @ [event_request config key uri' eventdata uuid]))"
proof
  show "ensures (LDi_fetchfeaturemap lib config user client response s) (\<lambda>(_, _, s').
      net_handles s' = net_handles s \<and> net_slists s' = net_slists s \<and>
      (s' = s \<or> (\<exists>t. serialized user t \<and> net_requests s' = net_requests s @ [fetch_request config key uri t])))"
    by (rule ensures_mono[OF fetch_spec[OF assms(1,2,4)]]) (auto simp: requested_def)
  show "ensures (LDi_sendevents lib config client eventdata uuid response s) (\<lambda>(_, s').
      net_handles s' = net_handles s \<and> net_slists s' = net_slists s \<and>
      (s' = s \<or> net_requests s' = net_requests s @ [event_request config key uri' eventdata uuid]))"
    by (rule ensures_mono[OF sendevents_spec[OF assms(1,3,4)]]) (auto simp: requested_def)
qed

text \<open>Here the body of the answer is empty and one header cannot be added.\<close>

theorem requests_release_resources_witness:
  "ensures (LDi_sendevents ((sample_lib [Header ''h'', Body []])\<lparr>lib_append := (\<lambda>h. length h < 30)\<rparr>) sample_config sample_client ''[]'' ''id'' 0 empty_net)
     (\<lambda>(_, s'). net_handles s' = 0 \<and> net_slists s' = 0)"
proof -
  let ?lib = "(sample_lib [Header ''h'', Body []])\<lparr>lib_append := (\<lambda>h. length h < 30)\<rparr>"
  have "lib_proper ?lib" by (simp add: lib_proper_def proper_answer_def sample_lib_def)
  from requests_release_resources[OF sample_net(1,4,5) this, where s = empty_net and uuid = "''id''" and eventdata = "''[]''" and response = 0, THEN conjunct2]
  show ?thesis by (rule ensures_mono) (auto simp: empty_net_def)
qed

text \<open>Every delivery of events is identified: with an identifier that \<open>LDi_UUIDv4\<close> made, the buffer of
  the header is exactly large enough and the request carries the identifier and the events; with text
  of any other length no request is made and the response is unchanged.\<close>

theorem delivery_carries_identifier:
  assumes "lib_works lib" and "cl_mobileKey client = Some key" and "int (length key) \<le> INT_MAX - 15"
    and "eventsURI config = Some uri" and "int (length uri) \<le> INT_MAX - 7"
    and "an_result (lib_answer lib (event_request config key uri eventdata uuid)) = 0"
  shows "(LDi_UUIDv4 rng = (True, uuid) \<longrightarrow>
      LDi_sendevents lib config client eventdata uuid response s [] =
        (Val (an_response_code (lib_answer lib (event_request config key uri eventdata uuid)),
              s\<lparr>net_requests := net_requests s @ [event_request config key uri eventdata uuid]\<rparr>), [])) \<and>
    (length uuid \<noteq> LD_UUID_SIZE \<longrightarrow> LDi_sendevents lib config client eventdata uuid response s [] = (Val (response, s), []))"
proof (intro conjI impI)
  assume "LDi_UUIDv4 rng = (True, uuid)"
  then have "length uuid = LD_UUID_SIZE"
    using LDi_randomHex_shape(3) by (fastforce simp: LDi_UUIDv4_def LD_UUID_SIZE_def split: prod.splits bool.splits)
  from sendevents_ok[OF assms(1-5) this refl assms(6)]
  show "LDi_sendevents lib config client eventdata uuid response s [] =
        (Val (an_response_code (lib_answer lib (event_request config key uri eventdata uuid)),
              s\<lparr>net_requests := net_requests s @ [event_request config key uri eventdata uuid]\<rparr>), [])"
    by (simp add: requested_def)
next
  assume n: "length uuid \<noteq> LD_UUID_SIZE"
  have all: "lib_init lib" "\<And>opt. lib_setopt lib opt" "\<And>h. lib_append lib h" using assms(1) by (auto simp: lib_works_def)
  have "\<exists>hs. event_headers lib [auth_header key, LD_USER_AGENT_HEADER] uuid (opened s) = (hs, False, opened s) \<and> hs \<noteq> []"
    using n by (auto simp: event_headers_def curl_slist_append_def snprintf_def Let_def)
  moreover have "snprintf 4096 (uri @ ''/mobile'') = (int (length uri) + 7, take 4095 (uri @ ''/mobile''))"
    using assms(5) by (simp add: snprintf_def INT_MAX_def)
  ultimately show "LDi_sendevents lib config client eventdata uuid response s [] = (Val (response, s), [])"
    unfolding LDi_sendevents_def assms(4) percent_s_Some cret_bind
    by (auto simp: prepareShared_ok[OF assms(2) all assms(3)] release_opened cret_def)
qed

theorem delivery_carries_identifier_witness:
  "LDi_sendevents (sample_lib []) sample_config sample_client ''[]'' (snd (LDi_UUIDv4 (\<lambda>_. Some 3))) 0 empty_net [] =
     (Val (200, empty_net\<lparr>net_requests :=
        [event_request sample_config ''mob'' ''https://mobile.launchdarkly.com'' ''[]'' (snd (LDi_UUIDv4 (\<lambda>_. Some 3)))]\<rparr>), [])"
proof -
  have "fst (LDi_UUIDv4 (\<lambda>_. Some 3))"
    using randomHex_loop_total[of "\<lambda>i. Some 3" 0 36 "[]"]
    by (auto simp: LDi_UUIDv4_def LDi_randomHex_def LD_UUID_SIZE_def split: prod.splits bool.splits)
  then have "LDi_UUIDv4 (\<lambda>_. Some 3) = (True, snd (LDi_UUIDv4 (\<lambda>_. Some 3)))" by (cases "LDi_UUIDv4 (\<lambda>_. Some 3)") auto
  with delivery_carries_identifier[OF sample_lib_works sample_net(1) _ sample_net(5), THEN conjunct1, of "[]" "''[]''"]
  show ?thesis by (simp add: sample_net INT_MAX_def empty_net_def)
qed

text \<open>C11. A stalled stream does not stay: while no data arrives, whatever sockets are opened and whatever
  other threads do, the first progress report more than \<open>LD_STREAMTIMEOUT_MS\<close> after the last data ends
  the request, and once the client is shutting down the next progress report does.\<close>

theorem stalled_stream_ends:
  assumes "\<forall>ev \<in> set evs. (\<exists>t. ev = Progress t (sd_lastdataamt sd)) \<or> (\<exists>fd. ev = Opened fd) \<or> (\<exists>f. ev = Elsewhere f)"
    and "Progress now (sd_lastdataamt sd) \<in> set evs" and "now - sd_lastdatatime sd > LD_STREAMTIMEOUT_MS"
  shows "(\<exists>sd'. stream_perform dispatch res evs sd m = (Val (CURLE_ABORTED_BY_CALLBACK, sd'), m)) \<and>
    (cl_status (sd_client sd) = LDStatusShuttingdown \<longrightarrow>
     stream_perform dispatch res (Progress t amt # evs) sd m = (Val (CURLE_ABORTED_BY_CALLBACK, sd), m))"
proof
  show "\<exists>sd'. stream_perform dispatch res evs sd m = (Val (CURLE_ABORTED_BY_CALLBACK, sd'), m)"
    using assms
  proof (induction evs arbitrary: sd)
    case (Cons ev evs)
    show ?case
    proof (cases ev)
      case (Progress t amt)
      with Cons.prems have "amt = sd_lastdataamt sd" by auto
      with Cons Progress show ?thesis by (auto simp: ProgressCallback_def cret_def)
    next
      case (Opened fd)
      with Cons.prems Cons.IH[of "SocketCallback fd sd"] show ?thesis by (auto simp: SocketCallback_def sd_map_client_def)
    next
      case (Elsewhere f)
      with Cons.prems Cons.IH[of "sd_map_client f sd"] show ?thesis by (auto simp: sd_map_client_def)
    qed (use Cons.prems in auto)
  qed simp
  show "cl_status (sd_client sd) = LDStatusShuttingdown \<longrightarrow>
     stream_perform dispatch res (Progress t amt # evs) sd m = (Val (CURLE_ABORTED_BY_CALLBACK, sd), m)"
    by (simp add: ProgressCallback_def cret_def)
qed

theorem stalled_stream_ends_witness:
  "\<exists>sd'. stream_perform (LDi_onEvent True 0) 0 [Opened 5, Progress 1000 0, Progress 300001 0]
     \<lparr>sd_headers = \<lparr>ms_memory = None, ms_size = 0\<rparr>, sd_lastdatatime = 0, sd_lastdataamt = 0,
      sd_parser = LDSSEParserInitialize sample_client\<rparr> [] = (Val (CURLE_ABORTED_BY_CALLBACK, sd'), [])"
  using stalled_stream_ends[of "[Opened 5, Progress 1000 0, Progress 300001 0]"
      "\<lparr>sd_headers = \<lparr>ms_memory = None, ms_size = 0\<rparr>, sd_lastdatatime = 0, sd_lastdataamt = 0,
        sd_parser = LDSSEParserInitialize sample_client\<rparr>" 300001 "LDi_onEvent True 0" 0 "[]"]
  by (simp add: LD_STREAMTIMEOUT_MS_def)

text \<open>C5. The stream from the socket to the store: when memory suffices, libcurl's calls succeed, no reference into
  the store is outstanding, and the server answers the request with encoded put, patch
  and delete events, in pieces of any sizes between which headers and timely progress reports may
  come, the store afterwards holds exactly what applying the updates in order gives, a put has made
  the client initialized, the status code of the server is reported, the socket that was opened is noted
  in the client as the open one, and every handle is released.\<close>

theorem readstream_applies_updates:
  assumes "lib_works lib" and "cl_mobileKey c = Some key" and "int (length key) \<le> INT_MAX - 15"
    and "streamURI config = Some uri" and "LDi_serializeUser user [] = (Val t, [])"
    and "int (length (full_url config uri ''/meval'' ''/meval/'' t)) \<le> INT_MAX"
    and "lib_answer lib (stream_request config key uri t) = \<lparr>an_events = Opened fd # evs, an_result = 0, an_response_code = code\<rparr>"
    and "lively now 0 evs" and "running c" and "store_inv {#} (cl_world c)" and "list_all2 carries events us"
    and "concat (bodies evs) = concat (map (\<lambda>(name, body). encode_event name body) events)"
  shows "\<exists>c'. LDi_readstream lib config user (LDi_onEvent callback garbage) now response (LDSSEParserInitialize c) s [] =
      (Val (code, LDSSEParserInitialize c', s\<lparr>net_requests := net_requests s @ [stream_request config key uri t]\<rparr>), []) \<and>
    store_inv {#} (cl_world c') \<and>
    abs_store (cl_world c') = foldl (apply_update garbage) (abs_store (cl_world c)) us \<and>
    cl_status c' = (if list_ex is_put us then LDStatusInitialized else cl_status c) \<and>
    cl_streamhandle c' = \<lparr>sock_status = OPEN, sock_fd = fd\<rparr>"
proof -
  let ?c = "LDi_updatehandle c fd"
  have c: "store_inv {#} (cl_world ?c)" "running ?c" using assms(9,10) by (simp_all add: LDi_updatehandle_def)
  obtain c' where d: "onevent.dispatch_all callback garbage events ?c c'" and c': "store_inv {#} (cl_world c')"
      "abs_store (cl_world c') = foldl (apply_update garbage) (abs_store (cl_world ?c)) us"
      "cl_status c' = (if list_ex is_put us then LDStatusInitialized else cl_status ?c)"
      "cl_streamhandle c' = cl_streamhandle ?c"
    using dispatch_all_carries[OF assms(11) c(1), of callback garbage] by blast
  have run: "running (sse_context (sse_pending (LDSSEParserInitialize ?c)))" using c(2) by (simp add: LDSSEParserInitialize_def)
  obtain sd where sd: "stream_perform (LDi_onEvent callback garbage) 0 evs
      \<lparr>sd_headers = \<lparr>ms_memory = None, ms_size = 0\<rparr>, sd_lastdatatime = now, sd_lastdataamt = 0,
       sd_parser = LDSSEParserInitialize ?c\<rparr> [] = (Val (0, sd), [])" "sd_parser sd = LDSSEParserInitialize c'"
    using onstream.stream_perform_ok[OF assms(8) run ms_ok_empty onevent.feed_events[OF carries_chars[OF assms(11)] d assms(12)], of 0]
    by blast
  have "stream_perform (LDi_onEvent callback garbage) 0 (Opened fd # evs)
      \<lparr>sd_headers = \<lparr>ms_memory = None, ms_size = 0\<rparr>, sd_lastdatatime = now, sd_lastdataamt = 0,
       sd_parser = LDSSEParserInitialize c\<rparr> [] = (Val (0, sd), [])"
    using sd(1) by (simp add: SocketCallback_def sd_map_client_def sd_client_def LDSSEParserInitialize_def)
  with readstream_ok[OF assms(1) _ assms(3-7), of "LDSSEParserInitialize c" "LDi_onEvent callback garbage" now 0 sd response s]
    assms(2) sd(2) c'
  show ?thesis by (intro exI[of _ c']) (simp add: requested_def LDi_updatehandle_def LDi_socketStore_def LDSSEParserInitialize_def)
qed

theorem readstream_applies_updates_witness:
  "\<exists>c' s'. LDi_readstream (sample_lib (Opened 5 # Header ''200'' # Progress 9 1 # map Body [encode_event ''delete'' sample_delete]))
      sample_config plain_user (LDi_onEvent True 0) 0 0 (LDSSEParserInitialize sample_client) empty_net [] =
      (Val (200, LDSSEParserInitialize c', s'), []) \<and> net_handles s' = 0 \<and> net_slists s' = 0 \<and>
    abs_store (cl_world c') ''a'' = Some (tombstone 0 ''a'' 5) \<and> cl_status c' = LDStatusInitializing \<and>
    LDi_socketLoad (cl_streamhandle c') = (True, 5)"
proof -
  let ?t = "json_text False (JObject (user_members plain_user ''u''))"
  let ?evs = "Header ''200'' # Progress 9 1 # map Body [encode_event ''delete'' sample_delete]"
  have t: "LDi_serializeUser plain_user [] = (Val ?t, [])"
    using plain_user_text(1) sample_net(3) by (intro LDi_serializeUser_ok) (simp_all add: INT_MAX_def)
  have url: "int (length (full_url sample_config ''https://clientstream.launchdarkly.com'' ''/meval'' ''/meval/'' ?t)) \<le> INT_MAX"
    using plain_user_text(1) by (simp add: full_url_def base_url_def base64_text_length sample_net INT_MAX_def)
  have up: "list_all2 carries [(''delete'', sample_delete)] [UDelete ''a'' 5]"
    by (simp add: sample_texts double_to_uint_def c_trunc_def)
  have st: "foldl (apply_update 0) (abs_store (cl_world sample_client)) [UDelete ''a'' 5] ''a'' = Some (tombstone 0 ''a'' 5)"
    by (simp add: sample_client_def spec_upsert_def spec_accepts_def tombstone_def abs_store_def LDi_storeInitialize_def)
  have init: "cl_status sample_client = LDStatusInitializing" by (simp add: sample_client_def)
  have "lively 0 0 ?evs" "concat (bodies ?evs) = concat (map (\<lambda>(name, body). encode_event name body) [(''delete'', sample_delete)])"
    by (simp_all add: LD_STREAMTIMEOUT_MS_def)
  with readstream_applies_updates[OF sample_lib_works sample_net(1) _ sample_net(6) t url sample_net(9) this(1)
      sample_net(2) sample_client_inv up this(2), of 5 True 0 0 empty_net]
  obtain c' where c': "LDi_readstream (sample_lib (Opened 5 # ?evs)) sample_config plain_user (LDi_onEvent True 0) 0 0
        (LDSSEParserInitialize sample_client) empty_net [] =
      (Val (200, LDSSEParserInitialize c', empty_net\<lparr>net_requests := net_requests empty_net @
        [stream_request sample_config ''mob'' ''https://clientstream.launchdarkly.com'' ?t]\<rparr>), [])"
      "abs_store (cl_world c') = foldl (apply_update 0) (abs_store (cl_world sample_client)) [UDelete ''a'' 5]"
      "cl_status c' = LDStatusInitializing" "cl_streamhandle c' = \<lparr>sock_status = OPEN, sock_fd = 5\<rparr>"
    by (auto simp: INT_MAX_def is_put_def init)
  show ?thesis
    by (rule exI[of _ c'], rule exI, rule conjI, rule c'(1)) (use c'(2-4) st in \<open>simp add: empty_net_def LDi_socketLoad_def\<close>)
qed

end
