(* ===== verification/Threads.thy ===== *)
theory Threads
  imports Net
begin

text \<open>
  The three background threads of a client (\<open>src/ldthreads.c\<close>) as loops over their turns, with the
  requests of \<open>Net\<close> in place of the network. A \<open>turn\<close> says what the outside does in one turn: what
  other threads do to the client while this one waits (\<open>tn_other\<close>) and while a poll or a delivery of
  events is under way (\<open>tn_meanwhile\<close>; during a stream the \<open>Elsewhere\<close> events say it), the clock, the
  random numbers, libcurl, and the values of variables that the code does not set. A loop that has
  used up the given turns is still running. \<open>retries\<close> is not bounded here; the code would need
  \<open>2^31\<close> failures in a row, each with a wait, to overflow its \<open>int\<close>.
\<close>

record turn =
  tn_other :: "LDClient \<Rightarrow> LDClient"
  tn_meanwhile :: "LDClient \<Rightarrow> LDClient"
  tn_now :: double
  tn_rng :: "nat \<Rightarrow> u32 option"
  tn_lib :: "nat \<Rightarrow> curl_lib"
  tn_late :: bool
  tn_unset :: int
  tn_garbage :: int

section \<open>The event sender\<close>

text \<open>The inner loop: the batch is handed over again after a failure, once.\<close>

function deliver_loop ::
  "(nat \<Rightarrow> curl_lib) \<Rightarrow> LDConfig \<Rightarrow> LDClient \<Rightarrow> string \<Rightarrow> string \<Rightarrow> nat \<Rightarrow> bool \<Rightarrow> net \<Rightarrow>
   ((nat \<times> bool \<times> bool) \<times> net) cmd" where
  "deliver_loop lib config client payload payloadId i sendFailed s =
     cbind (LDi_sendevents (lib i) config client payload payloadId 0 s) (\<lambda>(response, s).
       if response = 200 \<or> response = 202 then cret ((Suc i, False, False), s)
       else if sendFailed then cret ((Suc i, True, False), s)
       else if response = 401 \<or> response = 403 then cret ((Suc i, True, True), s)
       else deliver_loop lib config client payload payloadId (Suc i) True s)"
  by pat_completeness auto

termination
  by (relation "measure (\<lambda>(_, _, _, _, _, _, sendFailed, _). if sendFailed then 0 else 1)") auto

declare deliver_loop.simps [simp del]

text \<open>The result tells whether the thread has ended. The thread waits unless the client is shutting down.\<close>

fun LDi_bgeventsender ::
  "bool \<Rightarrow> LDConfig \<Rightarrow> turn list \<Rightarrow> bool \<Rightarrow> LDClient \<Rightarrow> net \<Rightarrow> (bool \<times> LDClient \<times> net) cmd" where
  "LDi_bgeventsender callback config [] finalflush client s = cret (sender_exits client finalflush, client, s)"
| "LDi_bgeventsender callback config (t # ts) finalflush client s =
     (if sender_exits client finalflush then cret (True, client, s)
      else
        (let client = (if cl_status client \<noteq> LDStatusShuttingdown then tn_other t client else client);
             finalflush = (cl_status client = LDStatusShuttingdown)
         in
         cbind (sender_batch client (tn_now t) (tn_rng t)) (\<lambda>(client, batch).
           case batch of
             None \<Rightarrow> LDi_bgeventsender callback config ts finalflush client s
           | Some (payload, payloadId) \<Rightarrow>
               cbind (deliver_loop (tn_lib t) config client payload payloadId 0 False s) (\<lambda>((_, _, refused), s).
                 let client = tn_meanwhile t client in
                 LDi_bgeventsender callback config ts finalflush
                   (if refused then LDi_updatestatus callback client LDStatusFailed else client) s))))"

section \<open>The poller\<close>

fun LDi_bgfeaturepoller ::
  "bool \<Rightarrow> LDConfig \<Rightarrow> LDUser \<Rightarrow> turn list \<Rightarrow> LDClient \<Rightarrow> net \<Rightarrow> (bool \<times> LDClient \<times> net) cmd" where
  "LDi_bgfeaturepoller callback config user [] client s = cret (poll_plan config client = None, client, s)"
| "LDi_bgfeaturepoller callback config user (t # ts) client s =
     (case poll_plan config client of
        None \<Rightarrow> cret (True, client, s)
      | Some (ms, skippolling) \<Rightarrow>
          (let client = (if ms > 0 then tn_other t client else client) in
           if skippolling then LDi_bgfeaturepoller callback config user ts client s
           else if cl_status client = LDStatusFailed \<or> cl_status client = LDStatusShuttingdown
           then LDi_bgfeaturepoller callback config user ts client s
           else
             cbind (LDi_fetchfeaturemap (tn_lib t 0) config user client 0 s) (\<lambda>(response, data, s).
             cbind (poll_finish callback (tn_meanwhile t client) response data) (\<lambda>client.
               LDi_bgfeaturepoller callback config user ts client s))))"

section \<open>The streamer\<close>

text \<open>\<open>response\<close> is not initialized before \<open>LDi_readstream\<close>.\<close>

fun LDi_bgfeaturestreamer ::
  "bool \<Rightarrow> LDConfig \<Rightarrow> LDUser \<Rightarrow> turn list \<Rightarrow> int \<Rightarrow> LDClient \<Rightarrow> net \<Rightarrow> (bool \<times> LDClient \<times> net) cmd" where
  "LDi_bgfeaturestreamer callback config user [] retries client s =
     cret (retries = 0 \<and> stream_plan config client = StreamExit, client, s)"
| "LDi_bgfeaturestreamer callback config user (t # ts) retries client s =
     (let client = (if retries \<noteq> 0 then tn_other t client else client) in
      case stream_plan config client of
        StreamExit \<Rightarrow> cret (True, client, s)
      | StreamPause \<Rightarrow> LDi_bgfeaturestreamer callback config user ts 0 (tn_other t client) s
      | StreamConnect \<Rightarrow>
          cbind (LDi_readstream (tn_lib t 0) config user (LDi_onEvent callback (tn_garbage t)) (tn_now t) (tn_unset t)
                   (LDSSEParserInitialize client) s) (\<lambda>(response, parser, s).
          let client = sse_context (sse_pending (LDSSEParserDestroy parser)) in
          case stream_finish callback client response (tn_late t) retries of
            (client, None) \<Rightarrow> cret (True, client, s)
          | (client, Some retries) \<Rightarrow> LDi_bgfeaturestreamer callback config user ts retries client s))"

section \<open>Lemmas: delivery\<close>

lemma no_fault_option [intro!]:
  "no_fault c \<Longrightarrow> (\<And>a. no_fault (d a)) \<Longrightarrow> no_fault (case x of None \<Rightarrow> c | Some a \<Rightarrow> d a)"
  by (cases x) simp_all

lemma no_fault_prod [intro!]: "(\<And>a b. no_fault (c a b)) \<Longrightarrow> no_fault (case x of (a, b) \<Rightarrow> c a b)"
  by (cases x) simp

lemma no_fault_summary_features:
  "\<forall>(f, fc) \<in> set fs. context_ok fc \<Longrightarrow> no_fault (summary_features fs)"
proof (induction fs rule: summary_features.induct)
  case (2 flagKey iter rest)
  have "no_fault (object_to_array_loop it acc)" for it acc
    by (induction it acc rule: object_to_array_loop.induct) auto
  moreover obtain ms cs where "iter = JObject ms" "map_of ms ''counters'' = Some (JObject cs)"
    using 2(2) by (auto simp: context_ok_def counters_ok_def)
  ultimately show ?case
    using 2 by (simp add: LDi_objectToArray_def LD_ASSERT_def LDJSONGetType_def)
      (intro no_fault_cbind no_fault_new no_fault_LDObjectSetKey no_fault_cret, auto)
qed auto

lemma no_fault_bundle:
  assumes "summary_ok (ep_summaryCounters ctx)"
  shows "no_fault (LDi_bundleEventPayload ctx now)"
proof -
  obtain fs where fs: "ep_summaryCounters ctx = JObject fs" "\<forall>(f, fc) \<in> set fs. context_ok fc"
    using assms by (fastforce simp: summary_ok_def)
  have dup: "yields (LDJSONDuplicate (Some (JObject fs))) (\<lambda>c. c = JObject fs)"
    by (auto simp: LDJSONDuplicate_def intro: yields_any)
  have "no_fault (cbind (LDJSONDuplicate (Some (JObject fs))) (\<lambda>counters.
      cbind (summary_features (json_members counters)) (\<lambda>features.
       LDObjectSetKey (Some x) (Some ''features'') (Some (JObject features)))))" for x
    by (rule ensures_no_fault[OF ensures_cbind[OF yields_no_fault[OF _ dup]], where Q = "\<lambda>_. True"])
      (use no_fault_summary_features[OF fs(2)] in \<open>auto simp: json_members_def intro!: yields_no_fault\<close>)
  then have "no_fault (LDi_prepareSummaryEvent ctx now)"
    unfolding LDi_prepareSummaryEvent_def fs(1)
    by - (rule no_fault_cbind, force, rule no_fault_cbind, force, rule no_fault_cbind, force, rule no_fault_cbind, force, assumption)
  then show ?thesis
    unfolding LDi_bundleEventPayload_def
    by (intro no_fault_if no_fault_cbind no_fault_ctry no_fault_option) auto
qed

lemma no_fault_sender_batch:
  assumes "summary_ok (ep_summaryCounters (cl_eventProcessor c))"
  shows "no_fault (sender_batch c now rng)"
  unfolding sender_batch_def Let_def using no_fault_bundle[OF assms]
  by (auto split: prod.split bool.split)

text \<open>Some number of copies of a request, and nothing else.\<close>

definition copies :: "nat \<Rightarrow> curl \<Rightarrow> net \<Rightarrow> net" where
  "copies k curl s = s\<lparr>net_requests := net_requests s @ replicate k curl\<rparr>"

lemma requested_copies: "copies k curl (requested s curl) = copies (Suc k) curl s" "copies 0 curl s = s"
  by (simp_all add: copies_def requested_def)

lemma deliver_loop_step:
  assumes "cl_mobileKey client = Some key" and "eventsURI config = Some uri" and "lib_proper (lib i)"
    and "\<And>j. \<not> ff \<Longrightarrow> j \<le> 1 \<Longrightarrow> ensures (deliver_loop lib config client payload pid (Suc i) True
        (copies j (event_request config key uri payload pid) s))
      (\<lambda>(_, s'). \<exists>k \<le> n. s' = copies k (event_request config key uri payload pid) s)"
    and "1 \<le> n"
  shows "ensures (deliver_loop lib config client payload pid i ff s)
    (\<lambda>(_, s'). \<exists>k \<le> n. s' = copies k (event_request config key uri payload pid) s)"
proof (subst deliver_loop.simps, rule ensures_cbind[OF sendevents_spec[OF assms(1-3)]], clarify)
  let ?req = "event_request config key uri payload pid"
  fix response :: int and s'
  assume "s' = s \<or> s' = requested s ?req"
  then have "s' = copies 0 ?req s \<or> s' = copies 1 ?req s" by (simp add: copies_def requested_def)
  then obtain j where j: "s' = copies j ?req s" "j \<le> 1" by auto
  then have "\<exists>k \<le> n. s' = copies k ?req s" using assms(5) by (intro exI[of _ j]) simp
  with assms(4)[OF _ j(2)] j(1) show "ensures (if response = 200 \<or> response = 202 then cret ((Suc i, False, False), s')
      else if ff then cret ((Suc i, True, False), s')
      else if response = 401 \<or> response = 403 then cret ((Suc i, True, True), s')
      else deliver_loop lib config client payload pid (Suc i) True s')
    (\<lambda>(_, s'). \<exists>k \<le> n. s' = copies k ?req s)"
    by auto
qed

lemma deliver_loop_spec:
  assumes "cl_mobileKey client = Some key" and "eventsURI config = Some uri" and "\<And>i. lib_proper (lib i)"
  shows "ensures (deliver_loop lib config client payload pid 0 False s)
    (\<lambda>(_, s'). \<exists>k \<le> 2. s' = copies k (event_request config key uri payload pid) s)"
proof (rule deliver_loop_step[OF assms(1-3)])
  let ?req = "event_request config key uri payload pid"
  fix j :: nat
  assume j: "j \<le> 1"
  have "ensures (deliver_loop lib config client payload pid (Suc 0) True (copies j ?req s))
      (\<lambda>(_, s'). \<exists>k \<le> 1. s' = copies k ?req (copies j ?req s))"
    by (rule deliver_loop_step[OF assms(1-3)]) simp_all
  then show "ensures (deliver_loop lib config client payload pid (Suc 0) True (copies j ?req s))
      (\<lambda>(_, s'). \<exists>k \<le> 2. s' = copies k ?req s)"
  proof (rule ensures_mono, clarify)
    fix a b c s'' k
    assume "k \<le> (1 :: nat)"
    with j show "\<exists>k' \<le> 2. copies k ?req (copies j ?req s) = copies k' ?req s"
      by (intro exI[of _ "j + k"]) (simp add: copies_def replicate_add)
  qed
qed simp

lemma deliver_loop_accepted:
  assumes "LDi_sendevents (lib 0) config client payload pid 0 s [] = (Val (response, s'), [])" and "response \<in> {200, 202}"
  shows "deliver_loop lib config client payload pid 0 False s [] = (Val ((1, False, False), s'), [])"
  using assms by (subst deliver_loop.simps) (auto simp: cbind_def cret_def)

lemma sender_ended [simp]: "LDi_bgeventsender callback config ts True client s = cret (True, client, s)"
  by (cases ts) (auto simp: sender_exits_def)

section \<open>Properties\<close>

definition quiet_turn :: "curl_event list \<Rightarrow> turn" where
  "quiet_turn evs =
     \<lparr>tn_other = (\<lambda>c. c), tn_meanwhile = (\<lambda>c. c), tn_now = 9, tn_rng = (\<lambda>_. Some 7), tn_lib = (\<lambda>_. sample_lib evs), tn_late = False,
      tn_unset = 0, tn_garbage = 0\<rparr>"

text \<open>The last turn of the event sender, from the moment at which it has seen the shutdown.\<close>

lemma final_turn:
  assumes "cl_mobileKey c = Some key" and "eventsURI config = Some uri" and "\<And>i. lib_proper (tn_lib t i)"
    and "queue_inv (cl_eventProcessor c)" and "summary_ok (ep_summaryCounters (cl_eventProcessor c))"
  shows "ensures (cbind (sender_batch c (tn_now t) (tn_rng t)) (\<lambda>(client, batch).
           case batch of
             None \<Rightarrow> LDi_bgeventsender callback config ts True client s
           | Some (payload, payloadId) \<Rightarrow>
               cbind (deliver_loop (tn_lib t) config client payload payloadId 0 False s) (\<lambda>((_, _, refused), s).
                 let client = tn_meanwhile t client in
                 LDi_bgeventsender callback config ts True
                   (if refused then LDi_updatestatus callback client LDStatusFailed else client) s)))
    (\<lambda>(ended, _, s'). ended \<and>
      (\<exists>k payload pid. k \<le> 2 \<and> s' = s\<lparr>net_requests := net_requests s @ replicate k (event_request config key uri payload pid)\<rparr>))"
proof -
  have k: "yields (sender_batch c (tn_now t) (tn_rng t)) (\<lambda>(c', _). cl_mobileKey c' = Some key)"
    unfolding yields_def
  proof clarify
    fix m c' batch m'
    assume "sender_batch c (tn_now t) (tn_rng t) m = (Val (c', batch), m')"
    from sender_batch_cases[OF assms(4) this]
    have "c' = c \<or> c' = c\<lparr>cl_eventProcessor := cl_eventProcessor c'\<rparr>" by (auto split: option.splits)
    then have "cl_mobileKey c' = cl_mobileKey c" by (metis LDClient.select_convs(1) LDClient.surjective LDClient.update_convs(7))
    with assms(1) show "cl_mobileKey c' = Some key" by simp
  qed
  have b: "ensures (sender_batch c (tn_now t) (tn_rng t)) (\<lambda>(c', _). cl_mobileKey c' = Some key)"
    by (rule yields_no_fault[OF no_fault_sender_batch[OF assms(5)] k])
  have idle: "\<exists>k \<le> 2. s = s\<lparr>net_requests := net_requests s @ replicate k curl\<rparr>" for curl :: curl
    by (intro exI[of _ 0]) simp
  have d: "ensures (deliver_loop (tn_lib t) config c' payload pid 0 False s)
      (\<lambda>(_, s'). \<exists>k \<le> 2. s' = copies k (event_request config key uri payload pid) s)" if "cl_mobileKey c' = Some key" for c' payload pid
    using deliver_loop_spec[OF that assms(2)] assms(3) by blast
  show ?thesis
    by (auto simp: Let_def copies_def intro!: ensures_cbind[OF b] ensures_cbind[OF d] split: option.split)
      (use idle in blast)+
qed

lemma poller_stops: "cl_status c = LDStatusShuttingdown \<Longrightarrow> LDi_bgfeaturepoller callback config user ts c s = cret (True, c, s)"
  by (cases ts) (simp_all add: poll_plan_def)

lemma streamer_stops: "cl_status c = LDStatusShuttingdown \<Longrightarrow> LDi_bgfeaturestreamer callback config user ts 0 c s = cret (True, c, s)"
  by (cases ts) (simp_all add: stream_plan_def)

text \<open>C7. Closing a client ends its threads, whether it is shutting down already or is closed while they wait,
  provided that it is still shutting down when the wait is over (no other thread overwrites the status)
  and that libcurl keeps to what it documents: the poller that waits ends before it makes
  another request, the streamer that waits ends before it connects again, and the event sender ends after one more
  turn, in which it hands over at most two copies of one batch and never faults, whatever the
  allocator does. A poll that is under way is not covered: its answer may undo the shutdown
  (\<open>poll_undoes_shutdown\<close>).\<close>

theorem threads_stop_on_shutdown:
  assumes "cl_status (tn_other t c) = LDStatusShuttingdown"
    and "\<forall>c' \<in> {c, tn_other t c}. cl_mobileKey c' = Some key \<and> queue_inv (cl_eventProcessor c') \<and>
      summary_ok (ep_summaryCounters (cl_eventProcessor c'))"
    and "eventsURI config = Some uri" and "\<forall>i. lib_proper (tn_lib t i)"
  shows "(cl_status c = LDStatusShuttingdown \<or> (\<exists>ms skip. poll_plan config c = Some (ms, skip) \<and> 0 < ms) \<longrightarrow>
      (\<exists>c'. LDi_bgfeaturepoller callback config user (t # ts) c s = cret (True, c', s))) \<and>
    (cl_status c = LDStatusShuttingdown \<or> retries \<noteq> 0 \<or> stream_plan config c = StreamPause \<longrightarrow>
      (\<exists>c'. LDi_bgfeaturestreamer callback config user (t # ts) retries c s = cret (True, c', s))) \<and>
    ensures (LDi_bgeventsender callback config (t # ts) False c s) (\<lambda>(ended, _, s'). ended \<and>
      (\<exists>k payload pid. k \<le> 2 \<and> s' = s\<lparr>net_requests := net_requests s @ replicate k (event_request config key uri payload pid)\<rparr>))"
proof (intro conjI impI)
  show "\<exists>c'. LDi_bgfeaturepoller callback config user (t # ts) c s = cret (True, c', s)"
    if "cl_status c = LDStatusShuttingdown \<or> (\<exists>ms skip. poll_plan config c = Some (ms, skip) \<and> 0 < ms)"
  proof (cases "cl_status c = LDStatusShuttingdown")
    case True
    then show ?thesis using poller_stops by blast
  next
    case False
    with that poller_stops[OF assms(1)] assms(1) show ?thesis by (auto simp: Let_def)
  qed
  show "\<exists>c'. LDi_bgfeaturestreamer callback config user (t # ts) retries c s = cret (True, c', s)"
    if "cl_status c = LDStatusShuttingdown \<or> retries \<noteq> 0 \<or> stream_plan config c = StreamPause"
    using that assms(1) streamer_stops[OF assms(1)] by (cases "retries = 0") (auto simp: stream_plan_def)
  define c1 where "c1 = (if cl_status c \<noteq> LDStatusShuttingdown then tn_other t c else c)"
  have c1: "cl_status c1 = LDStatusShuttingdown" "cl_mobileKey c1 = Some key" "queue_inv (cl_eventProcessor c1)"
    "summary_ok (ep_summaryCounters (cl_eventProcessor c1))"
    using assms(1,2) by (auto simp: c1_def)
  have "\<exists>k payload pid. k \<le> 2 \<and> s = s\<lparr>net_requests := net_requests s @ replicate k (event_request config key uri payload pid)\<rparr>"
    by (intro exI[of _ 0]) simp
  with final_turn[OF c1(2) assms(3) _ c1(3,4), of t callback ts s] assms(4) c1(1)
  show "ensures (LDi_bgeventsender callback config (t # ts) False c s) (\<lambda>(ended, _, s'). ended \<and>
      (\<exists>k payload pid. k \<le> 2 \<and> s' = s\<lparr>net_requests := net_requests s @ replicate k (event_request config key uri payload pid)\<rparr>))"
    unfolding LDi_bgeventsender.simps(2) c1_def[symmetric]
    by (simp add: sender_exits_def Let_def del: sender_ended)
qed

text \<open>The client has an event to send and is closed during the wait; the poller waits because the configuration
  streams, the streamer waits for a retry.\<close>

theorem threads_stop_on_shutdown_witness:
  "\<exists>c c' c''. cl_status c = LDStatusInitialized \<and> queue_items (cl_eventProcessor c) = [JBool True] \<and>
    LDi_bgfeaturepoller True sample_config plain_user
      [(quiet_turn [])\<lparr>tn_other := (\<lambda>c. c\<lparr>cl_status := LDStatusShuttingdown\<rparr>)\<rparr>, quiet_turn []] c empty_net = cret (True, c', empty_net) \<and>
    LDi_bgfeaturestreamer True sample_config plain_user
      [(quiet_turn [])\<lparr>tn_other := (\<lambda>c. c\<lparr>cl_status := LDStatusShuttingdown\<rparr>)\<rparr>, quiet_turn []] 2 c empty_net = cret (True, c'', empty_net) \<and>
    ensures (LDi_bgeventsender True sample_config
      [(quiet_turn [])\<lparr>tn_other := (\<lambda>c. c\<lparr>cl_status := LDStatusShuttingdown\<rparr>)\<rparr>, quiet_turn []] False c empty_net) (\<lambda>(ended, _, s'). ended)"
proof -
  let ?ep = "sample_processor\<lparr>ep_events := JArray [JBool True]\<rparr>"
  let ?c = "sample_client\<lparr>cl_status := LDStatusInitialized, cl_eventProcessor := ?ep\<rparr>"
  let ?t = "(quiet_turn [])\<lparr>tn_other := (\<lambda>c. c\<lparr>cl_status := LDStatusShuttingdown\<rparr>)\<rparr>"
  have lib: "\<forall>i. lib_proper (tn_lib ?t i)" by (simp add: quiet_turn_def lib_proper_def proper_answer_def sample_lib_def)
  have c: "\<forall>c' \<in> {?c, tn_other ?t ?c}. cl_mobileKey c' = Some ''mob'' \<and> queue_inv (cl_eventProcessor c') \<and>
      summary_ok (ep_summaryCounters (cl_eventProcessor c'))" "cl_status (tn_other ?t ?c) = LDStatusShuttingdown"
    using sample_net(1) by (simp_all add: sample_processor_def queue_inv_def summary_ok_def sample_config_def config_defaults_def)
  have waits: "\<exists>ms skip. poll_plan sample_config ?c = Some (ms, skip) \<and> 0 < ms"
    by (intro exI[of _ "pollingIntervalMillis sample_config"] exI[of _ True])
      (simp add: poll_plan_def Let_def sample_config_def config_defaults_def sample_client_def)
  have two: "(2 :: int) \<noteq> 0" by simp
  note stop = threads_stop_on_shutdown[OF c(2,1) sample_net(5) lib, of True plain_user "[quiet_turn []]" empty_net 2]
  obtain c' where "LDi_bgfeaturepoller True sample_config plain_user [?t, quiet_turn []] ?c empty_net = cret (True, c', empty_net)"
    using stop waits by blast
  moreover obtain c'' where "LDi_bgfeaturestreamer True sample_config plain_user [?t, quiet_turn []] 2 ?c empty_net = cret (True, c'', empty_net)"
    using stop[THEN conjunct2, THEN conjunct1] two by blast
  moreover have "ensures (LDi_bgeventsender True sample_config [?t, quiet_turn []] False ?c empty_net) (\<lambda>(ended, _, s'). ended)"
    by (rule ensures_mono[OF stop[THEN conjunct2, THEN conjunct2]]) clarify
  moreover have "cl_status ?c = LDStatusInitialized" "queue_items (cl_eventProcessor ?c) = [JBool True]"
    by (simp_all add: queue_items_def)
  ultimately show ?thesis by blast
qed

text \<open>C8. Events are not lost when a client is closed: when it is shutting down, a batch can be made and the
  server accepts it, the last turn of the sender hands over exactly one request whose body is the queue,
  in order, followed by at most one summary, empties the queue and ends.\<close>

theorem final_flush_delivers:
  assumes "cl_status c = LDStatusShuttingdown" and "queue_inv (cl_eventProcessor c)"
    and "sender_batch c (tn_now t) (tn_rng t) [] = (Val (c', Some (payload, pid)), [])"
    and "lib_works (tn_lib t 0)" and "cl_mobileKey c = Some key" and "int (length key) \<le> INT_MAX - 15"
    and "eventsURI config = Some uri" and "int (length uri) \<le> INT_MAX - 7"
    and "lib_answer (tn_lib t 0) (event_request config key uri payload pid) = answer"
    and "an_result answer = 0" and "an_response_code answer \<in> {200, 202}"
  shows "LDi_bgeventsender callback config (t # ts) False c s [] =
      (Val (True, tn_meanwhile t c', s\<lparr>net_requests := net_requests s @ [event_request config key uri payload pid]\<rparr>), []) \<and>
    queue_items (cl_eventProcessor c') = [] \<and>
    (\<exists>summary. payload = json_text False (JArray (queue_items (cl_eventProcessor c) @ summary)) \<and> length summary \<le> 1)"
proof -
  note b = sender_batch_cases[OF assms(2,3), simplified]
  have key: "cl_mobileKey c' = Some key"
    using b assms(5) by (metis LDClient.select_convs(1) LDClient.surjective LDClient.update_convs(7))
  have "length pid = LD_UUID_SIZE"
    using b LDi_randomHex_shape(3) by (fastforce simp: LDi_UUIDv4_def LD_UUID_SIZE_def split: prod.splits bool.splits)
  from sendevents_ok[OF assms(4) key assms(6-8) this assms(9,10)]
  have "LDi_sendevents (tn_lib t 0) config c' payload pid 0 s [] =
      (Val (an_response_code answer, requested s (event_request config key uri payload pid)), [])" .
  from deliver_loop_accepted[of "tn_lib t", OF this assms(11)] show ?thesis
    using assms(1,3) b by (simp add: sender_exits_def Let_def cbind_def cret_def requested_def)
qed

theorem final_flush_delivers_witness:
  "\<exists>c' pid. LDi_bgeventsender True sample_config [quiet_turn []] False
      (sample_client\<lparr>cl_status := LDStatusShuttingdown, cl_eventProcessor := sample_processor\<lparr>ep_events := JArray [JBool True]\<rparr>\<rparr>)
      empty_net [] =
    (Val (True, c', empty_net\<lparr>net_requests := [event_request sample_config ''mob'' ''https://mobile.launchdarkly.com''
      (json_text False (JArray [JBool True])) pid]\<rparr>), []) \<and> queue_items (cl_eventProcessor c') = []"
proof -
  let ?ep = "sample_processor\<lparr>ep_events := JArray [JBool True]\<rparr>"
  let ?c = "sample_client\<lparr>cl_status := LDStatusShuttingdown, cl_eventProcessor := ?ep\<rparr>"
  have inv: "queue_inv (cl_eventProcessor ?c)"
    by (simp add: queue_inv_def sample_processor_def sample_config_def config_defaults_def)
  have "fst (LDi_UUIDv4 (\<lambda>i. Some 7))"
    using randomHex_loop_total[of "\<lambda>i. Some 7" 0 36 "[]"]
    by (auto simp: LDi_UUIDv4_def LDi_randomHex_def LD_UUID_SIZE_def split: prod.splits bool.splits)
  then obtain pid where pid: "LDi_UUIDv4 (\<lambda>i. Some 7) = (True, pid)" by (cases "LDi_UUIDv4 (\<lambda>i. Some 7)") auto
  have "LDi_bundleEventPayload ?ep 9 [] = (Val (True, Some (JArray [JBool True]), ?ep\<lparr>ep_events := JArray []\<rparr>), [])"
    by (simp add: LDi_bundleEventPayload_def LDCollectionGetSize_def sample_processor_def alloc_ok)
  then have b: "sender_batch ?c (tn_now (quiet_turn [])) (tn_rng (quiet_turn [])) [] =
      (Val (?c\<lparr>cl_eventProcessor := ?ep\<lparr>ep_events := JArray []\<rparr>\<rparr>, Some (json_text False (JArray [JBool True]), pid)), [])"
    by (simp add: sender_batch_def pid alloc_ok Let_def sample_client_def json_text_def INT_MAX_def quiet_turn_def)
  have "lib_works (tn_lib (quiet_turn []) 0)" by (simp add: quiet_turn_def sample_lib_works)
  from final_flush_delivers[OF _ inv b this _ _ sample_net(5), of "''mob''"] sample_net show ?thesis
    by (auto simp: quiet_turn_def INT_MAX_def empty_net_def)
qed

lemma poll_turn_ok:
  assumes "cl_status c = LDStatusInitializing" and "\<not> cl_offline c" and "\<not> cl_background c" and "\<not> streaming config"
    and "lib_works (tn_lib t 0)" and "cl_mobileKey c = Some key" and "int (length key) \<le> INT_MAX - 15"
    and "appURI config = Some uri" and "LDi_serializeUser user [] = (Val text, [])"
    and "int (length (full_url config uri ''/msdk/evalx/user'' ''/msdk/evalx/users/'' text)) \<le> INT_MAX"
    and "lib_answer (tn_lib t 0) (fetch_request config key uri text) = answer"
    and "an_result answer = 0" and "an_response_code answer = 200"
    and "carries (''put'', concat (bodies (an_events answer))) (UPut flags)" and "store_inv {#} (cl_world (tn_meanwhile t c))"
    and "bodies (an_events answer) \<noteq> []"
  shows "\<exists>c'. LDi_bgfeaturepoller callback config user [t] c s [] =
      (Val (False, c', s\<lparr>net_requests := net_requests s @ [fetch_request config key uri text]\<rparr>), []) \<and>
    cl_status c' = LDStatusInitialized \<and> store_inv {#} (cl_world c') \<and>
    abs_store (cl_world c') = map_of (map (\<lambda>f. (flag_key f, f)) flags)"
proof -
  let ?m = "tn_meanwhile t c"
  obtain xs where xs: "json_of (concat (bodies (an_events answer))) = Some (JObject xs)" "length xs < 4294967296"
      "distinct (map fst xs)" "list_all2 member_flag xs flags"
    using assms(14) by auto
  obtain w where w: "LDi_onstreameventput callback ?m (concat (bodies (an_events answer))) [] =
      (Val (True, LDi_updatestatus callback (?m\<lparr>cl_world := w\<rparr>) LDStatusInitialized), [])" "store_inv {#} w"
      "abs_store w = map_of (map (\<lambda>f. (flag_key f, f)) flags)"
    using LDi_onstreameventput_ok[OF assms(15) _ xs] by auto
  let ?c = "LDi_updatestatus callback (?m\<lparr>cl_world := w\<rparr>) LDStatusInitialized"
  have c: "cl_status ?c = LDStatusInitialized" "cl_world ?c = w" by (simp_all add: LDi_updatestatus_def)
  have plan: "poll_plan config c = Some (0, False)" "poll_plan config ?c \<noteq> None"
    using assms(1-4) c(1) by (simp_all add: poll_plan_def Let_def)
  have "poll_finish callback ?m 200 (Some (concat (bodies (an_events answer)))) [] = (Val ?c, [])"
    using w(1) by (simp add: poll_finish_def alloc_ok)
  with fetch_ok[OF assms(5-12), where response = 0 and s = s] plan assms(1,13,16) c w(2,3) show ?thesis
    by (intro exI[of _ ?c]) (simp add: cbind_def cret_def requested_def)
qed

text \<open>A put with one flag, in two pieces, and the facts about a poll that gets it.\<close>

definition sample_pieces :: "curl_event list" where
  "sample_pieces = [Body (take 9 sample_put), Body (drop 9 sample_put)]"

lemma sample_pieces_carry:
  obtains f where "carries (''put'', concat (bodies sample_pieces)) (UPut [f])" and "flag_key f = ''a''" and "flag_version f = 4"
proof
  let ?f = "\<lparr>flag_key = ''a'', flag_value = Some (JBool True), flag_version = 4, flag_flagVersion = - 1,
    flag_variation = - 1, flag_trackEvents = False, flag_trackReason = False, flag_reason = None,
    flag_debugEventsUntilDate = 0, flag_deleted = False\<rparr>"
  have "member_flag (''a'', JObject [(''value'', JBool True), (''version'', JNumber 4)]) ?f"
    by (auto simp: member_flag_def LDi_flag_parse_def flag_parse_key_def flag_parse_value_def flag_parse_version_def
        flag_parse_deleted_def flag_parse_opt_int_def flag_parse_reason_def flag_parse_opt_bool_def
        flag_parse_debug_def alloc_ok clift_def double_to_int_def c_trunc_def INT_MIN_def INT_MAX_def cmd_Val_iffs)
  then show "carries (''put'', concat (bodies sample_pieces)) (UPut [?f])" by (simp add: sample_texts sample_pieces_def)
qed simp_all

lemma sample_poll:
  "cl_status sample_client = LDStatusInitializing" "\<not> cl_offline sample_client" "\<not> cl_background sample_client"
  "\<not> streaming (sample_config\<lparr>streaming := False\<rparr>)"
  "appURI (sample_config\<lparr>streaming := False\<rparr>) = Some ''https://app.launchdarkly.com''"
  "lib_works (tn_lib (quiet_turn evs) 0)"
  "lib_answer (tn_lib (quiet_turn evs) 0) curl = \<lparr>an_events = evs, an_result = 0, an_response_code = 200\<rparr>"
  "LDi_serializeUser plain_user [] = (Val (json_text False (JObject (user_members plain_user ''u''))), [])"
  "int (length (full_url (sample_config\<lparr>streaming := False\<rparr>) ''https://app.launchdarkly.com'' ''/msdk/evalx/user''
     ''/msdk/evalx/users/'' (json_text False (JObject (user_members plain_user ''u''))))) \<le> INT_MAX"
  using sample_net plain_user_text(1)
  by (simp_all add: sample_client_def quiet_turn_def sample_lib_works LDi_serializeUser_ok full_url_def base_url_def
      base64_text_length INT_MAX_def)

text \<open>C9. A client that polls becomes ready in one turn: from the start, without streaming, when the server answers
  the poll with a valid set of flags in pieces of any sizes, the client is initialized and its store
  holds exactly these flags, whatever other threads did to the client during the request, as long as no
  reference into the store is outstanding.\<close>

theorem poll_initializes_client:
  assumes "cl_status c = LDStatusInitializing" and "\<not> cl_offline c" and "\<not> cl_background c" and "\<not> streaming config"
    and "lib_works (tn_lib t 0)" and "cl_mobileKey c = Some key" and "int (length key) \<le> INT_MAX - 15"
    and "appURI config = Some uri" and "LDi_serializeUser user [] = (Val text, [])"
    and "int (length (full_url config uri ''/msdk/evalx/user'' ''/msdk/evalx/users/'' text)) \<le> INT_MAX"
    and "lib_answer (tn_lib t 0) (fetch_request config key uri text) = answer"
    and "an_result answer = 0" and "an_response_code answer = 200"
    and "carries (''put'', concat (bodies (an_events answer))) (UPut flags)" and "store_inv {#} (cl_world (tn_meanwhile t c))"
    and "bodies (an_events answer) \<noteq> []"
  shows "\<exists>c'. LDi_bgfeaturepoller callback config user [t] c s [] =
      (Val (False, c', s\<lparr>net_requests := net_requests s @ [fetch_request config key uri text]\<rparr>), []) \<and>
    cl_status c' = LDStatusInitialized \<and> store_inv {#} (cl_world c') \<and>
    abs_store (cl_world c') = map_of (map (\<lambda>f. (flag_key f, f)) flags)"
  by (rule poll_turn_ok[OF assms])

theorem poll_initializes_client_witness:
  "\<exists>c' s'. LDi_bgfeaturepoller True (sample_config\<lparr>streaming := False\<rparr>) plain_user [quiet_turn sample_pieces]
      sample_client empty_net [] = (Val (False, c', s'), []) \<and>
    cl_status c' = LDStatusInitialized \<and> map_option flag_version (abs_store (cl_world c') ''a'') = Some 4"
proof -
  obtain f where f: "carries (''put'', concat (bodies sample_pieces)) (UPut [f])" "flag_key f = ''a''" "flag_version f = 4"
    by (rule sample_pieces_carry)
  have "store_inv {#} (cl_world (tn_meanwhile (quiet_turn sample_pieces) sample_client))"
    using sample_client_inv by (simp add: quiet_turn_def)
  from poll_initializes_client[OF sample_poll(1-4,6) sample_net(1) _ sample_poll(5,8,9,7) _ _ _ this, of "[f]" True empty_net] f
  show ?thesis by (auto simp: INT_MAX_def sample_pieces_def)
qed

text \<open>A poll under way undoes a shutdown: the status is tested before the request only, so when the client is
  closed during the request and the server answers with flags, the client is initialized again and the
  poller goes on. \<open>clientCloseIsolated\<close> then waits for threads that no longer have a reason to end.\<close>

theorem poll_undoes_shutdown:
  assumes "cl_status c = LDStatusInitializing" and "\<not> cl_offline c" and "\<not> cl_background c" and "\<not> streaming config"
    and "lib_works (tn_lib t 0)" and "cl_mobileKey c = Some key" and "int (length key) \<le> INT_MAX - 15"
    and "appURI config = Some uri" and "LDi_serializeUser user [] = (Val text, [])"
    and "int (length (full_url config uri ''/msdk/evalx/user'' ''/msdk/evalx/users/'' text)) \<le> INT_MAX"
    and "lib_answer (tn_lib t 0) (fetch_request config key uri text) = answer"
    and "an_result answer = 0" and "an_response_code answer = 200"
    and "carries (''put'', concat (bodies (an_events answer))) (UPut flags)" and "store_inv {#} (cl_world (tn_meanwhile t c))"
    and "bodies (an_events answer) \<noteq> []"
    and "cl_status (tn_meanwhile t c) = LDStatusShuttingdown"
  shows "\<exists>c'. LDi_bgfeaturepoller callback config user [t] c s [] =
      (Val (False, c', s\<lparr>net_requests := net_requests s @ [fetch_request config key uri text]\<rparr>), []) \<and>
    cl_status c' = LDStatusInitialized"
  using poll_turn_ok[OF assms(1-16)] by blast

theorem poll_undoes_shutdown_witness:
  "\<exists>c' s'. LDi_bgfeaturepoller True (sample_config\<lparr>streaming := False\<rparr>) plain_user
      [(quiet_turn sample_pieces)\<lparr>tn_meanwhile := (\<lambda>c. c\<lparr>cl_status := LDStatusShuttingdown\<rparr>)\<rparr>] sample_client empty_net [] =
    (Val (False, c', s'), []) \<and> cl_status c' = LDStatusInitialized"
proof -
  let ?t = "(quiet_turn sample_pieces)\<lparr>tn_meanwhile := (\<lambda>c. c\<lparr>cl_status := LDStatusShuttingdown\<rparr>)\<rparr>"
  obtain f where f: "carries (''put'', concat (bodies sample_pieces)) (UPut [f])" by (rule sample_pieces_carry)
  have t: "store_inv {#} (cl_world (tn_meanwhile ?t sample_client))" "cl_status (tn_meanwhile ?t sample_client) = LDStatusShuttingdown"
    "lib_works (tn_lib ?t 0)" "lib_answer (tn_lib ?t 0) curl = \<lparr>an_events = sample_pieces, an_result = 0, an_response_code = 200\<rparr>" for curl
    using sample_client_inv sample_poll(6,7) by simp_all
  have "\<exists>c'. LDi_bgfeaturepoller True (sample_config\<lparr>streaming := False\<rparr>) plain_user [?t] sample_client empty_net [] =
      (Val (False, c', empty_net\<lparr>net_requests := net_requests empty_net @ [fetch_request (sample_config\<lparr>streaming := False\<rparr>) ''mob''
        ''https://app.launchdarkly.com'' (json_text False (JObject (user_members plain_user ''u'')))]\<rparr>), []) \<and>
    cl_status c' = LDStatusInitialized"
    by (rule poll_undoes_shutdown[OF sample_poll(1-4) t(3) sample_net(1) _ sample_poll(5,8,9) t(4) _ _ _ t(1) _ t(2)])
      (use f in \<open>simp_all only: curl_answer.select_convs INT_MAX_def\<close>, simp_all add: sample_pieces_def)
  then show ?thesis by blast
qed

text \<open>The variable for the response of a stream is used without having been set: when the user cannot be serialized
  for lack of memory, \<open>LDi_readstream\<close> returns without making a request and without storing a response, so
  that the thread acts on whatever the variable holds; with a value like 401 it declares the mobile key
  refused and ends.\<close>

theorem streamer_acts_on_unset_response:
  assumes "stream_plan config c = StreamConnect" and "tn_unset t = 401"
  shows "LDi_bgfeaturestreamer callback config user (t # ts) 0 c s [False] =
    (Val (True, LDi_updatestatus callback c LDStatusFailed, s), [])"
proof -
  have none: "set_key_ignore None k mk [] = (Val None, [])" if mk: "no_fault mk" "mem_ok mk" for k mk
  proof -
    obtain r where "ctry mk [] = (Val r, [])"
      using no_faultD[OF mk(1), of "[]"] mk(2) by (cases "mk []"; cases "fst (mk [])") (auto simp: ctry_def mem_ok_def)
    then show ?thesis by (simp add: set_key_ignore_def cbind_def ctry_def cmd_simps)
  qed
  have strs: "serialize_strings strs None [] = (Val None, [])" for strs
  proof (induction strs "None :: json_ptr" rule: serialize_strings.induct)
    case (3 name v rest)
    from 3 none[of "LDNewText (Some v)" name] show ?case by (simp add: cbind_def)
  qed (auto simp: cret_def)
  have opt: "(if b then set_key_ignore None k mk else cret None) [] = (Val None, [])" if "no_fault mk" "mem_ok mk" for b k mk
    using none[OF that] by (simp add: cret_def)
  have "ctry LDNewObject [False] = (Val None, [])" by (simp add: cmd_simps)
  then have "serializeUser_attrs user [False] = (Val None, [])"
    unfolding serializeUser_attrs_def by (simp add: cbind_ok none strs opt)
  then have "LDi_serializeUser user [False] = (Null, [])"
    by (simp add: LDi_serializeUser_def cbind_ok LDJSONSerialize_def cnull_def)
  then show ?thesis
    using assms by (simp add: LDi_readstream_def LDSSEParserInitialize_def LDSSEParserDestroy_def stream_finish_def cmd_simps)
qed

theorem streamer_acts_on_unset_response_witness:
  "LDi_bgfeaturestreamer True sample_config plain_user [(quiet_turn [])\<lparr>tn_unset := 401\<rparr>] 0 sample_client empty_net [False] =
    (Val (True, LDi_updatestatus True sample_client LDStatusFailed, empty_net), [])"
proof -
  have "stream_plan sample_config sample_client = StreamConnect"
    by (simp add: stream_plan_def sample_client_def sample_config_def config_defaults_def)
  then show ?thesis by (rule streamer_acts_on_unset_response) simp
qed

end
