(* ===== verification/Client.thy ===== *)
theory Client
  imports Streaming
begin

text \<open>
  The public client API (\<open>src/client.c\<close>): evaluating flags of each type with and without
  details, all flags, saving and restoring, identifying and tracking, the switches between
  online, offline and background, and the life cycle of the clients of all environments. The
  shared user lock and the client lock are held as in the code, so a call is one step; the
  creation of threads and locks succeeds. \<open>now\<close> and \<open>now'\<close> are the times the event processor
  reads.
\<close>

section \<open>Evaluation\<close>

definition LDi_castJSONToValue :: "json_ptr \<Rightarrow> LDJSONType \<Rightarrow> cvalue option cmd" where
  "LDi_castJSONToValue source type =
     cbind (LD_ASSERT (source \<noteq> None)) (\<lambda>_.
       case type of
         LDBool \<Rightarrow> cret (Some (CBool (LDGetBool source)))
       | LDText \<Rightarrow> cret (map_option CText (LDGetText source))
       | LDNumber \<Rightarrow> cret (Some (CDouble (LDGetNumber source)))
       | LDNull \<Rightarrow> cfault AssertFailed
       | LDObject \<Rightarrow> cfault AssertFailed
       | LDArray \<Rightarrow> cfault AssertFailed)"

text \<open>The value of a node, or the fallback: the types must agree unless any JSON is wanted.\<close>

definition eval_value :: "LDFlag option \<Rightarrow> LDJSONType \<Rightarrow> cvalue option \<Rightarrow> cvalue option cmd" where
  "eval_value node variationKind fallbackValue =
     (case node of
        None \<Rightarrow> cret fallbackValue
      | Some flag \<Rightarrow>
          (if variationKind = LDNull then cret (map_option CJson (flag_value flag))
           else if LDJSONGetType (flag_value flag) = variationKind
           then LDi_castJSONToValue (flag_value flag) variationKind
           else cret fallbackValue))"

text \<open>
  \<open>selected\<close> tells whether the caller wants the node. It then owns a reference to it;
  otherwise the reference is given back before the function returns.
\<close>

definition LDi_evalInternal ::
  "LDUser \<Rightarrow> LDClient option \<Rightarrow> cstring \<Rightarrow> LDJSONType \<Rightarrow> cvalue option \<Rightarrow> bool \<Rightarrow> double \<Rightarrow> double \<Rightarrow>
   (bool \<times> cvalue option \<times> addr option \<times> LDClient option) cmd" where
  "LDi_evalInternal user client flagKey variationKind fallbackValue selected now now' =
     (case (client, flagKey) of
        (Some c, Some key) \<Rightarrow>
          cbind (LDi_storeGet (cl_world c) key) (\<lambda>(node, w).
            let flag = map_option node_flag (Option.bind node (w_heap w)) in
            cbind (eval_value flag variationKind fallbackValue) (\<lambda>resultValue.
            cbind (LDi_processEvalEvent (cl_eventProcessor c) user key variationKind flag
                     resultValue fallbackValue selected now now') (\<lambda>(_, ep).
              let c = c\<lparr>cl_world := w, cl_eventProcessor := ep\<rparr> in
              if selected then cret (True, resultValue, node, Some c)
              else
                (case node of
                   None \<Rightarrow> cret (True, resultValue, None, Some c)
                 | Some a \<Rightarrow>
                     cbind (LDi_rc_decrement a w) (\<lambda>w.
                       cret (True, resultValue, None, Some (c\<lparr>cl_world := w\<rparr>)))))))
      | _ \<Rightarrow> cret (False, fallbackValue, None, client))"

subsection \<open>Details\<close>

record LDVariationDetails =
  variationIndex :: int
  reason :: json_ptr

definition error_reason :: "string \<Rightarrow> LDVariationDetails cmd" where
  "error_reason errorKind =
     cbind (ctry LDNewObject) (\<lambda>r.
     cbind (set_key_ignore r ''kind'' (LDNewText (Some ''ERROR''))) (\<lambda>r.
     cbind (set_key_ignore r ''errorKind'' (LDNewText (Some errorKind))) (\<lambda>r.
       cret \<lparr>variationIndex = -1, reason = r\<rparr>)))"

definition fillDetails ::
  "LDClient option \<Rightarrow> cstring \<Rightarrow> LDFlag option \<Rightarrow> LDJSONType \<Rightarrow> LDVariationDetails cmd" where
  "fillDetails client flagKey node type =
     (if client = None then error_reason ''CLIENT_NOT_SPECIFIED''
      else if flagKey = None then error_reason ''FLAG_NOT_SPECIFIED''
      else
        (case node of
           Some flag \<Rightarrow>
             (if type = LDNull \<or> LDJSONGetType (flag_value flag) = type \<or>
                 LDJSONGetType (flag_value flag) = LDNull
              then
                cbind (if flag_reason flag \<noteq> None
                       then ctry (LDJSONDuplicate (flag_reason flag)) else cret None) (\<lambda>r.
                  cret \<lparr>variationIndex = flag_variation flag, reason = r\<rparr>)
              else error_reason ''WRONG_TYPE'')
         | None \<Rightarrow> error_reason ''FLAG_NOT_FOUND''))"

text \<open>Evaluating with details: fill them from the selected node and give it back.\<close>

definition eval_detail ::
  "LDUser \<Rightarrow> LDClient option \<Rightarrow> cstring \<Rightarrow> LDJSONType \<Rightarrow> cvalue option \<Rightarrow> double \<Rightarrow> double \<Rightarrow>
   (cvalue option \<times> LDVariationDetails \<times> LDClient option) cmd" where
  "eval_detail user client key type fallback now now' =
     cbind (LDi_evalInternal user client key type fallback True now now')
       (\<lambda>(_, resultValue, selected, client).
          case (selected, client) of
            (Some a, Some c) \<Rightarrow>
              cbind (fillDetails client key (map_option node_flag (w_heap (cl_world c) a)) type)
                (\<lambda>details.
              cbind (LDi_rc_decrement a (cl_world c)) (\<lambda>w.
                cret (resultValue, details, Some (c\<lparr>cl_world := w\<rparr>))))
          | _ \<Rightarrow>
              cbind (fillDetails client key None type) (\<lambda>details.
                cret (resultValue, details, client)))"

definition eval_plain ::
  "LDUser \<Rightarrow> LDClient option \<Rightarrow> cstring \<Rightarrow> LDJSONType \<Rightarrow> cvalue option \<Rightarrow> double \<Rightarrow> double \<Rightarrow>
   (cvalue option \<times> LDClient option) cmd" where
  "eval_plain user client key type fallback now now' =
     cbind (LDi_evalInternal user client key type fallback False now now')
       (\<lambda>(_, resultValue, _, client). cret (resultValue, client))"

subsection \<open>Reading the result through its pointer\<close>

definition deref_bool :: "cvalue option \<Rightarrow> bool cmd" where
  "deref_bool v = (case v of Some (CBool b) \<Rightarrow> cret b | _ \<Rightarrow> cfault Undefined)"

definition deref_double :: "cvalue option \<Rightarrow> double cmd" where
  "deref_double v = (case v of Some (CDouble d) \<Rightarrow> cret d | _ \<Rightarrow> cfault Undefined)"

text \<open>\<open>return *valueRef\<close> in a function that returns \<open>int\<close>.\<close>

definition deref_int :: "cvalue option \<Rightarrow> int cmd" where
  "deref_int v = cbind (deref_double v) (\<lambda>d. clift (double_to_int d))"

text \<open>
  Copying a text into a buffer of the caller. A buffer is the bytes of its object, which may be more or
  fewer than the size that the caller passes; sizes are 64 bits wide. \<open>memcpy\<close> reads the text with its
  terminator; it and the assignment of the terminator are undefined outside of their objects.
\<close>

definition strlen64 :: "string \<Rightarrow> 64 word" where
  "strlen64 s = of_nat (length s)"

definition memcpy_text :: "string \<Rightarrow> string \<Rightarrow> 64 word \<Rightarrow> string cmd" where
  "memcpy_text buffer src n =
     (if unat n \<le> length buffer \<and> unat n \<le> Suc (length src)
      then cret (take (unat n) (src @ [nul]) @ drop (unat n) buffer)
      else cfault Undefined)"

definition store_byte :: "string \<Rightarrow> 64 word \<Rightarrow> char \<Rightarrow> string cmd" where
  "store_byte buffer i c =
     (if unat i < length buffer then cret (buffer[unat i := c]) else cfault Undefined)"

definition copy_text :: "cvalue option \<Rightarrow> cstring \<Rightarrow> 64 word \<Rightarrow> string cmd" where
  "copy_text v buffer bufferSize =
     (case (v, buffer) of
        (Some (CText value), Some buffer) \<Rightarrow>
          (let resultLength = min (strlen64 value) (bufferSize - 1) in
           cbind (memcpy_text buffer value resultLength) (\<lambda>buffer. store_byte buffer resultLength nul))
      | _ \<Rightarrow> cfault Undefined)"

definition dup_text :: "cvalue option \<Rightarrow> string cmd" where
  "dup_text v = (case v of Some (CText t) \<Rightarrow> LDStrDup t | _ \<Rightarrow> cfault Undefined)"

definition dup_json :: "cvalue option \<Rightarrow> json cmd" where
  "dup_json v =
     (case v of
        None \<Rightarrow> LDJSONDuplicate None
      | Some (CJson j) \<Rightarrow> LDJSONDuplicate (Some j)
      | _ \<Rightarrow> cfault Undefined)"

subsection \<open>Variations\<close>

definition LDBoolVariationDetail ::
  "LDUser \<Rightarrow> LDClient option \<Rightarrow> cstring \<Rightarrow> bool \<Rightarrow> double \<Rightarrow> double \<Rightarrow>
   (bool \<times> LDVariationDetails \<times> LDClient option) cmd" where
  "LDBoolVariationDetail user client key fallback now now' =
     cbind (eval_detail user client key LDBool (Some (CBool fallback)) now now') (\<lambda>(v, details, client).
     cbind (deref_bool v) (\<lambda>r. cret (r, details, client)))"

definition LDBoolVariation ::
  "LDUser \<Rightarrow> LDClient option \<Rightarrow> cstring \<Rightarrow> bool \<Rightarrow> double \<Rightarrow> double \<Rightarrow>
   (bool \<times> LDClient option) cmd" where
  "LDBoolVariation user client key fallback now now' =
     cbind (eval_plain user client key LDBool (Some (CBool fallback)) now now') (\<lambda>(v, client).
     cbind (deref_bool v) (\<lambda>r. cret (r, client)))"

text \<open>An \<open>int\<close> fallback becomes a double; the result is truncated back.\<close>

definition LDIntVariationDetail ::
  "LDUser \<Rightarrow> LDClient option \<Rightarrow> cstring \<Rightarrow> int \<Rightarrow> double \<Rightarrow> double \<Rightarrow>
   (int \<times> LDVariationDetails \<times> LDClient option) cmd" where
  "LDIntVariationDetail user client key fallback now now' =
     cbind (eval_detail user client key LDNumber (Some (CDouble (of_int fallback))) now now') (\<lambda>(v, details, client).
     cbind (deref_int v) (\<lambda>r. cret (r, details, client)))"

definition LDIntVariation ::
  "LDUser \<Rightarrow> LDClient option \<Rightarrow> cstring \<Rightarrow> int \<Rightarrow> double \<Rightarrow> double \<Rightarrow>
   (int \<times> LDClient option) cmd" where
  "LDIntVariation user client key fallback now now' =
     cbind (eval_plain user client key LDNumber (Some (CDouble (of_int fallback))) now now') (\<lambda>(v, client).
     cbind (deref_int v) (\<lambda>r. cret (r, client)))"

definition LDDoubleVariationDetail ::
  "LDUser \<Rightarrow> LDClient option \<Rightarrow> cstring \<Rightarrow> double \<Rightarrow> double \<Rightarrow> double \<Rightarrow>
   (double \<times> LDVariationDetails \<times> LDClient option) cmd" where
  "LDDoubleVariationDetail user client key fallback now now' =
     cbind (eval_detail user client key LDNumber (Some (CDouble fallback)) now now') (\<lambda>(v, details, client).
     cbind (deref_double v) (\<lambda>r. cret (r, details, client)))"

definition LDDoubleVariation ::
  "LDUser \<Rightarrow> LDClient option \<Rightarrow> cstring \<Rightarrow> double \<Rightarrow> double \<Rightarrow> double \<Rightarrow>
   (double \<times> LDClient option) cmd" where
  "LDDoubleVariation user client key fallback now now' =
     cbind (eval_plain user client key LDNumber (Some (CDouble fallback)) now now') (\<lambda>(v, client).
     cbind (deref_double v) (\<lambda>r. cret (r, client)))"

text \<open>
  The text is copied after the reference was given back. A call is one step here, so the node
  is still in the table; with a concurrent update it may already be freed
  (\<open>released_node_may_be_freed\<close> below).
\<close>

definition LDStringVariationDetail ::
  "LDUser \<Rightarrow> LDClient option \<Rightarrow> cstring \<Rightarrow> cstring \<Rightarrow> cstring \<Rightarrow> 64 word \<Rightarrow> double \<Rightarrow> double \<Rightarrow>
   (string \<times> LDVariationDetails \<times> LDClient option) cmd" where
  "LDStringVariationDetail user client key fallback buffer bufferSize now now' =
     cbind (eval_detail user client key LDText (map_option CText fallback) now now') (\<lambda>(v, details, client).
     cbind (copy_text v buffer bufferSize) (\<lambda>r. cret (r, details, client)))"

definition LDStringVariation ::
  "LDUser \<Rightarrow> LDClient option \<Rightarrow> cstring \<Rightarrow> cstring \<Rightarrow> cstring \<Rightarrow> 64 word \<Rightarrow> double \<Rightarrow> double \<Rightarrow>
   (string \<times> LDClient option) cmd" where
  "LDStringVariation user client key fallback buffer bufferSize now now' =
     cbind (eval_plain user client key LDText (map_option CText fallback) now now') (\<lambda>(v, client).
     cbind (copy_text v buffer bufferSize) (\<lambda>r. cret (r, client)))"

definition LDStringVariationAllocDetail ::
  "LDUser \<Rightarrow> LDClient option \<Rightarrow> cstring \<Rightarrow> cstring \<Rightarrow> double \<Rightarrow> double \<Rightarrow>
   (string \<times> LDVariationDetails \<times> LDClient option) cmd" where
  "LDStringVariationAllocDetail user client key fallback now now' =
     cbind (eval_detail user client key LDText (map_option CText fallback) now now') (\<lambda>(v, details, client).
     cbind (dup_text v) (\<lambda>r. cret (r, details, client)))"

definition LDStringVariationAlloc ::
  "LDUser \<Rightarrow> LDClient option \<Rightarrow> cstring \<Rightarrow> cstring \<Rightarrow> double \<Rightarrow> double \<Rightarrow>
   (string \<times> LDClient option) cmd" where
  "LDStringVariationAlloc user client key fallback now now' =
     cbind (eval_plain user client key LDText (map_option CText fallback) now now') (\<lambda>(v, client).
     cbind (dup_text v) (\<lambda>r. cret (r, client)))"

text \<open>With a \<open>NULL\<close> client or key the details are left as they are: none are returned.\<close>

definition LDJSONVariationDetail ::
  "LDUser \<Rightarrow> LDClient option \<Rightarrow> cstring \<Rightarrow> json_ptr \<Rightarrow> double \<Rightarrow> double \<Rightarrow>
   (json \<times> LDVariationDetails option \<times> LDClient option) cmd" where
  "LDJSONVariationDetail user client key fallback now now' =
     (if client = None \<or> key = None
      then cbind (LDJSONDuplicate fallback) (\<lambda>r. cret (r, None, client))
      else
        cbind (eval_detail user client key LDNull (map_option CJson fallback) now now')
          (\<lambda>(v, details, client).
        cbind (dup_json v) (\<lambda>r. cret (r, Some details, client))))"

definition LDJSONVariation ::
  "LDUser \<Rightarrow> LDClient option \<Rightarrow> cstring \<Rightarrow> json_ptr \<Rightarrow> double \<Rightarrow> double \<Rightarrow>
   (json \<times> LDClient option) cmd" where
  "LDJSONVariation user client key fallback now now' =
     cbind (eval_plain user client key LDNull (map_option CJson fallback) now now') (\<lambda>(v, client).
     cbind (dup_json v) (\<lambda>r. cret (r, client)))"

subsection \<open>All flags\<close>

fun decrement_all :: "addr list \<Rightarrow> world \<Rightarrow> world cmd" where
  "decrement_all [] w = cret w"
| "decrement_all (node # rest) w = cbind (LDi_rc_decrement node w) (\<lambda>w. decrement_all rest w)"

text \<open>The remaining references are given back also when copying a value fails.\<close>

fun all_flags_loop :: "addr list \<Rightarrow> world \<Rightarrow> json \<Rightarrow> (json_ptr \<times> world) cmd" where
  "all_flags_loop [] w result = cret (Some result, w)"
| "all_flags_loop (node # rest) w result =
     cbind (load_node w node) (\<lambda>n.
     cbind (if \<not> flag_deleted (node_flag n)
            then ctry (json_set_new result (flag_key (node_flag n))
                         (LDJSONDuplicate (flag_value (node_flag n))))
            else cret (Some result)) (\<lambda>r.
       case r of
         None \<Rightarrow> cbind (decrement_all (node # rest) w) (\<lambda>w. cret (None, w))
       | Some result \<Rightarrow>
           cbind (LDi_rc_decrement node w) (\<lambda>w. all_flags_loop rest w result)))"

definition LDAllFlags :: "LDClient option \<Rightarrow> (json_ptr \<times> LDClient option) cmd" where
  "LDAllFlags client =
     (case client of
        None \<Rightarrow> cret (None, None)
      | Some c \<Rightarrow>
          cbind (ctry LDNewObject) (\<lambda>r.
            case r of
              None \<Rightarrow> cret (None, client)
            | Some result \<Rightarrow>
                cbind (ctry (LDi_storeGetAll (cl_world c))) (\<lambda>g.
                  case g of
                    None \<Rightarrow> cret (None, client)
                  | Some (flags, w) \<Rightarrow>
                      cbind (all_flags_loop flags w result) (\<lambda>(result, w).
                        cret (result, Some (c\<lparr>cl_world := w\<rparr>))))))"

section \<open>Saving and restoring\<close>

definition LDClientSaveFlags :: "LDClient \<Rightarrow> string cmd" where
  "LDClientSaveFlags client =
     cbind (LDi_storeGetJSON (cl_world client)) (\<lambda>bundle. LDJSONSerialize (Some bundle))"

definition LDClientRestoreFlags ::
  "bool \<Rightarrow> LDClient \<Rightarrow> string \<Rightarrow> (bool \<times> LDClient) cmd" where
  "LDClientRestoreFlags callback client data = LDi_onstreameventput callback client data"

section \<open>Events of the application\<close>

definition with_ep :: "LDClient \<Rightarrow> (bool \<times> EventProcessor) cmd \<Rightarrow> LDClient cmd" where
  "with_ep client c = cbind c (\<lambda>(_, ep). cret (client\<lparr>cl_eventProcessor := ep\<rparr>))"

definition LDClientAlias ::
  "LDClient option \<Rightarrow> user_ptr \<Rightarrow> user_ptr \<Rightarrow> double \<Rightarrow> LDClient option cmd" where
  "LDClientAlias client currentUser previousUser now =
     (case (client, currentUser, previousUser) of
        (Some c, Some cur, Some prev) \<Rightarrow>
          cbind (with_ep c (LDi_alias (cl_eventProcessor c) cur prev now)) (\<lambda>c. cret (Some c))
      | _ \<Rightarrow> cret client)"

definition track_guarded ::
  "LDUser \<Rightarrow> LDClient option \<Rightarrow> cstring \<Rightarrow> json_ptr \<Rightarrow> double \<Rightarrow> bool \<Rightarrow> double \<Rightarrow> LDClient option cmd" where
  "track_guarded user client name data metric hasMetric now =
     (case client of
        None \<Rightarrow> cret None
      | Some c \<Rightarrow>
          (if name = None then cret client
           else
             cbind (with_ep c (LDi_track (cl_eventProcessor c) user name data metric hasMetric now))
               (\<lambda>c. cret (Some c))))"

definition LDClientTrack ::
  "LDUser \<Rightarrow> LDClient option \<Rightarrow> cstring \<Rightarrow> double \<Rightarrow> LDClient option cmd" where
  "LDClientTrack user client name now = track_guarded user client name None 0 False now"

definition LDClientTrackData ::
  "LDUser \<Rightarrow> LDClient option \<Rightarrow> cstring \<Rightarrow> json_ptr \<Rightarrow> double \<Rightarrow> LDClient option cmd" where
  "LDClientTrackData user client name data now = track_guarded user client name data 0 False now"

definition LDClientTrackMetric ::
  "LDUser \<Rightarrow> LDClient option \<Rightarrow> cstring \<Rightarrow> json_ptr \<Rightarrow> double \<Rightarrow> double \<Rightarrow> LDClient option cmd" where
  "LDClientTrackMetric user client name data metric now =
     track_guarded user client name data metric True now"

definition LDClientRegisterFeatureFlagListener ::
  "LDClient option \<Rightarrow> cstring \<Rightarrow> callback option \<Rightarrow> (bool \<times> LDClient option) cmd" where
  "LDClientRegisterFeatureFlagListener client key fn =
     (case (client, key, fn) of
        (Some c, Some k, Some f) \<Rightarrow>
          cbind (LDi_storeRegisterListener (cl_world c) k f) (\<lambda>(ok, w).
            cret (ok, Some (c\<lparr>cl_world := w\<rparr>)))
      | _ \<Rightarrow> cret (False, client))"

definition LDClientUnregisterFeatureFlagListener ::
  "LDClient option \<Rightarrow> cstring \<Rightarrow> callback option \<Rightarrow> LDClient option" where
  "LDClientUnregisterFeatureFlagListener client key fn =
     (case (client, key, fn) of
        (Some c, Some k, Some f) \<Rightarrow>
          Some (c\<lparr>cl_world := LDi_storeUnregisterListener (cl_world c) k f\<rparr>)
      | _ \<Rightarrow> client)"

section \<open>All environments\<close>

text \<open>
  The global context: the clients by environment name in the order they were added (the first
  is the primary one), the shared user and configuration, and whether a status callback is
  set. Operations that take a client pointer but work on the whole table take its name.
\<close>

record LDGlobal =
  g_clientTable :: "(string \<times> LDClient) list"
  g_sharedConfig :: "LDConfig option"
  g_sharedUser :: "LDUser option"
  g_callback :: bool

definition LDi_earlyinit :: "LDGlobal \<Rightarrow> LDGlobal" where
  "LDi_earlyinit g = g\<lparr>g_clientTable := [], g_sharedConfig := None, g_sharedUser := None\<rparr>"

definition LDClientGetForMobileKey :: "LDGlobal \<Rightarrow> cstring \<Rightarrow> LDClient option" where
  "LDClientGetForMobileKey g keyName =
     (case keyName of None \<Rightarrow> None | Some k \<Rightarrow> map_of (g_clientTable g) k)"

definition map_clients :: "(LDClient \<Rightarrow> LDClient) \<Rightarrow> LDGlobal \<Rightarrow> LDGlobal" where
  "map_clients f g = g\<lparr>g_clientTable := map (\<lambda>(n, c). (n, f c)) (g_clientTable g)\<rparr>"

definition LDClientSetOffline :: "LDGlobal \<Rightarrow> LDGlobal" where
  "LDClientSetOffline g = map_clients (\<lambda>c. c\<lparr>cl_offline := True\<rparr>) g"

definition LDClientSetOnline :: "LDGlobal \<Rightarrow> LDGlobal" where
  "LDClientSetOnline g =
     map_clients (\<lambda>c. LDi_updatestatus (g_callback g) (c\<lparr>cl_offline := False\<rparr>) LDStatusInitializing) g"

definition LDClientIsOffline :: "LDClient option \<Rightarrow> bool" where
  "LDClientIsOffline client = (case client of None \<Rightarrow> True | Some c \<Rightarrow> cl_offline c)"

definition LDClientIsInitialized :: "LDClient option \<Rightarrow> bool" where
  "LDClientIsInitialized client =
     (case client of None \<Rightarrow> False | Some c \<Rightarrow> cl_status c = LDStatusInitialized)"

definition LDClientSetBackground :: "LDClient option \<Rightarrow> bool \<Rightarrow> LDClient option" where
  "LDClientSetBackground client background =
     map_option (\<lambda>c. LDi_startstopstreaming (c\<lparr>cl_background := background\<rparr>) background) client"

definition LDSetClientStatusCallbackUserData :: "LDGlobal \<Rightarrow> bool \<Rightarrow> LDGlobal" where
  "LDSetClientStatusCallbackUserData g callback = g\<lparr>g_callback := callback\<rparr>"

definition LDSetClientStatusCallback :: "LDGlobal \<Rightarrow> bool \<Rightarrow> LDGlobal" where
  "LDSetClientStatusCallback g callback =
     (if \<not> callback then LDSetClientStatusCallbackUserData g False
      else LDSetClientStatusCallbackUserData g True)"

definition LDClientGet :: "LDGlobal \<Rightarrow> LDClient option" where
  "LDClientGet g = (case g_clientTable g of [] \<Rightarrow> None | (_, c) # _ \<Rightarrow> Some c)"

text \<open>
  Waiting for a client: \<open>LDi_cond_wait\<close> returns at the first signal, and \<open>LDi_updatestatus\<close> signals on every
  call. \<open>updates\<close> are the calls made by other threads before the time is over, in their order.
\<close>

definition await_signal :: "bool \<Rightarrow> LDClient \<Rightarrow> LDStatus list \<Rightarrow> LDClient" where
  "await_signal callback client updates =
     (case updates of [] \<Rightarrow> client | status # _ \<Rightarrow> LDi_updatestatus callback client status)"

definition LDClientAwaitInitialized :: "LDGlobal \<Rightarrow> LDClient option \<Rightarrow> LDStatus list \<Rightarrow> bool" where
  "LDClientAwaitInitialized g client updates =
     (case client of
        None \<Rightarrow> False
      | Some c \<Rightarrow>
          (if cl_status c = LDStatusInitialized then True
           else cl_status (await_signal (g_callback g) c updates) = LDStatusInitialized))"

text \<open>Flushing only wakes up the event senders: the environments whose condition is signalled.\<close>

definition LDClientFlush :: "LDGlobal \<Rightarrow> LDClient option \<Rightarrow> string list" where
  "LDClientFlush g client = (case client of None \<Rightarrow> [] | Some _ \<Rightarrow> map fst (g_clientTable g))"

text \<open>
  Identifying: every client closes its connection and queues an identify event (and an alias
  event when an anonymous user becomes known), but the status that is reset on each turn is
  that of the client the call was made on.
\<close>

definition identify_client ::
  "LDUser \<Rightarrow> LDUser \<Rightarrow> bool \<Rightarrow> double \<Rightarrow> LDClient \<Rightarrow> LDClient cmd" where
  "identify_client user previousUser shouldAlias now client =
     cbind (with_ep (LDi_reinitializeconnection client)
              (LDi_identify (cl_eventProcessor client) user now)) (\<lambda>client.
       if shouldAlias
       then with_ep client (LDi_alias (cl_eventProcessor client) user previousUser now)
       else cret client)"

fun identify_loop ::
  "bool \<Rightarrow> string \<Rightarrow> (LDClient \<Rightarrow> LDClient cmd) \<Rightarrow> string list \<Rightarrow> (string \<times> LDClient) list \<Rightarrow>
   (string \<times> LDClient) list cmd" where
  "identify_loop callback self f [] table = cret table"
| "identify_loop callback self f (name # names) table =
     (let table = update_first self (\<lambda>c. LDi_updatestatus callback c LDStatusInitializing) table in
      case map_of table name of
        None \<Rightarrow> identify_loop callback self f names table
      | Some c \<Rightarrow>
          cbind (f c) (\<lambda>c'. identify_loop callback self f names (update_first name (\<lambda>_. c') table)))"

definition LDClientIdentify :: "LDGlobal \<Rightarrow> string \<Rightarrow> user_ptr \<Rightarrow> double \<Rightarrow> LDGlobal cmd" where
  "LDClientIdentify g self user now =
     (case user of
        None \<Rightarrow> cret g
      | Some u \<Rightarrow>
          (case (g_sharedUser g, g_sharedConfig g) of
             (Some previousUser, Some config) \<Rightarrow>
               (let shouldAlias = user_anonymous previousUser \<and> \<not> user_anonymous u \<and>
                                  \<not> autoAliasOptOut config
                in cbind (identify_loop (g_callback g) self
                            (identify_client u previousUser shouldAlias now)
                            (map fst (g_clientTable g)) (g_clientTable g)) (\<lambda>table.
                     cret (g\<lparr>g_sharedUser := user, g_clientTable := table\<rparr>)))
           | _ \<Rightarrow> cfault Undefined))"

section \<open>Life cycle\<close>

definition LDi_clientInitIsolated :: "LDConfig \<Rightarrow> LDUser \<Rightarrow> cstring \<Rightarrow> double \<Rightarrow> LDClient cmd" where
  "LDi_clientInitIsolated config user key now =
     cbind LDAlloc (\<lambda>_.
     cbind (LDSetString None key) (\<lambda>(ok, mobile).
       if \<not> ok then cnull
       else
         cbind (LDi_newEventProcessor config now) (\<lambda>ep.
         cbind (LDi_identify ep user now) (\<lambda>(ok, ep).
           if \<not> ok then cnull
           else
             cret \<lparr>cl_mobileKey = mobile, cl_offline = offline config, cl_background = False,
                   cl_status = LDStatusInitializing, cl_shouldstopstreaming = False,
                   cl_streamhandle = LDi_initSocket \<lparr>sock_status = UNINITIALIZED, sock_fd = 0\<rparr>,
                   cl_eventProcessor = ep,
                   cl_world = snd (LDi_storeInitialize empty_world),
                   cl_statusCalls = [], cl_cancelled = []\<rparr>))))"

fun init_secondary ::
  "LDConfig \<Rightarrow> LDUser \<Rightarrow> double \<Rightarrow> json_iter \<Rightarrow> (string \<times> LDClient) list \<Rightarrow> (string \<times> LDClient) list cmd" where
  "init_secondary config user now [] table = cret table"
| "init_secondary config user now ((name, secondaryKey) # rest) table =
     cbind (LD_ASSERT (name \<noteq> None)) (\<lambda>_.
     cbind (ctry (LDi_clientInitIsolated config user (LDGetText (Some secondaryKey)) now)) (\<lambda>c.
     cbind (LD_ASSERT (c \<noteq> None)) (\<lambda>_.
       init_secondary config user now rest (table @ [(the name, the c)]))))"

definition LDClientInit :: "LDGlobal \<Rightarrow> LDConfig option \<Rightarrow> user_ptr \<Rightarrow> double \<Rightarrow> LDGlobal cmd" where
  "LDClientInit g config user now =
     (case (config, user) of
        (Some c, Some u) \<Rightarrow>
          (if g_clientTable g \<noteq> [] then cnull
           else
             cbind (ctry (LDi_clientInitIsolated c u (mobileKey c) now)) (\<lambda>primary.
             cbind (LD_ASSERT (primary \<noteq> None)) (\<lambda>_.
             cbind (init_secondary c u now (LDGetIter (secondaryMobileKeys c))
                      [(LDPrimaryEnvironmentName, the primary)]) (\<lambda>table.
               cret (g\<lparr>g_sharedUser := user, g_sharedConfig := config, g_clientTable := table\<rparr>)))))
      | _ \<Rightarrow> cnull)"

text \<open>Closing one client: the threads end, then its store is destroyed.\<close>

definition clientCloseIsolated :: "bool \<Rightarrow> LDClient \<Rightarrow> LDClient cmd" where
  "clientCloseIsolated callback client =
     (let client = LDi_reinitializeconnection (LDi_updatestatus callback client LDStatusShuttingdown)
      in cbind (LDi_storeDestroy (cl_world client)) (\<lambda>w. cret (client\<lparr>cl_world := w\<rparr>)))"

fun close_all :: "bool \<Rightarrow> (string \<times> LDClient) list \<Rightarrow> LDClient list cmd" where
  "close_all callback [] = cret []"
| "close_all callback ((_, clientIter) # rest) =
     cbind (clientCloseIsolated callback clientIter) (\<lambda>c.
     cbind (close_all callback rest) (\<lambda>cs. cret (c # cs)))"

text \<open>The shared user is freed but its pointer is kept (\<open>g_sharedUser\<close> is not reset).\<close>

definition LDClientClose :: "LDGlobal \<Rightarrow> LDGlobal cmd" where
  "LDClientClose g =
     cbind (close_all (g_callback g) (g_clientTable g)) (\<lambda>_.
       cret (g\<lparr>g_sharedConfig := None, g_clientTable := []\<rparr>))"

section \<open>Lemmas: evaluation\<close>

text \<open>
  The specification of an evaluation: the value of the flag, if the store has it, it is not
  deleted and its type is the requested one, and the fallback otherwise.
\<close>

fun json_cvalue :: "LDJSONType \<Rightarrow> json \<Rightarrow> cvalue option" where
  "json_cvalue LDNull j = Some (CJson j)"
| "json_cvalue LDBool (JBool b) = Some (CBool b)"
| "json_cvalue LDText (JText t) = Some (CText t)"
| "json_cvalue LDNumber (JNumber d) = Some (CDouble d)"
| "json_cvalue _ _ = None"

definition flag_cvalue :: "LDFlag option \<Rightarrow> LDJSONType \<Rightarrow> cvalue \<Rightarrow> cvalue" where
  "flag_cvalue flag kind fallback =
     (case Option.bind flag (\<lambda>f. Option.bind (flag_value f) (json_cvalue kind)) of
        None \<Rightarrow> fallback | Some v \<Rightarrow> v)"

definition spec_eval :: "flag_map \<Rightarrow> string \<Rightarrow> LDJSONType \<Rightarrow> cvalue \<Rightarrow> cvalue" where
  "spec_eval s key kind fallback = flag_cvalue (spec_get s key) kind fallback"

lemma value_json_kind:
  "value_json v kind = Some j \<Longrightarrow> kind = LDNull \<or> kind = LDBool \<or> kind = LDText \<or> kind = LDNumber"
  by (cases "(v, kind)" rule: value_json.cases) auto

lemma json_cvalue_json: "json_cvalue kind j = Some v \<Longrightarrow> value_json v kind \<noteq> None"
  by (cases "(kind, j)" rule: json_cvalue.cases) auto

lemma flag_cvalue_json:
  "value_json fb kind = Some d \<Longrightarrow> value_json (flag_cvalue flag kind fb) kind \<noteq> None"
  by (auto simp: flag_cvalue_def bind_eq_Some_conv dest!: json_cvalue_json split: option.splits)

lemma eval_value_eq:
  assumes fb: "value_json fb kind = Some d" and v: "\<And>f. flag = Some f \<Longrightarrow> flag_value f \<noteq> None"
  shows "eval_value flag kind (Some fb) m = (Val (Some (flag_cvalue flag kind fb)), m)"
proof (cases flag)
  case None
  then show ?thesis by (simp add: eval_value_def flag_cvalue_def cret_def)
next
  case (Some f)
  with v obtain j where j: "flag_value f = Some j" by auto
  from value_json_kind[OF fb] show ?thesis
    using Some j
    by (cases j) (auto simp: eval_value_def flag_cvalue_def LDi_castJSONToValue_def cmd_simps)
qed

definition client_ok :: "addr multiset \<Rightarrow> LDUser \<Rightarrow> LDClient \<Rightarrow> bool" where
  "client_ok held user c \<longleftrightarrow>
     store_inv held (cl_world c) \<and> size held < 4294967294 \<and>
     (\<forall>key f. spec_get (abs_store (cl_world c)) key = Some f \<longrightarrow> flag_value f \<noteq> None) \<and>
     queue_inv (cl_eventProcessor c) \<and>
     summary_ok (ep_summaryCounters (cl_eventProcessor c)) \<and>
     event_user_ok (ep_config (cl_eventProcessor c)) user"

text \<open>What an evaluation does to the client apart from the reference it may hand out.\<close>

definition eval_effect :: "LDClient \<Rightarrow> string \<Rightarrow> LDClient \<Rightarrow> bool" where
  "eval_effect c key c' \<longleftrightarrow>
     abs_store (cl_world c') = abs_store (cl_world c) \<and>
     w_calls (cl_world c') = w_calls (cl_world c) \<and> cl_status c' = cl_status c \<and>
     (\<forall>f k. json_count (ep_summaryCounters (cl_eventProcessor c')) f k =
        json_count (ep_summaryCounters (cl_eventProcessor c)) f k +
        (if f = key \<and> k = summary_key (spec_get (abs_store (cl_world c)) key) then 1 else 0))"

lemma client_upd_swap:
  "(c :: LDClient)\<lparr>cl_eventProcessor := ep, cl_world := w\<rparr> = c\<lparr>cl_world := w, cl_eventProcessor := ep\<rparr>"
  by simp

lemma eval_core:
  assumes ok: "client_ok held user c" and fb: "value_json fb kind = Some d"
  shows "\<exists>node w ep. LDi_evalInternal user (Some c) (Some key) kind (Some fb) sel now now' [] =
      (let v = Some (spec_eval (abs_store (cl_world c)) key kind fb);
           c' = c\<lparr>cl_world := w, cl_eventProcessor := ep\<rparr>
       in if sel then cret (True, v, node, Some c')
          else case node of None \<Rightarrow> cret (True, v, None, Some c')
            | Some a \<Rightarrow> cbind (LDi_rc_decrement a w) (\<lambda>w'. cret (True, v, None,
                Some (c\<lparr>cl_world := w', cl_eventProcessor := ep\<rparr>)))) [] \<and>
    eval_effect c key (c\<lparr>cl_world := w, cl_eventProcessor := ep\<rparr>) \<and>
    map_option node_flag (Option.bind node (w_heap w)) = spec_get (abs_store (cl_world c)) key \<and>
    store_inv (case node of None \<Rightarrow> held | Some a \<Rightarrow> add_mset a held) w \<and>
    queue_inv ep \<and> summary_ok (ep_summaryCounters ep) \<and>
    ep_config ep = ep_config (cl_eventProcessor c)"
proof -
  have inv: "store_inv held (cl_world c)" and sz: "size held < 4294967294"
    and vals: "\<And>f. spec_get (abs_store (cl_world c)) key = Some f \<Longrightarrow> flag_value f \<noteq> None"
    and q: "queue_inv (cl_eventProcessor c)" and sc: "summary_ok (ep_summaryCounters (cl_eventProcessor c))"
    and u: "event_user_ok (ep_config (cl_eventProcessor c)) user"
    using ok by (auto simp: client_ok_def)
  obtain node w where get: "LDi_storeGet (cl_world c) key [] = (Val (node, w), [])"
      "abs_store w = abs_store (cl_world c)" "w_calls w = w_calls (cl_world c)"
    and node: "case node of None \<Rightarrow> w = cl_world c \<and> spec_get (abs_store (cl_world c)) key = None
      | Some a \<Rightarrow> store_inv (add_mset a held) w \<and>
         (\<exists>n. w_heap w a = Some n \<and> spec_get (abs_store (cl_world c)) key = Some (node_flag n))"
    using LDi_storeGet_refines[OF inv sz, of key "[]"] by blast
  let ?flag = "map_option node_flag (Option.bind node (w_heap w))"
  have flag: "?flag = spec_get (abs_store (cl_world c)) key"
    using node by (auto split: option.splits)
  let ?v = "spec_eval (abs_store (cl_world c)) key kind fb"
  have v: "eval_value ?flag kind (Some fb) [] = (Val (Some ?v), [])"
    using eval_value_eq[OF fb, of ?flag "[]"] vals unfolding flag spec_eval_def by blast
  obtain j where "value_json ?v kind = Some j"
    using flag_cvalue_json[OF fb] by (fastforce simp: spec_eval_def)
  from LDi_processEvalEvent_ok[OF q sc u this fb, of key ?flag sel now now'] obtain ep where
    ep: "LDi_processEvalEvent (cl_eventProcessor c) user key kind ?flag (Some ?v) (Some fb) sel now now' [] =
        (Val (True, ep), [])" "queue_inv ep" "summary_ok (ep_summaryCounters ep)"
      "ep_config ep = ep_config (cl_eventProcessor c)"
      "\<And>f k. json_count (ep_summaryCounters ep) f k = json_count (ep_summaryCounters (cl_eventProcessor c)) f k +
         (if f = key \<and> k = summary_key ?flag then 1 else 0)"
    by blast
  have "eval_effect c key (c\<lparr>cl_world := w, cl_eventProcessor := ep\<rparr>)"
    using get ep(5) flag by (simp add: eval_effect_def)
  moreover have "store_inv (case node of None \<Rightarrow> held | Some a \<Rightarrow> add_mset a held) w"
    using node inv by (auto split: option.splits)
  ultimately show ?thesis
    using get v ep flag
    by (intro exI[of _ node] exI[of _ w] exI[of _ ep]) (simp add: LDi_evalInternal_def alloc_ok Let_def client_upd_swap split: option.split)
qed

text \<open>Giving the node back leaves the contents and the invariant of the store.\<close>

lemma release_selected:
  assumes ok: "client_ok held user c" and inv: "store_inv (add_mset a held) w"
    and eff: "eval_effect c key (c\<lparr>cl_world := w, cl_eventProcessor := ep\<rparr>)"
    and ep: "queue_inv ep" "summary_ok (ep_summaryCounters ep)"
      "ep_config ep = ep_config (cl_eventProcessor c)"
  shows "\<exists>w'. LDi_rc_decrement a w [] = (Val w', []) \<and>
    eval_effect c key (c\<lparr>cl_world := w', cl_eventProcessor := ep\<rparr>) \<and>
    client_ok held user (c\<lparr>cl_world := w', cl_eventProcessor := ep\<rparr>)"
proof -
  obtain w' where w': "LDi_rc_decrement a w [] = (Val w', [])" "store_inv held w'"
      "abs_store w' = abs_store w" "w_calls w' = w_calls w"
    using store_inv_decrement[OF inv, of "[]"] by blast
  with eff have "eval_effect c key (c\<lparr>cl_world := w', cl_eventProcessor := ep\<rparr>)"
    by (simp add: eval_effect_def)
  moreover from this w' ok ep have "client_ok held user (c\<lparr>cl_world := w', cl_eventProcessor := ep\<rparr>)"
    by (simp add: client_ok_def eval_effect_def)
  ultimately show ?thesis using w' by blast
qed

lemma keep_unselected:
  assumes "client_ok held user c" and "store_inv held w"
    and "eval_effect c key (c\<lparr>cl_world := w, cl_eventProcessor := ep\<rparr>)"
    and "queue_inv ep" "summary_ok (ep_summaryCounters ep)"
      "ep_config ep = ep_config (cl_eventProcessor c)"
  shows "client_ok held user (c\<lparr>cl_world := w, cl_eventProcessor := ep\<rparr>)"
  using assms by (simp add: client_ok_def eval_effect_def)

lemma eval_plain_ok:
  assumes ok: "client_ok held user c" and fb: "value_json fb kind = Some d"
  shows "\<exists>c'. eval_plain user (Some c) (Some key) kind (Some fb) now now' [] =
      (Val (Some (spec_eval (abs_store (cl_world c)) key kind fb), Some c'), []) \<and>
    eval_effect c key c' \<and> client_ok held user c'"
proof -
  obtain node w ep where e: "LDi_evalInternal user (Some c) (Some key) kind (Some fb) False now now' [] =
      (case node of
         None \<Rightarrow> cret (True, Some (spec_eval (abs_store (cl_world c)) key kind fb), None,
           Some (c\<lparr>cl_world := w, cl_eventProcessor := ep\<rparr>))
       | Some a \<Rightarrow> cbind (LDi_rc_decrement a w) (\<lambda>w. cret (True,
           Some (spec_eval (abs_store (cl_world c)) key kind fb), None,
           Some (c\<lparr>cl_world := w, cl_eventProcessor := ep\<rparr>)))) []"
      "eval_effect c key (c\<lparr>cl_world := w, cl_eventProcessor := ep\<rparr>)"
      "store_inv (case node of None \<Rightarrow> held | Some a \<Rightarrow> add_mset a held) w"
      "queue_inv ep" "summary_ok (ep_summaryCounters ep)" "ep_config ep = ep_config (cl_eventProcessor c)"
    using eval_core[OF ok fb, of key False now now'] unfolding Let_def if_False by blast
  show ?thesis
  proof (cases node)
    case None
    with e keep_unselected[OF ok] show ?thesis
      by (intro exI[of _ "c\<lparr>cl_world := w, cl_eventProcessor := ep\<rparr>"]) (simp add: eval_plain_def alloc_ok)
  next
    case (Some a)
    with e release_selected[OF ok, of a w key ep] obtain w' where
      "LDi_rc_decrement a w [] = (Val w', [])"
      "eval_effect c key (c\<lparr>cl_world := w', cl_eventProcessor := ep\<rparr>)"
      "client_ok held user (c\<lparr>cl_world := w', cl_eventProcessor := ep\<rparr>)"
      by auto
    with e Some show ?thesis by (simp add: eval_plain_def alloc_ok client_upd_swap)
  qed
qed

subsection \<open>Details\<close>

definition error_details :: "string \<Rightarrow> LDVariationDetails" where
  "error_details errorKind =
     \<lparr>variationIndex = -1,
      reason = Some (JObject [(''kind'', JText ''ERROR''), (''errorKind'', JText errorKind)])\<rparr>"

definition spec_details :: "LDFlag option \<Rightarrow> LDJSONType \<Rightarrow> LDVariationDetails" where
  "spec_details flag kind =
     (case flag of
        None \<Rightarrow> error_details ''FLAG_NOT_FOUND''
      | Some f \<Rightarrow>
          (if kind = LDNull \<or> LDJSONGetType (flag_value f) \<in> {kind, LDNull}
           then \<lparr>variationIndex = flag_variation f, reason = flag_reason f\<rparr>
           else error_details ''WRONG_TYPE''))"

lemma set_key_ignore_ok [alloc_ok]:
  "mk [] = (Val v, []) \<Longrightarrow>
   set_key_ignore (Some (JObject xs)) k mk [] = (Val (Some (JObject (obj_put xs k v))), [])"
  by (simp add: set_key_ignore_def alloc_ok)

lemma error_reason_ok [alloc_ok]: "error_reason k [] = (Val (error_details k), [])"
  by (simp add: error_reason_def alloc_ok error_details_def obj_put_def)

lemma fillDetails_ok [alloc_ok]:
  "fillDetails (Some c) (Some key) flag kind [] = (Val (spec_details flag kind), [])"
proof (cases flag)
  case (Some f)
  then show ?thesis
    by (cases "flag_reason f") (auto simp: fillDetails_def spec_details_def alloc_ok)
qed (simp add: fillDetails_def spec_details_def alloc_ok)

lemma eval_detail_ok:
  assumes ok: "client_ok held user c" and fb: "value_json fb kind = Some d"
  shows "\<exists>c'. eval_detail user (Some c) (Some key) kind (Some fb) now now' [] =
      (Val (Some (spec_eval (abs_store (cl_world c)) key kind fb),
        spec_details (spec_get (abs_store (cl_world c)) key) kind, Some c'), []) \<and>
    eval_effect c key c' \<and> client_ok held user c'"
proof -
  obtain node w ep where e: "LDi_evalInternal user (Some c) (Some key) kind (Some fb) True now now' [] =
      (Val (True, Some (spec_eval (abs_store (cl_world c)) key kind fb), node,
         Some (c\<lparr>cl_world := w, cl_eventProcessor := ep\<rparr>)), [])"
      "eval_effect c key (c\<lparr>cl_world := w, cl_eventProcessor := ep\<rparr>)"
      "map_option node_flag (Option.bind node (w_heap w)) = spec_get (abs_store (cl_world c)) key"
      "store_inv (case node of None \<Rightarrow> held | Some a \<Rightarrow> add_mset a held) w"
      "queue_inv ep" "summary_ok (ep_summaryCounters ep)" "ep_config ep = ep_config (cl_eventProcessor c)"
    using eval_core[OF ok fb, of key True now now'] by (auto simp: Let_def cret_def)
  show ?thesis
  proof (cases node)
    case None
    with e keep_unselected[OF ok] show ?thesis
      by (intro exI[of _ "c\<lparr>cl_world := w, cl_eventProcessor := ep\<rparr>"]) (simp add: eval_detail_def alloc_ok)
  next
    case (Some a)
    with e release_selected[OF ok, of a w key ep] obtain w' where
      "LDi_rc_decrement a w [] = (Val w', [])"
      "eval_effect c key (c\<lparr>cl_world := w', cl_eventProcessor := ep\<rparr>)"
      "client_ok held user (c\<lparr>cl_world := w', cl_eventProcessor := ep\<rparr>)"
      by auto
    with e Some show ?thesis by (simp add: eval_detail_def alloc_ok client_upd_swap)
  qed
qed

section \<open>Lemmas: saving and restoring\<close>

lemma map_of_filter_live:
  "distinct (map flag_key fs) \<Longrightarrow>
   map_of (map (\<lambda>f. (flag_key f, f)) (filter (\<lambda>f. \<not> flag_deleted f) fs)) =
     spec_get (map_of (map (\<lambda>f. (flag_key f, f)) fs))"
proof (induction fs)
  case (Cons f fs)
  have "map_of (map (\<lambda>f. (flag_key f, f)) fs) (flag_key f) = None"
    using Cons.prems by (auto simp: map_of_eq_None_iff)
  with Cons show ?case by (auto simp: spec_get_def fun_eq_iff)
qed (simp add: spec_get_def fun_eq_iff)

lemma saved_members_parse:
  assumes "\<And>f. f \<in> set fs \<Longrightarrow> \<not> flag_deleted f \<Longrightarrow> flag_ok f"
  shows "list_all2 member_flag (saved_members fs) (filter (\<lambda>f. \<not> flag_deleted f) fs)"
  using assms
  by (induction fs) (auto simp: saved_members_def member_flag_def flag_parse_serialized)

lemma save_restore:
  assumes inv: "store_inv held (cl_world c)" and inv2: "store_inv held2 (cl_world c2)"
    and quiet: "\<And>a. a \<in> set (flags_of (cl_world c2)) \<Longrightarrow> a \<notin># held2"
    and ok: "\<And>key f. spec_get (abs_store (cl_world c)) key = Some f \<Longrightarrow> flag_ok f"
    and size: "length (flags_of (cl_world c)) < 4294967296"
    and tree: "json_within CJSON_NESTING_LIMIT (JObject (saved_members (table_list (cl_world c))))"
      "numbers_read (JObject (saved_members (table_list (cl_world c))))"
    and fits_in: "int (length (json_text False (JObject (saved_members (table_list (cl_world c)))))) \<le> INT_MAX - 2"
  shows "\<exists>data w. LDClientSaveFlags c [] = (Val data, []) \<and>
    LDClientRestoreFlags callback c2 data [] =
      (Val (True, LDi_updatestatus callback (c2\<lparr>cl_world := w\<rparr>) LDStatusInitialized), []) \<and>
    store_inv held2 w \<and> abs_store w = spec_get (abs_store (cl_world c))"
proof -
  let ?fs = "table_list (cl_world c)"
  have live: "flag_ok f" if "f \<in> set ?fs" "\<not> flag_deleted f" for f
  proof -
    have "map_of (map (\<lambda>f. (flag_key f, f)) ?fs) (flag_key f) = Some f"
      using that(1) distinct_table_keys[OF inv] by (intro map_of_is_SomeI) (auto simp: comp_def)
    then have "abs_store (cl_world c) (flag_key f) = Some f" by (simp add: abs_store_table[OF inv])
    with that(2) ok[of "flag_key f"] show ?thesis by (simp add: spec_get_def)
  qed
  then have "\<And>f. f \<in> set ?fs \<Longrightarrow> \<not> flag_deleted f \<Longrightarrow> flag_value f \<noteq> None"
    by (auto simp: flag_ok_def)
  from LDi_storeGetJSON_ok[OF inv this]
  have saved: "LDClientSaveFlags c [] = (Val (json_text False (JObject (saved_members ?fs))), [])"
    using fits_in by (simp add: LDClientSaveFlags_def alloc_ok)
  have "length (saved_members ?fs) \<le> length (flags_of (cl_world c))"
    by (simp add: saved_members_def table_list_def le_trans[OF length_filter_le])
  with size have len: "length (saved_members ?fs) < 4294967296" by simp
  have d: "distinct (map fst (saved_members ?fs))"
    using distinct_saved_members[OF distinct_table_keys[OF inv]] .
  have parsed: "list_all2 member_flag (saved_members ?fs) (filter (\<lambda>f. \<not> flag_deleted f) ?fs)"
    by (rule saved_members_parse) (rule live)
  from LDi_onstreameventput_ok[where data = "json_text False (JObject (saved_members ?fs))",
      OF inv2 quiet json_of_text[OF tree] len d parsed, of callback]
  show ?thesis
    using saved map_of_filter_live[OF distinct_table_keys[OF inv]]
    by (auto simp: LDClientRestoreFlags_def abs_store_table[OF inv])
qed

section \<open>Lemmas: all flags\<close>

definition live_values :: "LDFlag list \<Rightarrow> (string \<times> json) list" where
  "live_values fs =
     map (\<lambda>f. (flag_key f, the (flag_value f))) (filter (\<lambda>f. \<not> flag_deleted f) fs)"

lemma all_flags_loop_ok:
  assumes "store_inv (held + mset xs) w" and "distinct xs"
    and "map (\<lambda>a. map_option node_flag (w_heap w a)) xs = map Some fs"
    and "\<And>f. f \<in> set fs \<Longrightarrow> \<not> flag_deleted f \<Longrightarrow> flag_value f \<noteq> None"
  shows "\<exists>w'. all_flags_loop xs w (JObject acc) [] =
      (Val (Some (JObject (foldl (\<lambda>zs (k, v). obj_put zs k v) acc (live_values fs))), w'), []) \<and>
    store_inv held w' \<and> abs_store w' = abs_store w"
  using assms
proof (induction xs arbitrary: w fs acc)
  case Nil
  then show ?case by (simp add: live_values_def alloc_ok)
next
  case (Cons a xs)
  then obtain f fs' n where fs: "fs = f # fs'" and n: "w_heap w a = Some n" "node_flag n = f"
    by (cases fs) auto
  have inv: "store_inv (add_mset a (held + mset xs)) w" using Cons.prems(1) by simp
  obtain w1 where w1: "LDi_rc_decrement a w [] = (Val w1, [])" "store_inv (held + mset xs) w1"
      "abs_store w1 = abs_store w" "\<And>b. b \<noteq> a \<Longrightarrow> w_heap w1 b = w_heap w b"
    using store_inv_decrement[OF inv, of "[]"] by blast
  have "map (\<lambda>a. map_option node_flag (w_heap w1 a)) xs = map (\<lambda>a. map_option node_flag (w_heap w a)) xs"
    using Cons.prems(2) by (intro map_cong refl arg_cong[where f = "map_option node_flag"] w1(4)) auto
  also have "\<dots> = map Some fs'" using Cons.prems(3) fs by simp
  finally have rest: "map (\<lambda>a. map_option node_flag (w_heap w1 a)) xs = map Some fs'" .
  let ?acc = "if flag_deleted f then acc else obj_put acc (flag_key f) (the (flag_value f))"
  obtain w' where w': "all_flags_loop xs w1 (JObject ?acc) [] =
      (Val (Some (JObject (foldl (\<lambda>zs (k, v). obj_put zs k v) ?acc (live_values fs'))), w'), [])"
      "store_inv held w'" "abs_store w' = abs_store w1"
    using Cons.IH[OF w1(2) _ rest, of ?acc] Cons.prems(2,4) fs by auto
  have "flag_value f \<noteq> None" if "\<not> flag_deleted f" using Cons.prems(4)[of f] that fs by simp
  with w' w1 n fs show ?case
    by (auto simp: load_node_def alloc_ok live_values_def split: if_splits)
qed

lemma LDAllFlags_ok:
  assumes inv: "store_inv held (cl_world c)"
    and size: "size held + length (flags_of (cl_world c)) < 4294967295"
    and vals: "\<And>f. f \<in> set (table_list (cl_world c)) \<Longrightarrow> \<not> flag_deleted f \<Longrightarrow> flag_value f \<noteq> None"
  shows "\<exists>w. LDAllFlags (Some c) [] =
      (Val (Some (JObject (live_values (table_list (cl_world c)))), Some (c\<lparr>cl_world := w\<rparr>)), []) \<and>
    store_inv held w \<and> abs_store w = abs_store (cl_world c)"
proof -
  let ?w = "cl_world c"
  obtain w1 where w1: "LDi_storeGetAll ?w [] = (Val (flags_of ?w, w1), [])"
      "store_inv (held + mset (flags_of ?w)) w1" "abs_store w1 = abs_store ?w" "w_store w1 = w_store ?w"
    and heap: "\<And>b. map_option node_flag (w_heap w1 b) = map_option node_flag (w_heap ?w b)"
  proof (cases "flags_of ?w = []")
    case True
    with inv show ?thesis by (intro that[of ?w]) (simp_all add: LDi_storeGetAll_def alloc_ok)
  next
    case False
    have "set (flags_of ?w) \<subseteq> dom (w_heap ?w)" using store_inv_heap[OF inv] by auto
    from increment_all_inv[OF inv this size, of "[]"] obtain w1 where
      "increment_all (flags_of ?w) ?w [] = (Val w1, [])" "store_inv (held + mset (flags_of ?w)) w1"
      "abs_store w1 = abs_store ?w" "w_store w1 = w_store ?w"
      "\<forall>b. map_option node_flag (w_heap w1 b) = map_option node_flag (w_heap ?w b)"
      by blast
    with False show ?thesis by (intro that[of w1]) (simp_all add: LDi_storeGetAll_def alloc_ok)
  qed
  have fl: "map (\<lambda>a. map_option node_flag (w_heap w1 a)) (flags_of ?w) = map Some (table_list ?w)"
    using store_inv_heap[OF inv] by (force simp: table_list_def heap)
  have "distinct (flags_of ?w)" using inv by (simp add: store_inv_def)
  from all_flags_loop_ok[OF w1(2) this fl vals, of "[]"] obtain w where
    w: "all_flags_loop (flags_of ?w) w1 (JObject []) [] =
      (Val (Some (JObject (foldl (\<lambda>zs (k, v). obj_put zs k v) [] (live_values (table_list ?w)))), w), [])"
      "store_inv held w" "abs_store w = abs_store w1" by blast
  have "distinct (map fst (live_values (table_list ?w)))"
    using distinct_table_keys[OF inv]
    by (auto simp: live_values_def comp_def distinct_map inj_on_def)
  with w w1 foldl_obj_put_new[of "[]" "live_values (table_list ?w)"] show ?thesis
    by (intro exI[of _ w]) (simp add: LDAllFlags_def alloc_ok)
qed

section \<open>Lemmas: identifying\<close>

lemma with_ep_status: "with_ep c cmd m = (Val c', m') \<Longrightarrow> cl_status c' = cl_status c"
  by (auto simp: with_ep_def cmd_Val_iffs)

text \<open>The connection of a client: its socket and the sockets that were shut down.\<close>

definition connection :: "LDClient \<Rightarrow> ld_socket_state \<times> int list" where
  "connection c = (cl_streamhandle c, cl_cancelled c)"

definition restarted :: "ld_socket_state \<times> int list \<Rightarrow> ld_socket_state \<times> int list" where
  "restarted conn = (case conn of (h, fds) \<Rightarrow>
     if sock_status h = OPEN then (h\<lparr>sock_status := CLOSED\<rparr>, fds @ [sock_fd h]) else conn)"

lemma connection_reinit: "connection (LDi_reinitializeconnection c) = restarted (connection c)"
  by (simp add: connection_def restarted_def LDi_reinitializeconnection_def LDi_socketLoad_def LDi_socketClose_def)

lemma restarted_twice: "restarted (restarted conn) = restarted conn"
  by (cases conn) (simp add: restarted_def)

lemma with_ep_connection: "with_ep c cmd m = (Val c', m') \<Longrightarrow> connection c' = connection c"
  by (auto simp: with_ep_def cmd_Val_iffs connection_def)

lemma identify_client_obs:
  assumes "identify_client u prev alias now c m = (Val c', m')"
  shows "cl_status c' = cl_status c" and "connection c' = restarted (connection c)"
proof -
  obtain c1 m1 where c1: "with_ep (LDi_reinitializeconnection c) (LDi_identify (cl_eventProcessor c) u now) m = (Val c1, m1)"
      "(if alias then with_ep c1 (LDi_alias (cl_eventProcessor c1) u prev now) else cret c1) m1 = (Val c', m')"
    using assms by (auto simp: identify_client_def cmd_Val_iffs)
  have "cl_status (LDi_reinitializeconnection c) = cl_status c"
    by (simp add: LDi_reinitializeconnection_def split: prod.split)
  with c1 show "cl_status c' = cl_status c"
    by (auto simp: cret_Val_iff dest!: with_ep_status split: if_splits)
  from c1 show "connection c' = restarted (connection c)"
    by (auto simp: cret_Val_iff connection_reinit dest!: with_ep_connection split: if_splits)
qed

text \<open>
  What the loop does to something observed of a client: what the body does on the clients it visits, and
  what the change of status does on the client of the call.
\<close>

lemma identify_loop_obs:
  assumes "identify_loop callback self f names table m = (Val table', m')"
    and f: "\<And>c c' m m'. f c m = (Val c', m') \<Longrightarrow> obs c' = F (obs c)"
    and upd: "\<And>c. obs (LDi_updatestatus callback c LDStatusInitializing) = G (obs c)"
    and comm: "\<And>x. F (G x) = G (F x)" "\<And>x. F (F x) = F x" "\<And>x. G (G x) = G x"
  shows "map_option obs (map_of table' name) = map_option (\<lambda>c.
    (if name \<in> set names then F else id) ((if name = self \<and> names \<noteq> [] then G else id) (obs c))) (map_of table name)"
  using assms(1)
proof (induction names arbitrary: table m)
  case Nil
  then show ?case by (auto simp: cret_def intro: option.map_cong0)
next
  case (Cons n names)
  define t0 where "t0 = update_first self (\<lambda>c. LDi_updatestatus callback c LDStatusInitializing) table"
  have t0: "map_option obs (map_of t0 name) = map_option (\<lambda>c. (if name = self then G else id) (obs c)) (map_of table name)"
    by (cases "map_of table name") (auto simp: t0_def map_of_update_first upd)
  have "\<exists>t m1. identify_loop callback self f names t m1 = (Val table', m') \<and>
    map_option obs (map_of t name) = map_option (\<lambda>c. (if name = n then F else id) (obs c)) (map_of t0 name)"
  proof (cases "map_of t0 n")
    case None
    then have "map_option obs (map_of t0 name) = map_option (\<lambda>c. (if name = n then F else id) (obs c)) (map_of t0 name)"
      by (cases "name = n") (auto intro: option.map_cong0)
    moreover have "identify_loop callback self f names t0 m = (Val table', m')"
      using None Cons.prems by (simp add: Let_def t0_def[symmetric])
    ultimately show ?thesis by blast
  next
    case (Some c)
    with Cons.prems obtain c' m2 where c': "f c m = (Val c', m2)"
        "identify_loop callback self f names (update_first n (\<lambda>_. c') t0) m2 = (Val table', m')"
      by (auto simp: Let_def cmd_Val_iffs t0_def[symmetric])
    moreover have "map_option obs (map_of (update_first n (\<lambda>_. c') t0) name) =
        map_option (\<lambda>c. (if name = n then F else id) (obs c)) (map_of t0 name)"
      using Some f[OF c'(1)] by (cases "map_of t0 name") (auto simp: map_of_update_first)
    ultimately show ?thesis by blast
  qed
  then obtain t m1 where t: "identify_loop callback self f names t m1 = (Val table', m')"
    "map_option obs (map_of t name) = map_option (\<lambda>c. (if name = n then F else id) (obs c)) (map_of t0 name)"
    by blast
  from Cons.IH[OF t(1)] t(2) t0 show ?case
    by (cases "map_of t name"; cases "map_of t0 name"; cases "map_of table name"; cases "map_of table' name")
      (auto simp: comm split: if_splits)
qed

lemma LDi_identify_ok:
  assumes "queue_inv ctx" and "event_user_ok (ep_config ctx) user"
  shows "\<exists>e. LDi_identify ctx user now [] = (Val (True, add_event_ok ctx e), [])"
proof -
  obtain k where "user_key user = Some k" using assms(2) by (auto simp: event_user_ok_def)
  moreover obtain j where "event_user ctx user [] = (Val j, [])" using event_user_succeeds[OF assms(2)] by blast
  ultimately show ?thesis
    using assms(1) by (auto simp: LDi_identify_def LDi_newIdentifyEvent_def LDi_newBaseEvent_def queue_event_def alloc_ok
        LDi_addEvent_eq add_event_ok_eq)
qed

text \<open>
  A value that is read after its reference was given back may be gone: between the two a newer
  version of the flag can arrive, and the node is freed.
\<close>

lemma released_node_may_be_freed:
  "\<exists>w1 w2. LDi_rc_decrement 0 sample_held_world [] = (Val w1, []) \<and>
    LDi_storeUpsert w1 (sample_flag ''a'' 2 (JBool False)) [] = (Val (True, w2), []) \<and>
    load_node w2 0 [] = (Fault Undefined, [])"
  by (simp add: sample_held_world_def LDi_storeGet_def load_node_def LDi_rc_increment_def LDi_rc_decrement_def
      LDi_destroyStoreNode_def HASH_DEL_def sample_defs has_key_def)

section \<open>Properties\<close>

text \<open>What each kind of result is, read through its pointer.\<close>

lemma spec_eval_kinds:
  "\<exists>b. spec_eval s key LDBool (CBool b0) = CBool b"
  "\<exists>d. spec_eval s key LDNumber (CDouble d0) = CDouble d"
  "\<exists>t. spec_eval s key LDText (CText t0) = CText t"
  "\<exists>j. spec_eval s key LDNull (CJson j0) = CJson j"
proof -
  have "value_json (spec_eval s key kind fb) kind \<noteq> None" if "value_json fb kind \<noteq> None" for kind fb
    using that flag_cvalue_json unfolding spec_eval_def by fast
  from this[of "CBool b0" LDBool] this[of "CDouble d0" LDNumber] this[of "CText t0" LDText] this[of "CJson j0" LDNull]
  show "\<exists>b. spec_eval s key LDBool (CBool b0) = CBool b"
    "\<exists>d. spec_eval s key LDNumber (CDouble d0) = CDouble d"
    "\<exists>t. spec_eval s key LDText (CText t0) = CText t"
    "\<exists>j. spec_eval s key LDNull (CJson j0) = CJson j"
    by (auto elim: value_json.elims)
qed

definition sample_ready :: LDClient where
  "sample_ready = sample_client\<lparr>cl_world := sample_world\<rparr>"

lemma sample_ready_ok: "client_ok {#} sample_user sample_ready"
  using sample_world_inv sample_processor_inv
  by (auto simp: client_ok_def sample_ready_def sample_client_def sample_world_abs spec_get_def sample_flag_def
      event_user_ok_def sample_config_def config_defaults_def sample_user_def all_text_def LDGetIter_def
      split: if_splits)

text \<open>
  A call that returns \<open>r\<close> (and \<open>details\<close>), counts the evaluation once, gives every reference back and
  leaves the flags as they are.
\<close>

definition evaluates ::
  "addr multiset \<Rightarrow> LDUser \<Rightarrow> LDClient \<Rightarrow> string \<Rightarrow> ('a \<times> LDClient option) cmd \<Rightarrow> 'a \<Rightarrow> bool" where
  "evaluates held user c key run r \<longleftrightarrow>
     (\<exists>c'. run [] = (Val (r, Some c'), []) \<and> eval_effect c key c' \<and> client_ok held user c')"

definition evaluates_detail ::
  "addr multiset \<Rightarrow> LDUser \<Rightarrow> LDClient \<Rightarrow> string \<Rightarrow> ('a \<times> 'd \<times> LDClient option) cmd \<Rightarrow> 'a \<Rightarrow> 'd \<Rightarrow> bool" where
  "evaluates_detail held user c key run r details \<longleftrightarrow>
     (\<exists>c'. run [] = (Val (r, details, Some c'), []) \<and> eval_effect c key c' \<and> client_ok held user c')"

text \<open>Every variation is an evaluation followed by reading its result.\<close>

lemma evaluatesI:
  assumes "client_ok held user c" and "value_json fb kind = Some d"
    and "spec_eval (abs_store (cl_world c)) key kind fb = v"
    and "run = cbind (eval_plain user (Some c) (Some key) kind (Some fb) now now') (\<lambda>(v, client). cbind (read v) (\<lambda>r. cret (r, client)))"
  shows "read (Some v) [] = (Val r, []) \<Longrightarrow> evaluates held user c key run r"
    and "read (Some v) [] = (Fault e, []) \<Longrightarrow> run [] = (Fault e, [])"
  using eval_plain_ok[OF assms(1,2), of key now now'] assms(3,4)
  by (auto simp: evaluates_def cbind_def cret_def)

lemma evaluates_detailI:
  assumes "client_ok held user c" and "value_json fb kind = Some d"
    and "spec_eval (abs_store (cl_world c)) key kind fb = v"
    and "run = cbind (eval_detail user (Some c) (Some key) kind (Some fb) now now')
      (\<lambda>(v, details, client). cbind (read v) (\<lambda>r. cret (r, g details, client)))"
  shows "read (Some v) [] = (Val r, []) \<Longrightarrow>
      evaluates_detail held user c key run r (g (spec_details (spec_get (abs_store (cl_world c)) key) kind))"
    and "read (Some v) [] = (Fault e, []) \<Longrightarrow> run [] = (Fault e, [])"
  using eval_detail_ok[OF assms(1,2), of key now now'] assms(3,4)
  by (auto simp: evaluates_detail_def cbind_def cret_def)

text \<open>The buffer after a text was copied with room for the terminator.\<close>

definition copied :: "string \<Rightarrow> string \<Rightarrow> 64 word \<Rightarrow> string" where
  "copied t buf bufferSize =
     (let n = min (length t) (unat bufferSize - 1) in take n t @ nul # drop (Suc n) buf)"

lemma unat_strlen64: "length t < 2 ^ 64 \<Longrightarrow> unat (strlen64 t) = length t"
  by (simp add: strlen64_def unat_of_nat)

lemma copy_text_run:
  assumes "length t < 2 ^ 64" and "n = unat (min (strlen64 t) (bufferSize - 1))"
  shows "copy_text (Some (CText t)) (Some buf) bufferSize m =
    (if n < length buf then (Val (take n t @ nul # drop (Suc n) buf), m) else (Fault Undefined, m))"
proof -
  note l = unat_strlen64[OF assms(1)]
  have "n \<le> length t" using assms(2) l by (metis min.cobounded1 word_le_nat_alt)
  moreover have "(take n (t @ [nul]) @ drop n buf)[n := nul] = take n t @ nul # drop (Suc n) buf" if "n < length buf" "n \<le> length t"
    using that by (simp add: list_update_append Cons_nth_drop_Suc[symmetric] min_def)
  ultimately show ?thesis
    by (auto simp: copy_text_def memcpy_text_def store_byte_def assms(2)[symmetric] Let_def cbind_def cret_def cfault_def)
qed

lemma copy_text_ok:
  assumes "length t < 2 ^ 64" and "0 < bufferSize" and "unat bufferSize \<le> length buf"
  shows "copy_text (Some (CText t)) (Some buf) bufferSize [] = (Val (copied t buf bufferSize), [])"
proof -
  have "unat bufferSize \<noteq> 0" using assms(2) by (simp add: word_less_nat_alt)
  moreover have "unat (bufferSize - 1) = unat bufferSize - 1" using assms(2) by (intro unat_minus_one) auto
  moreover note unat_strlen64[OF assms(1)]
  ultimately have "unat (min (strlen64 t) (bufferSize - 1)) = min (length t) (unat bufferSize - 1)"
    "min (length t) (unat bufferSize - 1) < length buf"
    using assms(3) by (simp add: min_def word_le_nat_alt, linarith)
  then show ?thesis using copy_text_run[OF assms(1) refl, of buf bufferSize "[]"] by (simp add: copied_def Let_def)
qed

text \<open>With the size 0 the limit wraps around to the largest size, so that the whole text is copied.\<close>

lemma copy_text_wrap:
  assumes "length t < 2 ^ 64"
  shows "copy_text (Some (CText t)) (Some buf) 0 [] =
    (if length t < length buf then (Val (t @ nul # drop (Suc (length t)) buf), []) else (Fault Undefined, []))"
proof -
  have "min (strlen64 t) (0 - 1) = strlen64 t" by (simp add: min_def)
  moreover note unat_strlen64[OF assms]
  ultimately show ?thesis using copy_text_run[OF assms refl, of buf 0 "[]"] by simp
qed

text \<open>C22. Evaluation refines its specification for all ten variation functions. With memory available and \<open>v\<close> the value of the
  live flag of that key if it has the requested type and the fallback otherwise, the variations of
  booleans, doubles, allocated strings and JSON return \<open>v\<close>; the integer ones return it truncated if that is an
  \<open>int\<close> and are undefined behaviour otherwise; those with a buffer of at least one byte return the longest prefix of it
  that leaves room for the terminator. Each counts the evaluation exactly once, gives every reference
  back and leaves the flags as they are. The variations with details return in addition the variation and
  reason of the flag, or an error reason that tells an unknown flag from one of another type.\<close>

theorem variations_refine_spec:
  assumes "client_ok held user c"
    and "spec_eval (abs_store (cl_world c)) key LDBool (CBool b) = CBool vb"
    and "spec_eval (abs_store (cl_world c)) key LDNumber (CDouble (of_int i)) = CDouble vi"
    and "spec_eval (abs_store (cl_world c)) key LDNumber (CDouble d) = CDouble vd"
    and "spec_eval (abs_store (cl_world c)) key LDText (CText t) = CText vt" and "length vt < 2 ^ 64"
    and "spec_eval (abs_store (cl_world c)) key LDNull (CJson j) = CJson vj"
    and "0 < bufferSize" and "unat bufferSize \<le> length buf"
  shows "evaluates held user c key (LDBoolVariation user (Some c) (Some key) b now now') vb \<and>
    evaluates_detail held user c key (LDBoolVariationDetail user (Some c) (Some key) b now now') vb
      (spec_details (spec_get (abs_store (cl_world c)) key) LDBool) \<and>
    (if is_int (c_trunc vi)
     then evaluates held user c key (LDIntVariation user (Some c) (Some key) i now now') (c_trunc vi) \<and>
       evaluates_detail held user c key (LDIntVariationDetail user (Some c) (Some key) i now now') (c_trunc vi)
         (spec_details (spec_get (abs_store (cl_world c)) key) LDNumber)
     else LDIntVariation user (Some c) (Some key) i now now' [] = (Fault Undefined, []) \<and>
       LDIntVariationDetail user (Some c) (Some key) i now now' [] = (Fault Undefined, [])) \<and>
    evaluates held user c key (LDDoubleVariation user (Some c) (Some key) d now now') vd \<and>
    evaluates_detail held user c key (LDDoubleVariationDetail user (Some c) (Some key) d now now') vd
      (spec_details (spec_get (abs_store (cl_world c)) key) LDNumber) \<and>
    evaluates held user c key (LDStringVariation user (Some c) (Some key) (Some t) (Some buf) bufferSize now now')
      (copied vt buf bufferSize) \<and>
    evaluates_detail held user c key (LDStringVariationDetail user (Some c) (Some key) (Some t) (Some buf) bufferSize now now')
      (copied vt buf bufferSize) (spec_details (spec_get (abs_store (cl_world c)) key) LDText) \<and>
    evaluates held user c key (LDStringVariationAlloc user (Some c) (Some key) (Some t) now now') vt \<and>
    evaluates_detail held user c key (LDStringVariationAllocDetail user (Some c) (Some key) (Some t) now now') vt
      (spec_details (spec_get (abs_store (cl_world c)) key) LDText) \<and>
    evaluates held user c key (LDJSONVariation user (Some c) (Some key) (Some j) now now') vj \<and>
    evaluates_detail held user c key (LDJSONVariationDetail user (Some c) (Some key) (Some j) now now') vj
      (Some (spec_details (spec_get (abs_store (cl_world c)) key) LDNull))"
proof -
  note plain = evaluatesI[OF assms(1), where now = now and now' = now']
  note detail = evaluates_detailI[OF assms(1), where now = now and now' = now']
  note details = detail[where g = "\<lambda>x. x"] detail[where g = Some]
  have int: "deref_int (Some (CDouble vi)) [] =
      (if is_int (c_trunc vi) then (Val (c_trunc vi), []) else (Fault Undefined, []))"
    by (simp add: deref_int_def deref_double_def clift_def double_to_int_def is_int_def cmd_simps)
  show ?thesis
  proof (intro conjI)
    show "evaluates held user c key (LDBoolVariation user (Some c) (Some key) b now now') vb"
      by (rule plain(1)[OF _ assms(2) LDBoolVariation_def]) (simp_all add: deref_bool_def cret_def)
    show "evaluates_detail held user c key (LDBoolVariationDetail user (Some c) (Some key) b now now') vb
        (spec_details (spec_get (abs_store (cl_world c)) key) LDBool)"
      by (rule details(1)[OF _ assms(2) LDBoolVariationDetail_def]) (simp_all add: deref_bool_def cret_def)
    show "evaluates held user c key (LDDoubleVariation user (Some c) (Some key) d now now') vd"
      by (rule plain(1)[OF _ assms(4) LDDoubleVariation_def]) (simp_all add: deref_double_def cret_def)
    show "evaluates_detail held user c key (LDDoubleVariationDetail user (Some c) (Some key) d now now') vd
        (spec_details (spec_get (abs_store (cl_world c)) key) LDNumber)"
      by (rule details(1)[OF _ assms(4) LDDoubleVariationDetail_def]) (simp_all add: deref_double_def cret_def)
    show "if is_int (c_trunc vi)
     then evaluates held user c key (LDIntVariation user (Some c) (Some key) i now now') (c_trunc vi) \<and>
       evaluates_detail held user c key (LDIntVariationDetail user (Some c) (Some key) i now now') (c_trunc vi)
         (spec_details (spec_get (abs_store (cl_world c)) key) LDNumber)
     else LDIntVariation user (Some c) (Some key) i now now' [] = (Fault Undefined, []) \<and>
       LDIntVariationDetail user (Some c) (Some key) i now now' [] = (Fault Undefined, [])"
      using plain[OF _ assms(3) LDIntVariation_def] details(1,2)[OF _ assms(3) LDIntVariationDetail_def] int by simp
    show "evaluates held user c key (LDStringVariation user (Some c) (Some key) (Some t) (Some buf) bufferSize now now')
        (copied vt buf bufferSize)"
      by (rule plain(1)[OF _ assms(5) LDStringVariation_def[of user "Some c" "Some key" "Some t", simplified]])
        (simp, rule copy_text_ok[OF assms(6,8,9)])
    show "evaluates_detail held user c key (LDStringVariationDetail user (Some c) (Some key) (Some t) (Some buf) bufferSize now now')
        (copied vt buf bufferSize) (spec_details (spec_get (abs_store (cl_world c)) key) LDText)"
      by (rule details(1)[OF _ assms(5) LDStringVariationDetail_def[of user "Some c" "Some key" "Some t", simplified]])
        (simp, rule copy_text_ok[OF assms(6,8,9)])
    show "evaluates held user c key (LDStringVariationAlloc user (Some c) (Some key) (Some t) now now') vt"
      by (rule plain(1)[OF _ assms(5) LDStringVariationAlloc_def[of user "Some c" "Some key" "Some t", simplified]])
        (simp_all add: dup_text_def alloc_ok)
    show "evaluates_detail held user c key (LDStringVariationAllocDetail user (Some c) (Some key) (Some t) now now') vt
        (spec_details (spec_get (abs_store (cl_world c)) key) LDText)"
      by (rule details(1)[OF _ assms(5) LDStringVariationAllocDetail_def[of user "Some c" "Some key" "Some t", simplified]])
        (simp_all add: dup_text_def alloc_ok)
    show "evaluates held user c key (LDJSONVariation user (Some c) (Some key) (Some j) now now') vj"
      by (rule plain(1)[OF _ assms(7) LDJSONVariation_def[of user "Some c" "Some key" "Some j", simplified]])
        (simp_all add: dup_json_def alloc_ok)
    show "evaluates_detail held user c key (LDJSONVariationDetail user (Some c) (Some key) (Some j) now now') vj
        (Some (spec_details (spec_get (abs_store (cl_world c)) key) LDNull))"
      by (rule details(3)[OF _ assms(7) LDJSONVariationDetail_def[of user "Some c" "Some key" "Some j", simplified]])
        (simp_all add: dup_json_def alloc_ok)
  qed
qed

text \<open>A boolean flag: the other types give the fallback and an error reason.\<close>

theorem variations_refine_spec_witness:
  "evaluates {#} sample_user sample_ready ''a'' (LDBoolVariation sample_user (Some sample_ready) (Some ''a'') False 1 1) True \<and>
   evaluates_detail {#} sample_user sample_ready ''a'' (LDIntVariationDetail sample_user (Some sample_ready) (Some ''a'') 5 1 1)
     5 (error_details ''WRONG_TYPE'') \<and>
   evaluates {#} sample_user sample_ready ''a''
     (LDStringVariation sample_user (Some sample_ready) (Some ''a'') (Some ''hello'') (Some ''xxxx'') 3 1 1) (''he'' @ [nul] @ ''x'')"
proof -
  let ?s = "abs_store (cl_world sample_ready)"
  have v: "spec_eval ?s ''a'' LDBool (CBool False) = CBool True" "spec_eval ?s ''a'' LDNumber (CDouble (of_int 5)) = CDouble 5"
    "spec_eval ?s ''a'' LDNumber (CDouble 1) = CDouble 1" "spec_eval ?s ''a'' LDText (CText ''hello'') = CText ''hello''"
    "spec_eval ?s ''a'' LDNull (CJson JNull) = CJson (JBool True)"
    "spec_details (spec_get ?s ''a'') LDNumber = error_details ''WRONG_TYPE''"
    by (simp_all add: spec_eval_def flag_cvalue_def spec_get_def sample_ready_def sample_world_abs sample_flag_def
        spec_details_def LDJSONGetType_def)
  have "is_int (c_trunc 5)" "c_trunc 5 = 5" "copied ''hello'' ''xxxx'' 3 = ''he'' @ [nul] @ ''x''"
    by (simp_all add: is_int_def c_trunc_def INT_MIN_def INT_MAX_def copied_def)
  then show ?thesis
    using variations_refine_spec[OF sample_ready_ok v(1-4) _ v(5), of 3 "''xxxx''" 1 1] v(6) by simp
qed

text \<open>C34. A string variation with a buffer never writes outside of it when the size it is given is at least 1 and at most that
  of the buffer: the buffer then holds the longest prefix of the text of the evaluation that
  leaves room for the terminator, the terminator, and its old bytes behind. With the size 0 the length computation in 64
  bits wraps around and is no limit: the whole text is copied, which is undefined behaviour for every
  buffer that is not longer than the text, whatever the flag.\<close>

theorem string_variation_bounded:
  assumes "client_ok held user c"
    and "spec_eval (abs_store (cl_world c)) key LDText (CText fallback) = CText t" and "length t < 2 ^ 64"
  shows "(0 < bufferSize \<and> unat bufferSize \<le> length buf \<longrightarrow>
      evaluates held user c key (LDStringVariation user (Some c) (Some key) (Some fallback) (Some buf) bufferSize now now')
        (take (min (length t) (unat bufferSize - 1)) t @ nul # drop (Suc (min (length t) (unat bufferSize - 1))) buf)) \<and>
    (bufferSize = 0 \<and> length buf \<le> length t \<longrightarrow>
      LDStringVariation user (Some c) (Some key) (Some fallback) (Some buf) bufferSize now now' [] = (Fault Undefined, []))"
proof -
  note run = evaluatesI[OF assms(1) _ assms(2) LDStringVariation_def[of user "Some c" "Some key" "Some fallback", simplified]]
  show ?thesis
  proof (intro conjI impI)
    assume "0 < bufferSize \<and> unat bufferSize \<le> length buf"
    then show "evaluates held user c key (LDStringVariation user (Some c) (Some key) (Some fallback) (Some buf) bufferSize now now')
        (take (min (length t) (unat bufferSize - 1)) t @ nul # drop (Suc (min (length t) (unat bufferSize - 1))) buf)"
      using run(1)[OF _ copy_text_ok[OF assms(3), of bufferSize buf]] by (simp add: copied_def Let_def)
  next
    assume b: "bufferSize = 0 \<and> length buf \<le> length t"
    then have "copy_text (Some (CText t)) (Some buf) bufferSize [] = (Fault Undefined, [])"
      using copy_text_wrap[OF assms(3), of buf] by simp
    then show "LDStringVariation user (Some c) (Some key) (Some fallback) (Some buf) bufferSize now now' [] = (Fault Undefined, [])"
      by (intro run(2)) simp
  qed
qed

theorem string_variation_bounded_witness:
  "evaluates {#} sample_user sample_ready ''b''
     (LDStringVariation sample_user (Some sample_ready) (Some ''b'') (Some ''hello'') (Some ''xxxx'') 3 1 1) (''he'' @ [nul] @ ''x'') \<and>
   LDStringVariation sample_user (Some sample_ready) (Some ''b'') (Some ''hello'') (Some []) 0 1 1 [] = (Fault Undefined, [])"
proof -
  have "spec_eval (abs_store (cl_world sample_ready)) ''b'' LDText (CText ''hello'') = CText ''hello''"
    by (simp add: spec_eval_def flag_cvalue_def spec_get_def sample_ready_def sample_world_abs)
  note r = string_variation_bounded[OF sample_ready_ok this]
  show ?thesis using r[of 3 "''xxxx''" 1 1] r[of 0 "[]" 1 1] by simp
qed

text \<open>C33. With memory available \<open>LDAllFlags\<close> returns exactly the live flags with their values, gives
  every reference back and leaves the store as it is.\<close>

theorem all_flags_exact:
  assumes "store_inv held (cl_world c)"
    and "size held + length (flags_of (cl_world c)) < 4294967295"
    and "\<And>key f. spec_get (abs_store (cl_world c)) key = Some f \<Longrightarrow> flag_value f \<noteq> None"
  shows "\<exists>xs w. LDAllFlags (Some c) [] = (Val (Some (JObject xs), Some (c\<lparr>cl_world := w\<rparr>)), []) \<and>
    (\<forall>key. LDObjectLookup (Some (JObject xs)) (Some key) =
       Option.bind (spec_get (abs_store (cl_world c)) key) flag_value) \<and>
    store_inv held w \<and> abs_store w = abs_store (cl_world c)"
proof -
  let ?fs = "table_list (cl_world c)"
  have get: "spec_get (abs_store (cl_world c)) = map_of (map (\<lambda>f. (flag_key f, f)) (filter (\<lambda>f. \<not> flag_deleted f) ?fs))"
    using map_of_filter_live[OF distinct_table_keys[OF assms(1)]] by (simp add: abs_store_table[OF assms(1)])
  have vals: "flag_value f \<noteq> None" if "f \<in> set ?fs" "\<not> flag_deleted f" for f
  proof (rule assms(3)[of "flag_key f"])
    show "spec_get (abs_store (cl_world c)) (flag_key f) = Some f"
      unfolding get using that distinct_table_keys[OF assms(1)]
      by (intro map_of_is_SomeI) (auto simp: comp_def distinct_map inj_on_def)
  qed
  have "map_of (live_values fs) key =
      Option.bind (map_of (map (\<lambda>f. (flag_key f, f)) (filter (\<lambda>f. \<not> flag_deleted f) fs)) key) flag_value"
    if "\<And>f. f \<in> set fs \<Longrightarrow> \<not> flag_deleted f \<Longrightarrow> flag_value f \<noteq> None" for fs key
    using that by (induction fs) (auto simp: live_values_def)
  then have "map_of (live_values ?fs) key = Option.bind (spec_get (abs_store (cl_world c)) key) flag_value" for key
    unfolding get using vals by blast
  with LDAllFlags_ok[OF assms(1,2) vals] show ?thesis by auto
qed

theorem all_flags_exact_witness:
  "\<exists>xs c'. LDAllFlags (Some sample_ready) [] = (Val (Some (JObject xs), Some c'), []) \<and>
     LDObjectLookup (Some (JObject xs)) (Some ''a'') = Some (JBool True)"
proof -
  have "store_inv {#} (cl_world sample_ready)" "size {#} + length (flags_of (cl_world sample_ready)) < 4294967295"
    by (simp_all add: sample_ready_def sample_world_inv sample_world_flags)
  moreover have "\<And>key f. spec_get (abs_store (cl_world sample_ready)) key = Some f \<Longrightarrow> flag_value f \<noteq> None"
    using sample_ready_ok by (auto simp: client_ok_def)
  ultimately show ?thesis
    using all_flags_exact[of "{#}" sample_ready]
    by (fastforce simp: sample_ready_def sample_world_abs spec_get_def sample_flag_def)
qed

text \<open>C30. Saving and restoring: what one client saved, another restores to exactly the live flags of
  the first, through the text that the JSON writer prints and the reader reads; the saved tree must
  be one that survives as text, and the restoring client is initialized.\<close>

theorem save_restore_roundtrip:
  assumes "store_inv held (cl_world c)" and "store_inv held2 (cl_world c2)"
    and "\<And>a. a \<in> set (flags_of (cl_world c2)) \<Longrightarrow> a \<notin># held2"
    and "\<And>key f. spec_get (abs_store (cl_world c)) key = Some f \<Longrightarrow> flag_ok f"
    and "length (flags_of (cl_world c)) < 4294967296"
    and "json_within CJSON_NESTING_LIMIT (JObject (saved_members (table_list (cl_world c))))"
    and "numbers_read (JObject (saved_members (table_list (cl_world c))))"
    and "int (length (json_text False (JObject (saved_members (table_list (cl_world c)))))) \<le> INT_MAX - 2"
  shows "\<exists>data c2'. LDClientSaveFlags c [] = (Val data, []) \<and>
    LDClientRestoreFlags callback c2 data [] = (Val (True, c2'), []) \<and>
    store_inv held2 (cl_world c2') \<and> cl_status c2' = LDStatusInitialized \<and>
    abs_store (cl_world c2') = spec_get (abs_store (cl_world c))"
  using save_restore[where callback = callback, OF assms] by force

theorem save_restore_roundtrip_witness:
  "\<exists>data c2'. LDClientSaveFlags sample_ready [] = (Val data, []) \<and>
    LDClientRestoreFlags True sample_client data [] =
      (Val (True, c2'), []) \<and>
    abs_store (cl_world c2') ''a'' = Some (sample_flag ''a'' 1 (JBool True))"
proof -
  let ?j = "JObject (saved_members (table_list sample_world))"
  have members: "saved_members (table_list sample_world) =
      [(''a'', JObject (flag_members (sample_flag ''a'' 1 (JBool True))))]"
    by (simp add: saved_members_def table_list_def sample_defs has_key_def)
  have "json_within CJSON_NESTING_LIMIT ?j" "numbers_read ?j"
    by (simp_all add: members flag_members_def sample_flag_def obj_put_if_def obj_put_def CJSON_NESTING_LIMIT_def)
  moreover have "int (length (json_text False ?j)) \<le> INT_MAX - 2"
    using number_text_length[of 1] number_text_length[of 3] number_text_length[of 0]
    by (simp add: members flag_members_def sample_flag_def obj_put_if_def obj_put_def json_text_def string_text_def c_str_def char_text_def
        short_escapes_def pretty_def tabs_def INT_MAX_def)
  moreover have "flags_of (cl_world sample_client) = []"
    by (simp add: sample_client_def LDi_storeInitialize_def)
  then have "\<And>a. a \<in> set (flags_of (cl_world sample_client)) \<Longrightarrow> a \<notin># {#}" by simp
  moreover have "\<And>key f. spec_get (abs_store (cl_world sample_ready)) key = Some f \<Longrightarrow> flag_ok f"
    by (auto simp: sample_ready_def sample_world_abs spec_get_def sample_flag_def flag_ok_def is_int_def
        INT_MIN_def INT_MAX_def split: if_splits)
  moreover have "store_inv {#} (cl_world sample_ready)" "length (flags_of (cl_world sample_ready)) < 4294967296"
    "cl_world sample_ready = sample_world"
    by (simp_all add: sample_ready_def sample_world_inv sample_world_flags)
  ultimately show ?thesis
    using save_restore_roundtrip[of "{#}" sample_ready "{#}" sample_client True] sample_client_inv
    by (auto simp: sample_world_abs spec_get_def sample_flag_def)
qed

text \<open>C37. Identifying a user resets only the status of the client the call was made on: with several
  environments, the status of every other client stays what it was, although the connection of every client
  is restarted for the new user: a stream that is open is shut down and its socket marked as closed.\<close>

theorem identify_resets_one_status:
  assumes "LDClientIdentify g self (Some u) now m = (Val g', m')"
    and "map_of (g_clientTable g) name = Some c"
  shows "\<exists>c'. map_of (g_clientTable g') name = Some c' \<and> g_sharedUser g' = Some u \<and>
    cl_status c' = (if name = self then LDStatusInitializing else cl_status c) \<and>
    (if sock_status (cl_streamhandle c) = OPEN
     then cl_cancelled c' = cl_cancelled c @ [sock_fd (cl_streamhandle c)] \<and> LDi_socketClosed (cl_streamhandle c')
     else cl_cancelled c' = cl_cancelled c \<and> cl_streamhandle c' = cl_streamhandle c)"
proof -
  obtain f table m1 where loop: "identify_loop (g_callback g) self f (map fst (g_clientTable g)) (g_clientTable g) m =
      (Val table, m1)" "g' = g\<lparr>g_sharedUser := Some u, g_clientTable := table\<rparr>"
    and f: "\<And>c c' m m'. f c m = (Val c', m') \<Longrightarrow> cl_status c' = cl_status c \<and> connection c' = restarted (connection c)"
    using assms(1) identify_client_obs
    by (auto simp: LDClientIdentify_def Let_def cmd_Val_iffs cfault_not_Val split: option.splits)
  have name: "name \<in> set (map fst (g_clientTable g))" using assms(2) by (force dest: map_of_SomeD)
  have upd: "connection (LDi_updatestatus cb c' st) = connection c'" for cb c' st
    by (simp add: connection_def LDi_updatestatus_def)
  have "map_option cl_status (map_of table name) = Some (if name = self then LDStatusInitializing else cl_status c)"
    using identify_loop_obs[OF loop(1), of cl_status "\<lambda>x. x" "\<lambda>_. LDStatusInitializing" name] f name assms(2) by auto
  moreover have "map_option connection (map_of table name) = Some (restarted (connection c))"
    using identify_loop_obs[OF loop(1), of connection restarted "\<lambda>x. x" name] f name assms(2) upd restarted_twice by auto
  ultimately show ?thesis
    using loop(2) by (auto simp: connection_def restarted_def LDi_socketClosed_def split: if_splits)
qed

definition sample_global :: LDGlobal where
  "sample_global =
     \<lparr>g_clientTable = [(LDPrimaryEnvironmentName, sample_ready),
                       (''qa'', LDi_updatehandle (sample_ready\<lparr>cl_status := LDStatusInitialized\<rparr>) 7)],
      g_sharedConfig = Some sample_config, g_sharedUser = Some sample_user, g_callback = False\<rparr>"

theorem identify_resets_one_status_witness:
  "\<exists>g' c'. LDClientIdentify sample_global LDPrimaryEnvironmentName (Some sample_user) 5 [] = (Val g', []) \<and>
     map_of (g_clientTable g') ''qa'' = Some c' \<and> cl_status c' = LDStatusInitialized \<and> cl_cancelled c' = [7]"
proof -
  obtain e where e: "LDi_identify sample_processor sample_user 5 [] = (Val (True, add_event_ok sample_processor e), [])"
    using LDi_identify_ok[of sample_processor sample_user 5] sample_ready_ok
    by (auto simp: client_ok_def sample_ready_def sample_client_def)
  have "\<exists>g'. LDClientIdentify sample_global LDPrimaryEnvironmentName (Some sample_user) 5 [] = (Val g', [])"
    using e by (simp add: LDClientIdentify_def sample_global_def Let_def sample_user_def identify_client_def with_ep_def
        LDi_reinitializeconnection_def LDi_socketLoad_def LDi_updatestatus_def LDi_updatehandle_def sample_ready_def sample_client_def
        LDPrimaryEnvironmentName_def alloc_ok)
  then obtain g' where g': "LDClientIdentify sample_global LDPrimaryEnvironmentName (Some sample_user) 5 [] = (Val g', [])"
    by blast
  from identify_resets_one_status[OF g', of "''qa''"] g' show ?thesis
    by (auto simp: sample_global_def LDPrimaryEnvironmentName_def LDi_updatehandle_def LDi_socketStore_def sample_ready_def
        sample_client_def)
qed

text \<open>
  \<open>LDClientAwaitInitialized\<close> gives up on the first change of the status: when that is not the initialization
  it returns false, whatever happens in the rest of the time. Its result is right only for the
  moment at which the wait was over.
\<close>

theorem await_gives_up_early:
  "LDClientAwaitInitialized g (Some c) (status # updates) \<longleftrightarrow> cl_status c = LDStatusInitialized \<or> status = LDStatusInitialized"
  "cl_status c \<noteq> LDStatusInitialized \<Longrightarrow> \<not> LDClientAwaitInitialized g (Some c) [LDStatusFailed, LDStatusInitialized]"
  by (auto simp: LDClientAwaitInitialized_def await_signal_def LDi_updatestatus_def)

end
