(* ===== verification/Spec2Isabelle.thy ===== *)
theory Spec2Isabelle
  imports Store_Runs Cjson_Minify Ldvalue Platform Logging Base64 Threads Client
begin

text \<open>
  A model of the LaunchDarkly client-side SDK for C, with the theorems that make it correct.

  \<^bold>\<open>The program.\<close> An application creates a client (\<open>src/client.c\<close>) from a configuration
  (\<open>src/config.c\<close>) and a user (\<open>c-sdk-common/src/user.c\<close>). Three background threads per environment
  (\<open>src/ldthreads.c\<close>) keep a store of feature flags (\<open>src/store.c\<close>, \<open>src/reference_count.c\<close>) up to date
  from a stream of server-sent events (\<open>c-sdk-common/src/sse.c\<close>) or by polling, through requests made with
  libcurl (\<open>src/ldnet.c\<close>), and deliver analytics events (\<open>src/event_processor.c\<close>). The application evaluates flags
  against the store and may register listeners (\<open>src/flag_change_listener.c\<close>). Flags, users and events
  are JSON trees (\<open>c-sdk-common/src/json.c\<close> over the bundled \<open>cJSON.c\<close>).

  \<^bold>\<open>How the code is modelled.\<close> A function of the code is a function of the same name. It is a command
  of type \<open>'a cmd\<close> (\<open>Prelude\<close>) where it may allocate, fail or fault: the answers of the allocator are a
  list of booleans, so theorems that quantify over it cover every pattern of failed allocations,
  and \<open>[]\<close> is the allocator that never fails. The outcome is a value, the error return, or a fault: a failed
  assertion, undefined behaviour of C (an access outside a buffer or to a freed node, a cast out of
  range), or used-up fuel. \<open>ensures c Q\<close> says that \<open>c\<close> never faults and its values satisfy \<open>Q\<close>, whatever the
  allocator does; \<open>settles b c Q\<close> that it always returns a value, also where allocations fail and it has to
  clean up. Where the code has locks, what they protect is one step. The clocks, random numbers,
  libcurl and uninitialized variables are arguments.

  \<^bold>\<open>Theories, in the order of the imports.\<close>

  \<^item> \<open>Prelude\<close>: types, commands, the allocator, casts; lemmas on commands and association lists.
  \<^item> \<open>Json\<close>: JSON trees with the operations of \<open>json.c\<close>; what set, delete, merge and append do.
  \<^item> \<open>Decimal\<close>, \<open>Cjson_Parse\<close>, \<open>Cjson_Print\<close>, \<open>Cjson\<close>: JSON text, byte by byte on explicit buffers. The reader never
    leaves its buffer and always ends; the writer prints the reference text \<open>json_text\<close>; reading inverts
    writing, for all trees nested at most \<open>CJSON_NESTING_LIMIT\<close> deep whose numbers survive the format.
  \<^item> \<open>Cjson_List\<close>: the children of a node as \<open>cJSON.c\<close> keeps them, linked in both directions on a heap. The
    operations implement those on lists and keep all others (locale \<open>list_operation\<close>, interpreted for append,
    insert and detach), and deletion frees each node once; this justifies lists in \<open>Json\<close>.
  \<^item> \<open>Cjson_Tree\<close>: the constructors, \<open>cJSON_Duplicate\<close> and \<open>cJSON_Compare\<close> on the same heap, over the trees that its nodes
    spell out (\<open>reads\<close>). A copy or a new array (locale \<open>node_maker\<close>, interpreted for numbers, integers and strings) is
    a tree in nodes of its own, or everything is freed again; the comparison decides equality up to the
    order of members. Fuel for every address bounds depth and length, and is proved to be enough.
  \<^item> \<open>Cjson_Minify\<close>: \<open>cJSON_Minify\<close> in place in a buffer; it equals a function from text to text and turns formatted
    into unformatted text, where no string ends in a backslash; what happens to strings behind such a one.
  \<^item> \<open>Ldvalue\<close>: the values, builders and iterators of \<open>ldvalue.c\<close> on that heap; a built value is independent of
    its builder, a clone is equal to its original, an iterator visits every member.
  \<^item> \<open>Base64\<close>: encoding and decoding with checked writes; exact, and inverse to each other.
  \<^item> \<open>Utility\<close>, \<open>Platform\<close>: identifiers, time arithmetic (\<open>utility.c\<close>, \<open>ldtime.c\<close>), the device identifier (\<open>ldutil.c\<close>).
  \<^item> \<open>Logging\<close>: the global logger (\<open>logging.c\<close>) calls back for exactly the messages up to its level; no other model
    records the messages of the code.
  \<^item> \<open>Flag\<close>: parsing and printing of flags; round trip and well-formedness.
  \<^item> \<open>Listener\<close>: registration and dispatch.
  \<^item> \<open>Store\<close>, \<open>Store_Runs\<close>: the table of reference counted nodes on a heap. \<open>abs_store\<close> is the map it stands
    for; every operation refines its specification and keeps \<open>store_inv\<close> (locale-free invariants on the
    heap); \<open>store_reachable\<close> is the step relation of all interleavings of store operations with references taken and
    given back, puts at any time included. A put frees the nodes of the old table also where references to them
    are still held (\<open>dangling\<close>); these are exactly the uses that fault, all others are safe and exact.
  \<^item> \<open>User\<close>: construction, redaction of private attributes, serialization.
  \<^item> \<open>Config\<close>: construction and setters, invariant of every configuration that can be built.
  \<^item> \<open>Events\<close>: queue bounds, summary counters that count exactly, payloads that conserve the events.
  \<^item> \<open>Sse\<close>: lines and chunks (locale \<open>sse_client\<close> for the consumer of events); chunk boundaries never matter.
  \<^item> \<open>Streaming\<close>: the client record, the handlers of put, patch and delete, the decisions of each turn of the threads.
  \<^item> \<open>Net\<close>: the requests of \<open>ldnet.c\<close> over a parameter for libcurl (locale \<open>stream_handler\<close> for what the transport
    relies on): the addresses and headers, release of every handle, abort of a stalled stream, and the stream
    from the socket to the store. Of the data that libcurl hands over only documented behaviour is assumed
    (\<open>lib_proper\<close>): header lines are not empty, and a piece of the body is empty only if the body is.
  \<^item> \<open>Threads\<close>: the three loops over their turns with these requests. A turn has two functions for what other threads
    do to the client: while the thread waits (\<open>tn_other\<close>) and while its request is under way (\<open>tn_meanwhile\<close>). The
    threads end on shutdown unless the status is changed again, which an update that is under way does; the last
    flush delivers; a poll initializes the client.
  \<^item> \<open>Client\<close>: evaluation with all ten variations (the buffers of the string variations with checked writes), all flags, saving and restoring, tracking, identify, life cycle of all environments.

  \<^bold>\<open>Bounds and fuel.\<close> Loops over heap lists have fuel for all addresses ever handed out, which is enough for
  every list without a cycle and is proved to be enough. The reader recurs with the nesting limit of the
  code. The loops of the threads run over a given list of turns, since they end only on a change of
  status; that they end is proved. Integers are kept at their width where the code casts, counts or
  wraps around (\<open>unsigned int\<close>, \<open>size_t\<close> of 64 bits in \<open>Base64\<close> and for the buffers of \<open>Client\<close>); sizes of other buffers in memory are \<open>nat\<close>,
  and the count of failed attempts of the streamer is unbounded.

  \<^bold>\<open>Not modelled.\<close> Doubles are rationals: NaN, infinities and rounding are left out (the text of numbers is modelled
  with the exact decimal conversions, so that a value which is not a short decimal is printed with 17 digits also
  where the nearest double to its 15 digits is the same). The macros of \<open>uthash.h\<close> and \<open>utlist.h\<close> are modelled by their effect on
  a table and a list. \<open>concurrency.c\<close> wraps operating system primitives; of \<open>ldutil.c\<close>
  the branches for Linux are modelled. Waiting is visible only through what other threads do meanwhile, and locks only
  through the steps they make atomic: that \<open>LDi_updatestatus\<close> lets go of the lock of the client around the status
  callback is not in the model.
  Deallocation is modelled where its order matters (store nodes, JSON nodes on the heap, handles of libcurl), and
  left out for strings and for the trees of \<open>Json\<close>. The printing of raw items, the error position and the hooks of
  \<open>cJSON.c\<close> are left out, and so are the C++ bindings, tests and examples. The reader, the writer and the
  SDK itself work on the trees of \<open>Json\<close> and not on the heap; \<open>Cjson_List\<close> and \<open>Cjson_Tree\<close> show that the heap
  implements them.
\<close>

end
